theory Spec2Isabelle
  imports Main "HOL-Library.Word"
begin

section \<open>Machine values, outcomes and the free store\<close>

text \<open>
  The container is the class template \<open>circular_buffer<T>\<close> of \<open>circular-buffer.h\<close>.
  \<open>size_t\<close> and \<open>ptrdiff_t\<close> are 64-bit words (arithmetic wraps; \<open>sint\<close> reads a
  \<open>ptrdiff_t\<close>), the element type \<open>T\<close> is the type variable \<open>'a\<close>.
\<close>

type_synonym size_t = "64 word"
type_synonym ptrdiff_t = "64 word"
type_synonym addr = nat
type_synonym ref = nat

text \<open>
  What a call can do: return normally with a result and a state, leave by an exception
  with the state it left behind, or have no defined behaviour at all.
\<close>

datatype exn = bad_alloc | element_error

datatype ('r, 's) outcome = Done 'r 's | Thrown exn 's | Undefined

text \<open>
  The free store maps the base address of every allocated block to its slots; a slot is
  raw storage (\<open>None\<close>) or holds a live element. \<open>brk\<close> is the next address the
  allocator hands out. \<open>faults\<close> scripts the environment: every step that may throw
  (an allocation, a copy, move or assignment of a \<open>T\<close>) consumes one entry, and
  \<open>True\<close> makes that step throw. An exhausted script means no further failure.
  \<open>sizeof_T\<close> is \<open>sizeof(T)\<close>, the number of bytes of an element: a constant of the
  program.
\<close>

record 'a mem =
  heap :: "addr \<Rightarrow> 'a option list option"
  brk :: addr
  faults :: "bool list"
  sizeof_T :: size_t

text \<open>
  \<open>operator new(size)\<close> for a block of \<open>size\<close> bytes. No block has more than
  \<open>PTRDIFF_MAX\<close> bytes: a request for more always fails. A block of \<open>size\<close> bytes has
  room for \<open>size / sizeof(T)\<close> objects of type \<open>T\<close>, and the model keeps the block as
  that many slots; what lies behind them is not part of the block.
\<close>

definition alloc_limit :: nat where
  "alloc_limit = 2 ^ 63 - 1"

definition INT_MAX :: int where
  "INT_MAX = 2 ^ 31 - 1"

definition fault :: "'a mem \<Rightarrow> bool \<times> 'a mem" where
  "fault m = (case faults m of [] \<Rightarrow> (False, m) | f # fs \<Rightarrow> (f, m\<lparr>faults := fs\<rparr>))"

definition operator_new :: "size_t \<Rightarrow> 'a mem \<Rightarrow> (addr, 'a mem) outcome" where
  "operator_new bytes m =
     (let (f, m1) = fault m in
      if f \<or> alloc_limit < unat bytes then Thrown bad_alloc m1
      else Done (brk m1)
             (m1\<lparr>heap := (heap m1)(brk m1 \<mapsto> replicate (unat bytes div unat (sizeof_T m1)) None),
                 brk := Suc (brk m1)\<rparr>))"

definition operator_delete :: "addr option \<Rightarrow> 'a mem \<Rightarrow> 'a mem" where
  "operator_delete p m = (case p of None \<Rightarrow> m | Some a \<Rightarrow> m\<lparr>heap := (heap m)(a := None)\<rparr>)"

text \<open>\<open>cell p i m\<close> is the slot \<open>p + i\<close>: \<open>None\<close> when there is no such slot.\<close>

definition cell :: "addr option \<Rightarrow> nat \<Rightarrow> 'a mem \<Rightarrow> 'a option option" where
  "cell p i m =
     (case p of None \<Rightarrow> None
      | Some a \<Rightarrow> (case heap m a of None \<Rightarrow> None
                  | Some blk \<Rightarrow> if i < length blk then Some (blk ! i) else None))"

definition set_cell :: "addr option \<Rightarrow> nat \<Rightarrow> 'a option \<Rightarrow> 'a mem \<Rightarrow> 'a mem" where
  "set_cell p i x m =
     (case p of None \<Rightarrow> m
      | Some a \<Rightarrow> (case heap m a of None \<Rightarrow> m
                  | Some blk \<Rightarrow> m\<lparr>heap := (heap m)(a \<mapsto> blk[i := x])\<rparr>))"

text \<open>Reading the element in a slot is defined only when the slot holds one.\<close>

definition obj_at :: "addr option \<Rightarrow> nat \<Rightarrow> 'a mem \<Rightarrow> 'a option" where
  "obj_at p i m = (case cell p i m of Some (Some v) \<Rightarrow> Some v | _ \<Rightarrow> None)"

text \<open>\<open>new (p + i) T(v)\<close>: the copy constructor of \<open>T\<close> may throw.\<close>

definition construct_at :: "addr option \<Rightarrow> nat \<Rightarrow> 'a \<Rightarrow> 'a mem \<Rightarrow> (unit, 'a mem) outcome" where
  "construct_at p i v m =
     (case cell p i m of None \<Rightarrow> Undefined
      | Some _ \<Rightarrow> (let (f, m1) = fault m in
                  if f then Thrown element_error m1 else Done () (set_cell p i (Some v) m1)))"

text \<open>
  An argument of type \<open>const T&\<close>. It refers to an object outside the blocks of the free
  store (a local variable, a temporary) with the value it has, or to the slot \<open>i\<close> of the
  block at \<open>p\<close>, as \<open>b[i]\<close>, \<open>front()\<close>, \<open>back()\<close> and \<open>*it\<close> return it. Reading through a
  reference into a released block, or to a slot that holds no live element, is
  undefined.
\<close>

datatype 'a src = Local 'a | Slot addr nat

definition read_ref :: "'a src \<Rightarrow> 'a mem \<Rightarrow> 'a option" where
  "read_ref val m = (case val of Local v \<Rightarrow> Some v | Slot p i \<Rightarrow> obj_at (Some p) i m)"

text \<open>\<open>new (p + i) T(val)\<close> for a reference \<open>val\<close>: the copy reads \<open>val\<close>.\<close>

definition construct_from ::
  "addr option \<Rightarrow> nat \<Rightarrow> 'a src \<Rightarrow> 'a mem \<Rightarrow> (unit, 'a mem) outcome" where
  "construct_from p i val m =
     (case read_ref val m of None \<Rightarrow> Undefined | Some v \<Rightarrow> construct_at p i v m)"

text \<open>\<open>(p + i)->~T()\<close>: destroying what is not a live element is undefined.\<close>

definition destroy_at :: "addr option \<Rightarrow> nat \<Rightarrow> 'a mem \<Rightarrow> (unit, 'a mem) outcome" where
  "destroy_at p i m =
     (case obj_at p i m of None \<Rightarrow> Undefined | Some _ \<Rightarrow> Done () (set_cell p i None m))"

definition destroy_range :: "addr option \<Rightarrow> nat \<Rightarrow> 'a mem \<Rightarrow> 'a mem" where
  "destroy_range p k m = fold (\<lambda>j. set_cell p j None) [0..<k] m"

section \<open>The buffer and its iterators\<close>

text \<open>The four data members \<open>data_\<close>, \<open>capacity_\<close>, \<open>head_\<close>, \<open>size_\<close>.\<close>

record cb =
  cb_data :: "addr option"
  cb_capacity :: size_t
  cb_head :: size_t
  cb_size :: size_t

text \<open>\<open>buffer_iterator\<close>: the members \<open>buff_\<close> and \<open>offset_\<close>.\<close>

record iter =
  it_buff :: ref
  it_offset :: size_t

text \<open>
  \<open>get_real_index\<close> of an iterator with offset \<open>offset\<close> into the buffer \<open>b\<close>;
  the remainder by a zero capacity is undefined.
\<close>

definition get_real_index :: "cb \<Rightarrow> size_t \<Rightarrow> size_t \<Rightarrow> nat option" where
  "get_real_index b offset off =
     (if cb_capacity b = 0 then None
      else Some (unat ((offset + cb_head b + off) mod cb_capacity b)))"

definition it_plus :: "iter \<Rightarrow> ptrdiff_t \<Rightarrow> iter" where
  "it_plus a d = a\<lparr>it_offset := it_offset a + d\<rparr>"

definition it_minus :: "iter \<Rightarrow> ptrdiff_t \<Rightarrow> iter" where
  "it_minus a d = it_plus a (- d)"

definition it_inc :: "iter \<Rightarrow> iter" where
  "it_inc a = a\<lparr>it_offset := it_offset a + 1\<rparr>"

definition it_dec :: "iter \<Rightarrow> iter" where
  "it_dec a = a\<lparr>it_offset := it_offset a - 1\<rparr>"

definition it_diff :: "iter \<Rightarrow> iter \<Rightarrow> ptrdiff_t" where
  "it_diff a c = it_offset a - it_offset c"

definition it_eq :: "iter \<Rightarrow> iter \<Rightarrow> bool" where
  "it_eq a c = (it_buff a = it_buff c \<and> it_offset a = it_offset c)"

definition it_gt :: "iter \<Rightarrow> iter \<Rightarrow> bool" where
  "it_gt a c = (it_buff a = it_buff c \<and> it_offset a > it_offset c)"

definition it_lt :: "iter \<Rightarrow> iter \<Rightarrow> bool" where
  "it_lt a c = (\<not> (it_eq a c \<or> it_gt a c))"

definition it_ge :: "iter \<Rightarrow> iter \<Rightarrow> bool" where
  "it_ge a c = (it_gt a c \<or> it_eq a c)"

definition it_le :: "iter \<Rightarrow> iter \<Rightarrow> bool" where
  "it_le a c = (it_lt a c \<or> it_eq a c)"

definition begin_cb :: "ref \<Rightarrow> iter" where
  "begin_cb this = \<lparr>it_buff = this, it_offset = 0\<rparr>"

definition end_cb :: "ref \<Rightarrow> cb \<Rightarrow> iter" where
  "end_cb this b = \<lparr>it_buff = this, it_offset = cb_size b\<rparr>"

text \<open>
  The slot an iterator refers to, for a member function running on the buffer \<open>this\<close> with
  members \<open>b\<close>. An iterator into another buffer reaches outside the object the function
  works on; the methods never do that on iterators of their own buffer, and the model
  gives it no meaning.
\<close>

definition it_slot :: "ref \<Rightarrow> cb \<Rightarrow> iter \<Rightarrow> nat option" where
  "it_slot this b a = (if it_buff a = this then get_real_index b (it_offset a) 0 else None)"

text \<open>
  \<open>std::iter_swap(i, j)\<close> is \<open>std::swap(*i, *j)\<close>:
  \<open>T tmp(std::move(*i)); *i = std::move(*j); *j = std::move(tmp);\<close>. Both iterators
  must refer to live elements. The move construction and each of the two move
  assignments may throw. An element that was moved from stays a live element; the model
  leaves it the value it had, as a type that moves by copying does. So an exception in
  the second assignment leaves the value of \<open>*j\<close> in both elements.
\<close>

definition iter_swap :: "ref \<Rightarrow> cb \<Rightarrow> iter \<Rightarrow> iter \<Rightarrow> 'a mem \<Rightarrow> (unit, 'a mem) outcome" where
  "iter_swap this b i j m =
     (case it_slot this b i of None \<Rightarrow> Undefined
      | Some s \<Rightarrow> (case it_slot this b j of None \<Rightarrow> Undefined
      | Some t \<Rightarrow> (case obj_at (cb_data b) s m of None \<Rightarrow> Undefined
      | Some x \<Rightarrow> (case obj_at (cb_data b) t m of None \<Rightarrow> Undefined
      | Some y \<Rightarrow>
          (let (f1, m1) = fault m in
           if f1 then Thrown element_error m1
           else
             (let (f2, m2) = fault m1 in
              if f2 then Thrown element_error m2
              else
                (let (f3, m3) = fault (set_cell (cb_data b) s (Some y) m2) in
                 if f3 then Thrown element_error m3
                 else Done () (set_cell (cb_data b) t (Some x) m3))))))))"

text \<open>\<open>operator[]\<close>: \<open>data()[(head_ + index) % capacity_]\<close>.\<close>

definition index_slot :: "cb \<Rightarrow> size_t \<Rightarrow> nat option" where
  "index_slot b index =
     (if cb_capacity b = 0 then None
      else Some (unat ((cb_head b + index) mod cb_capacity b)))"

definition at_index :: "cb \<Rightarrow> size_t \<Rightarrow> 'a mem \<Rightarrow> 'a option" where
  "at_index b index m =
     (case index_slot b index of None \<Rightarrow> None | Some s \<Rightarrow> obj_at (cb_data b) s m)"

definition tail :: "cb \<Rightarrow> nat option" where
  "tail b =
     (if cb_capacity b = 0 then None
      else Some (unat ((cb_head b + cb_size b) mod cb_capacity b)))"

text \<open>The logical content: what \<open>operator[]\<close> reads at the indices \<open>0 .. size() - 1\<close>.\<close>

definition contents :: "cb \<Rightarrow> 'a mem \<Rightarrow> 'a option list" where
  "contents b m = map (\<lambda>k. at_index b (of_nat k) m) [0..<unat (cb_size b)]"

section \<open>Construction, destruction and growth\<close>

definition circular_buffer :: cb where
  "circular_buffer = \<lparr>cb_data = None, cb_capacity = 0, cb_head = 0, cb_size = 0\<rparr>"

definition swap_cb :: "cb \<Rightarrow> cb \<Rightarrow> cb \<times> cb" where
  "swap_cb a b =
     (a\<lparr>cb_data := cb_data b, cb_capacity := cb_capacity b, cb_head := cb_head b,
        cb_size := cb_size b\<rparr>,
      b\<lparr>cb_data := cb_data a, cb_capacity := cb_capacity a, cb_head := cb_head a,
        cb_size := cb_size a\<rparr>)"

definition op_eq :: "cb \<Rightarrow> cb \<Rightarrow> bool" where
  "op_eq a b = (cb_data a = cb_data b \<and> cb_head a = cb_head b \<and> cb_size a = cb_size b)"

definition op_ne :: "cb \<Rightarrow> cb \<Rightarrow> bool" where
  "op_ne a b = (\<not> op_eq a b)"

text \<open>
  \<open>std::uninitialized_copy(other.begin(), other.end(), data_)\<close>, the source iterator at
  offset \<open>i\<close> and the destination at \<open>dst + k\<close>. When a copy throws, the elements built
  so far are destroyed and the exception goes on.
\<close>

function uninitialized_copy ::
  "cb \<Rightarrow> size_t \<Rightarrow> size_t \<Rightarrow> addr option \<Rightarrow> nat \<Rightarrow> 'a mem \<Rightarrow> (unit, 'a mem) outcome" where
  "uninitialized_copy other i last_it dst k m =
     (if i \<noteq> last_it then
        (case get_real_index other i 0 of None \<Rightarrow> Undefined
         | Some s \<Rightarrow> (case obj_at (cb_data other) s m of None \<Rightarrow> Undefined
         | Some v \<Rightarrow> (case construct_at dst k v m of
                        Done _ m' \<Rightarrow> uninitialized_copy other (i + 1) last_it dst (Suc k) m'
                      | Thrown e m' \<Rightarrow> Thrown e (destroy_range dst k m')
                      | Undefined \<Rightarrow> Undefined)))
      else Done () m)"
  by pat_completeness auto
termination
proof (relation "measure (\<lambda>(other, i, last_it, dst, k, m). unat (last_it - i))")
  show "wf (measure (\<lambda>(other, i, last_it, dst, k, m). unat (last_it - i)))"
    by simp
next
  fix other :: cb and i last_it :: size_t and dst :: "addr option" and k :: nat
    and m m' :: "'a mem" and s v u
  assume "i \<noteq> last_it"
  then have nz: "last_it - i \<noteq> 0" by simp
  have e: "last_it - (i + 1) = last_it - i - 1" by simp
  have "unat (last_it - (i + 1)) = unat (last_it - i) - 1"
    unfolding e by (rule unat_minus_one [OF nz])
  moreover have "unat (last_it - i) \<noteq> 0"
    using nz unat_eq_0 by blast
  ultimately show "((other, i + 1, last_it, dst, Suc k, m'), (other, i, last_it, dst, k, m))
      \<in> measure (\<lambda>(other, i, last_it, dst, k, m). unat (last_it - i))"
    by simp
qed

text \<open>
  The private constructor \<open>circular_buffer(const circular_buffer& other, size_t new_capacity)\<close>.
  It asks for \<open>sizeof(T) * new_capacity\<close> bytes, a product of two \<open>size_t\<close> that wraps
  around, and sets \<open>capacity_\<close> to \<open>new_capacity\<close> whatever the block has room for.
\<close>

definition circular_buffer_cap :: "cb \<Rightarrow> size_t \<Rightarrow> 'a mem \<Rightarrow> (cb, 'a mem) outcome" where
  "circular_buffer_cap other new_capacity m =
     (case (if new_capacity = 0 then Done None m
            else (case operator_new (sizeof_T m * new_capacity) m of
                    Done a m1 \<Rightarrow> Done (Some a) m1
                  | Thrown e m1 \<Rightarrow> Thrown e m1
                  | Undefined \<Rightarrow> Undefined)) of
        Done p m1 \<Rightarrow>
          (case uninitialized_copy other 0 (cb_size other) p 0 m1 of
             Done _ m2 \<Rightarrow>
               Done \<lparr>cb_data = p, cb_capacity = new_capacity, cb_head = 0,
                     cb_size = cb_size other\<rparr> m2
           | Thrown e m2 \<Rightarrow> Thrown e (operator_delete p m2)
           | Undefined \<Rightarrow> Undefined)
      | Thrown e m1 \<Rightarrow> Thrown e m1
      | Undefined \<Rightarrow> Undefined)"

text \<open>The copy constructor \<open>circular_buffer(const circular_buffer& other)\<close>.\<close>

definition circular_buffer_copy :: "cb \<Rightarrow> 'a mem \<Rightarrow> (cb, 'a mem) outcome" where
  "circular_buffer_copy other m = circular_buffer_cap other (cb_size other) m"

text \<open>\<open>pop_back\<close>: \<open>std::destroy_n(end() - 1, 1); --size_;\<close>\<close>

definition pop_back :: "cb \<Rightarrow> 'a mem \<Rightarrow> (unit, cb \<times> 'a mem) outcome" where
  "pop_back b m =
     (case get_real_index b (cb_size b + (- 1)) 0 of None \<Rightarrow> Undefined
      | Some s \<Rightarrow> (case destroy_at (cb_data b) s m of
                    Done _ m' \<Rightarrow> Done () (b\<lparr>cb_size := cb_size b - 1\<rparr>, m')
                  | Thrown e m' \<Rightarrow> Undefined
                  | Undefined \<Rightarrow> Undefined))"

text \<open>\<open>pop_front\<close>: \<open>--size_; data()[head_].~T(); head_ = (head_ + 1) % capacity_;\<close>\<close>

definition pop_front :: "cb \<Rightarrow> 'a mem \<Rightarrow> (unit, cb \<times> 'a mem) outcome" where
  "pop_front b m =
     (case destroy_at (cb_data b) (unat (cb_head b)) m of
        Done _ m' \<Rightarrow>
          (if cb_capacity b = 0 then Undefined
           else Done () (b\<lparr>cb_size := cb_size b - 1,
                            cb_head := (cb_head b + 1) mod cb_capacity b\<rparr>, m'))
      | Thrown e m' \<Rightarrow> Undefined
      | Undefined \<Rightarrow> Undefined)"

text \<open>\<open>clear\<close>: \<open>while (!empty()) pop_back();\<close>\<close>

function clear :: "cb \<Rightarrow> 'a mem \<Rightarrow> (unit, cb \<times> 'a mem) outcome" where
  "clear b m =
     (if cb_size b \<noteq> 0 then
        (case pop_back b m of
           Done _ (b', m') \<Rightarrow> clear b' m'
         | Thrown e s \<Rightarrow> Undefined
         | Undefined \<Rightarrow> Undefined)
      else Done () (b, m))"
  by pat_completeness auto
termination
proof (relation "measure (\<lambda>(b, m). unat (cb_size b))")
  show "wf (measure (\<lambda>(b, m). unat (cb_size b)))"
    by simp
next
  fix b :: cb and m :: "'a mem" and u s b' m'
  assume nz: "cb_size b \<noteq> 0" and pop: "pop_back b m = Done u s" and s: "(b', m') = s"
  from pop s have "cb_size b' = cb_size b - 1"
    by (auto simp: pop_back_def split: option.splits outcome.splits)
  moreover have "unat (cb_size b) \<noteq> 0"
    using nz unat_eq_0 by blast
  ultimately show "((b', m'), (b, m)) \<in> measure (\<lambda>(b, m). unat (cb_size b))"
    using unat_minus_one [OF nz] by simp
qed

text \<open>The destructor: \<open>clear(); operator delete(data());\<close>\<close>

definition destructor :: "cb \<Rightarrow> 'a mem \<Rightarrow> (unit, 'a mem) outcome" where
  "destructor b m =
     (case clear b m of
        Done _ (b', m') \<Rightarrow> Done () (operator_delete (cb_data b') m')
      | Thrown e s \<Rightarrow> Undefined
      | Undefined \<Rightarrow> Undefined)"

text \<open>
  \<open>ensure_capacity\<close>: the grown copy \<open>tmp\<close> is swapped with \<open>*this\<close> and leaves scope
  holding the old members, which its destructor releases.
\<close>

definition ensure_capacity :: "cb \<Rightarrow> size_t \<Rightarrow> 'a mem \<Rightarrow> (unit, cb \<times> 'a mem) outcome" where
  "ensure_capacity b new_capacity m =
     (if cb_capacity b < new_capacity then
        (case circular_buffer_cap b new_capacity m of
           Done tmp m1 \<Rightarrow>
             (let (tmp', this') = swap_cb tmp b in
              case destructor tmp' m1 of
                Done _ m2 \<Rightarrow> Done () (this', m2)
              | Thrown e m2 \<Rightarrow> Undefined
              | Undefined \<Rightarrow> Undefined)
         | Thrown e m1 \<Rightarrow> Thrown e (b, m1)
         | Undefined \<Rightarrow> Undefined)
      else Done () (b, m))"

definition reserve :: "cb \<Rightarrow> size_t \<Rightarrow> 'a mem \<Rightarrow> (unit, cb \<times> 'a mem) outcome" where
  "reserve b desired_capacity m = ensure_capacity b desired_capacity m"

section \<open>Insertion and removal at the ends\<close>

text \<open>
  \<open>push_back\<close> and \<open>push_front\<close> take \<open>const T& val\<close> and call themselves after
  growing, with the same reference: \<open>val\<close> is read only when the element is built, after
  the growth has released the old block. Whether the recursion ends depends on the growth
  having made room, so both are partial functions: \<open>None\<close> is a call that never returns.
\<close>

partial_function (option) push_back ::
  "cb \<Rightarrow> 'a src \<Rightarrow> 'a mem \<Rightarrow> (unit, cb \<times> 'a mem) outcome option" where
  "push_back b val m =
     (if cb_size b = cb_capacity b then
        (case ensure_capacity b (if cb_capacity b = 0 then 1 else cb_capacity b * 2) m of
           Done _ (b', m') \<Rightarrow> push_back b' val m'
         | Thrown e s \<Rightarrow> Some (Thrown e s)
         | Undefined \<Rightarrow> Some Undefined)
      else
        (case tail b of None \<Rightarrow> Some Undefined
         | Some t \<Rightarrow> (case construct_from (cb_data b) t val m of
                       Done _ m' \<Rightarrow> Some (Done () (b\<lparr>cb_size := cb_size b + 1\<rparr>, m'))
                     | Thrown e m' \<Rightarrow> Some (Thrown e (b, m'))
                     | Undefined \<Rightarrow> Some Undefined)))"

partial_function (option) push_front ::
  "cb \<Rightarrow> 'a src \<Rightarrow> 'a mem \<Rightarrow> (unit, cb \<times> 'a mem) outcome option" where
  "push_front b val m =
     (if cb_size b = cb_capacity b then
        (case ensure_capacity b (if cb_capacity b = 0 then 1 else cb_capacity b * 2) m of
           Done _ (b', m') \<Rightarrow> push_front b' val m'
         | Thrown e s \<Rightarrow> Some (Thrown e s)
         | Undefined \<Rightarrow> Some Undefined)
      else if cb_capacity b = 0 then Some Undefined
      else
        (case construct_from (cb_data b)
                (unat ((cb_head b + cb_capacity b - 1) mod cb_capacity b)) val m of
           Done _ m' \<Rightarrow>
             Some (Done () (b\<lparr>cb_head := (cb_head b + cb_capacity b - 1) mod cb_capacity b,
                              cb_size := cb_size b + 1\<rparr>, m'))
         | Thrown e m' \<Rightarrow> Some (Thrown e (b, m'))
         | Undefined \<Rightarrow> Some Undefined))"

text \<open>
  \<open>for (auto i = 0; i < delta; i++) pop_back();\<close> The counter \<open>i\<close> is an \<open>int\<close> and
  \<open>delta\<close> a \<open>ptrdiff_t\<close>: the comparison is signed, and incrementing \<open>i\<close> beyond
  \<open>INT_MAX\<close> is a signed overflow, which is undefined.
\<close>

function pop_back_n :: "cb \<Rightarrow> int \<Rightarrow> ptrdiff_t \<Rightarrow> 'a mem \<Rightarrow> (unit, cb \<times> 'a mem) outcome" where
  "pop_back_n b i delta m =
     (if i < sint delta then
        (case pop_back b m of
           Done _ (b', m') \<Rightarrow> if i = INT_MAX then Undefined else pop_back_n b' (i + 1) delta m'
         | Thrown e s \<Rightarrow> Undefined
         | Undefined \<Rightarrow> Undefined)
      else Done () (b, m))"
  by pat_completeness auto
termination
  by (relation "measure (\<lambda>(b, i, delta, m). nat (sint delta - i))") auto

function pop_front_n :: "cb \<Rightarrow> int \<Rightarrow> ptrdiff_t \<Rightarrow> 'a mem \<Rightarrow> (unit, cb \<times> 'a mem) outcome" where
  "pop_front_n b i delta m =
     (if i < sint delta then
        (case pop_front b m of
           Done _ (b', m') \<Rightarrow> if i = INT_MAX then Undefined else pop_front_n b' (i + 1) delta m'
         | Thrown e s \<Rightarrow> Undefined
         | Undefined \<Rightarrow> Undefined)
      else Done () (b, m))"
  by pat_completeness auto
termination
  by (relation "measure (\<lambda>(b, i, delta, m). nat (sint delta - i))") auto

section \<open>Insertion and removal at a position\<close>

text \<open>
  The shifting loops of \<open>insert\<close> and \<open>erase\<close>, with the iterator comparisons as the
  class defines them. A loop whose condition never turns false does not return.
\<close>

partial_function (option) insert_fwd ::
  "ref \<Rightarrow> cb \<Rightarrow> iter \<Rightarrow> iter \<Rightarrow> 'a mem \<Rightarrow> (unit, 'a mem) outcome option" where
  "insert_fwd this b i spot m =
     (if it_lt i spot then
        (case iter_swap this b i (it_plus i 1) m of
           Done _ m' \<Rightarrow> insert_fwd this b (it_inc i) spot m'
         | Thrown e m' \<Rightarrow> Some (Thrown e m')
         | Undefined \<Rightarrow> Some Undefined)
      else Some (Done () m))"

partial_function (option) insert_bwd ::
  "ref \<Rightarrow> cb \<Rightarrow> iter \<Rightarrow> iter \<Rightarrow> 'a mem \<Rightarrow> (unit, 'a mem) outcome option" where
  "insert_bwd this b i spot m =
     (if it_gt i spot then
        (case iter_swap this b i (it_minus i 1) m of
           Done _ m' \<Rightarrow> insert_bwd this b (it_dec i) spot m'
         | Thrown e m' \<Rightarrow> Some (Thrown e m')
         | Undefined \<Rightarrow> Some Undefined)
      else Some (Done () m))"

text \<open>\<open>insert(pos, val)\<close> hands its \<open>const T& val\<close> on to the push.\<close>

definition insert_cb ::
  "ref \<Rightarrow> cb \<Rightarrow> iter \<Rightarrow> 'a src \<Rightarrow> 'a mem \<Rightarrow> (iter, cb \<times> 'a mem) outcome option" where
  "insert_cb this b pos val m =
     (let delta = it_diff pos (begin_cb this) in
      if delta < cb_size b div 2 then
        (case push_front b val m of
           None \<Rightarrow> None
         | Some (Done _ (b1, m1)) \<Rightarrow>
             (let spot = it_plus (begin_cb this) delta in
              case insert_fwd this b1 (begin_cb this) spot m1 of
                None \<Rightarrow> None
              | Some (Done _ m2) \<Rightarrow> Some (Done spot (b1, m2))
              | Some (Thrown e m2) \<Rightarrow> Some (Thrown e (b1, m2))
              | Some Undefined \<Rightarrow> Some Undefined)
         | Some (Thrown e s) \<Rightarrow> Some (Thrown e s)
         | Some Undefined \<Rightarrow> Some Undefined)
      else
        (case push_back b val m of
           None \<Rightarrow> None
         | Some (Done _ (b1, m1)) \<Rightarrow>
             (let spot = it_plus (begin_cb this) delta in
              case insert_bwd this b1 (it_minus (end_cb this b1) 1) spot m1 of
                None \<Rightarrow> None
              | Some (Done _ m2) \<Rightarrow> Some (Done spot (b1, m2))
              | Some (Thrown e m2) \<Rightarrow> Some (Thrown e (b1, m2))
              | Some Undefined \<Rightarrow> Some Undefined)
         | Some (Thrown e s) \<Rightarrow> Some (Thrown e s)
         | Some Undefined \<Rightarrow> Some Undefined))"

partial_function (option) erase_left ::
  "ref \<Rightarrow> cb \<Rightarrow> iter \<Rightarrow> ptrdiff_t \<Rightarrow> 'a mem \<Rightarrow> (unit, 'a mem) outcome option" where
  "erase_left this b i delta m =
     (if it_lt (it_plus i delta) (end_cb this b) then
        (case iter_swap this b i (it_plus i delta) m of
           Done _ m' \<Rightarrow> erase_left this b (it_inc i) delta m'
         | Thrown e m' \<Rightarrow> Some (Thrown e m')
         | Undefined \<Rightarrow> Some Undefined)
      else Some (Done () m))"

partial_function (option) erase_right ::
  "ref \<Rightarrow> cb \<Rightarrow> iter \<Rightarrow> ptrdiff_t \<Rightarrow> 'a mem \<Rightarrow> (unit, 'a mem) outcome option" where
  "erase_right this b i delta m =
     (if it_ge i (it_plus (begin_cb this) delta) then
        (case iter_swap this b i (it_minus i delta) m of
           Done _ m' \<Rightarrow> erase_right this b (it_dec i) delta m'
         | Thrown e m' \<Rightarrow> Some (Thrown e m')
         | Undefined \<Rightarrow> Some Undefined)
      else Some (Done () m))"

definition erase ::
  "ref \<Rightarrow> cb \<Rightarrow> iter \<Rightarrow> iter \<Rightarrow> 'a mem \<Rightarrow> (iter, cb \<times> 'a mem) outcome option" where
  "erase this b first last_it m =
     (let delta = it_diff last_it first in
      if it_diff (end_cb this b) last_it < cb_size b div 2 then
        (case erase_left this b first delta m of
           None \<Rightarrow> None
         | Some (Done _ m1) \<Rightarrow>
             (case pop_back_n b 0 delta m1 of
                Done _ s \<Rightarrow> Some (Done first s)
              | Thrown e s \<Rightarrow> Some (Thrown e s)
              | Undefined \<Rightarrow> Some Undefined)
         | Some (Thrown e m1) \<Rightarrow> Some (Thrown e (b, m1))
         | Some Undefined \<Rightarrow> Some Undefined)
      else if delta \<noteq> 0 then
        (let diff = it_diff first (begin_cb this) in
         case erase_right this b (it_minus last_it 1) delta m of
           None \<Rightarrow> None
         | Some (Done _ m1) \<Rightarrow>
             (case pop_front_n b 0 delta m1 of
                Done _ s \<Rightarrow> Some (Done (it_plus (begin_cb this) diff) s)
              | Thrown e s \<Rightarrow> Some (Thrown e s)
              | Undefined \<Rightarrow> Some Undefined)
         | Some (Thrown e m1) \<Rightarrow> Some (Thrown e (b, m1))
         | Some Undefined \<Rightarrow> Some Undefined)
      else Some (Done first (b, m)))"

text \<open>\<open>erase(pos)\<close> is \<open>erase(pos, pos + 1)\<close>.\<close>

definition erase_pos ::
  "ref \<Rightarrow> cb \<Rightarrow> iter \<Rightarrow> 'a mem \<Rightarrow> (iter, cb \<times> 'a mem) outcome option" where
  "erase_pos this b pos m = erase this b pos (it_plus pos 1) m"

text \<open>Assigning through the reference \<open>operator[]\<close> returns: \<open>buf[index] = val\<close>.\<close>

definition assign_at :: "cb \<Rightarrow> size_t \<Rightarrow> 'a \<Rightarrow> 'a mem \<Rightarrow> (unit, cb \<times> 'a mem) outcome" where
  "assign_at b index val m =
     (case index_slot b index of None \<Rightarrow> Undefined
      | Some s \<Rightarrow> (case obj_at (cb_data b) s m of None \<Rightarrow> Undefined
      | Some _ \<Rightarrow> (let (f, m1) = fault m in
                  if f then Thrown element_error (b, m1)
                  else Done () (b, set_cell (cb_data b) s (Some val) m1))))"

section \<open>Sequences of operations at the two ends\<close>

text \<open>
  The four operations, over what a push is given: a reference for the buffer, a value for
  the reference model.
\<close>

datatype 'v dq_op = Push_back 'v | Push_front 'v | Pop_back | Pop_front

fun apply_op :: "'a src dq_op \<Rightarrow> cb \<Rightarrow> 'a mem \<Rightarrow> (unit, cb \<times> 'a mem) outcome option" where
  "apply_op (Push_back v) b m = push_back b v m"
| "apply_op (Push_front v) b m = push_front b v m"
| "apply_op Pop_back b m = Some (pop_back b m)"
| "apply_op Pop_front b m = Some (pop_front b m)"

text \<open>A sequence runs until an operation does not return normally.\<close>

fun run_ops ::
  "'a src dq_op list \<Rightarrow> cb \<Rightarrow> 'a mem \<Rightarrow> (unit, cb \<times> 'a mem) outcome option" where
  "run_ops [] b m = Some (Done () (b, m))"
| "run_ops (x # xs) b m =
     (case apply_op x b m of
        Some (Done _ (b', m')) \<Rightarrow> run_ops xs b' m'
      | r \<Rightarrow> r)"

text \<open>
  The reference model: a double-ended queue as a list, front first. A pop is allowed
  only on a non-empty queue.
\<close>

fun deque_op :: "'a dq_op \<Rightarrow> 'a list \<Rightarrow> 'a list" where
  "deque_op (Push_back v) xs = xs @ [v]"
| "deque_op (Push_front v) xs = v # xs"
| "deque_op Pop_back xs = butlast xs"
| "deque_op Pop_front xs = tl xs"

fun deque_run :: "'a dq_op list \<Rightarrow> 'a list \<Rightarrow> 'a list" where
  "deque_run [] xs = xs"
| "deque_run (x # ops) xs = deque_run ops (deque_op x xs)"

fun is_pop :: "'a dq_op \<Rightarrow> bool" where
  "is_pop Pop_back = True"
| "is_pop Pop_front = True"
| "is_pop _ = False"

fun pops_nonempty :: "'a dq_op list \<Rightarrow> 'a list \<Rightarrow> bool" where
  "pops_nonempty [] xs = True"
| "pops_nonempty (x # ops) xs =
     ((is_pop x \<longrightarrow> xs \<noteq> []) \<and> pops_nonempty ops (deque_op x xs))"

section \<open>Several buffers: the public interface\<close>

text \<open>
  Buffer objects live in \<open>objs\<close> under their identity; two references may name the
  same object. Each constructor brings one object to life, the destructor ends it.
\<close>

record 'a world =
  objs :: "ref \<Rightarrow> cb option"
  store :: "'a mem"

datatype 'a call =
    Construct ref
  | Copy_construct ref ref
  | Assign ref ref
  | Destroy ref
  | Swap ref ref
  | Deque_op ref "'a src dq_op"
  | Reserve ref size_t
  | Insert ref iter "'a src"
  | Erase ref iter
  | Erase_range ref iter iter
  | Clear ref
  | Assign_at ref size_t 'a

definition member_call ::
  "ref \<Rightarrow> (cb \<Rightarrow> 'a mem \<Rightarrow> ('r, cb \<times> 'a mem) outcome option) \<Rightarrow> 'a world
     \<Rightarrow> (unit, 'a world) outcome option" where
  "member_call this f w =
     (case objs w this of None \<Rightarrow> Some Undefined
      | Some b \<Rightarrow>
          (case f b (store w) of
             None \<Rightarrow> None
           | Some (Done _ (b', m')) \<Rightarrow> Some (Done () (w\<lparr>objs := (objs w)(this \<mapsto> b'), store := m'\<rparr>))
           | Some (Thrown e (b', m')) \<Rightarrow>
               Some (Thrown e (w\<lparr>objs := (objs w)(this \<mapsto> b'), store := m'\<rparr>))
           | Some Undefined \<Rightarrow> Some Undefined))"

text \<open>
  \<open>operator=\<close>: copy and swap, skipped when \<open>*this != other\<close> is false. The temporary
  leaves scope holding the old members of \<open>*this\<close>.
\<close>

definition op_assign :: "ref \<Rightarrow> ref \<Rightarrow> 'a world \<Rightarrow> (unit, 'a world) outcome" where
  "op_assign this other w =
     (case objs w this of None \<Rightarrow> Undefined
      | Some b \<Rightarrow> (case objs w other of None \<Rightarrow> Undefined
      | Some ob \<Rightarrow>
          if op_ne b ob then
            (case circular_buffer_copy ob (store w) of
               Done tmp m1 \<Rightarrow>
                 (let (tmp', this') = swap_cb tmp b in
                  case destructor tmp' m1 of
                    Done _ m2 \<Rightarrow> Done () (w\<lparr>objs := (objs w)(this \<mapsto> this'), store := m2\<rparr>)
                  | Thrown e m2 \<Rightarrow> Undefined
                  | Undefined \<Rightarrow> Undefined)
             | Thrown e m1 \<Rightarrow> Thrown e (w\<lparr>store := m1\<rparr>)
             | Undefined \<Rightarrow> Undefined)
          else Done () w))"

definition swap_objs :: "ref \<Rightarrow> ref \<Rightarrow> 'a world \<Rightarrow> (unit, 'a world) outcome" where
  "swap_objs a b w =
     (case objs w a of None \<Rightarrow> Undefined
      | Some x \<Rightarrow> (case objs w b of None \<Rightarrow> Undefined
      | Some y \<Rightarrow> (let (x', y') = swap_cb x y in
                  Done () (w\<lparr>objs := (objs w)(a \<mapsto> x', b \<mapsto> y')\<rparr>))))"

fun exec :: "'a call \<Rightarrow> 'a world \<Rightarrow> (unit, 'a world) outcome option" where
  "exec (Construct r) w =
     Some (case objs w r of
             None \<Rightarrow> Done () (w\<lparr>objs := (objs w)(r \<mapsto> circular_buffer)\<rparr>)
           | Some _ \<Rightarrow> Undefined)"
| "exec (Copy_construct r other) w =
     Some (case objs w r of
             Some _ \<Rightarrow> Undefined
           | None \<Rightarrow> (case objs w other of None \<Rightarrow> Undefined
           | Some ob \<Rightarrow> (case circular_buffer_copy ob (store w) of
                          Done b m' \<Rightarrow> Done () (w\<lparr>objs := (objs w)(r \<mapsto> b), store := m'\<rparr>)
                        | Thrown e m' \<Rightarrow> Thrown e (w\<lparr>store := m'\<rparr>)
                        | Undefined \<Rightarrow> Undefined)))"
| "exec (Assign this other) w = Some (op_assign this other w)"
| "exec (Destroy r) w =
     Some (case objs w r of None \<Rightarrow> Undefined
           | Some b \<Rightarrow> (case destructor b (store w) of
                         Done _ m' \<Rightarrow> Done () (w\<lparr>objs := (objs w)(r := None), store := m'\<rparr>)
                       | Thrown e m' \<Rightarrow> Undefined
                       | Undefined \<Rightarrow> Undefined))"
| "exec (Swap a b) w = Some (swap_objs a b w)"
| "exec (Deque_op r x) w = member_call r (apply_op x) w"
| "exec (Reserve r n) w = member_call r (\<lambda>b m. Some (reserve b n m)) w"
| "exec (Insert r pos v) w = member_call r (\<lambda>b m. insert_cb r b pos v m) w"
| "exec (Erase r pos) w = member_call r (\<lambda>b m. erase_pos r b pos m) w"
| "exec (Erase_range r first last_it) w = member_call r (\<lambda>b m. erase r b first last_it m) w"
| "exec (Clear r) w = member_call r (\<lambda>b m. Some (clear b m)) w"
| "exec (Assign_at r i v) w = member_call r (\<lambda>b m. Some (assign_at b i v m)) w"

text \<open>
  The states a program can reach: it starts with no buffer and an empty free store,
  for any size of the elements and under any script of failures, and goes on by public
  calls, after a normal return as well as after an exception. A call that has no defined
  behaviour leads nowhere: nothing is known of the program after it.
\<close>

definition world0 :: "size_t \<Rightarrow> bool list \<Rightarrow> 'a world" where
  "world0 sz fs =
     \<lparr>objs = (\<lambda>r. None), store = \<lparr>heap = (\<lambda>a. None), brk = 0, faults = fs, sizeof_T = sz\<rparr>\<rparr>"

inductive reachable :: "'a world \<Rightarrow> bool" where
  start: "sz \<noteq> 0 \<Longrightarrow> reachable (world0 sz fs)"
| returns: "reachable w \<Longrightarrow> exec c w = Some (Done u w') \<Longrightarrow> reachable w'"
| throws: "reachable w \<Longrightarrow> exec c w = Some (Thrown e w') \<Longrightarrow> reachable w'"

text \<open>
  The objects a call may change: the object it is called on or constructs, both
  arguments of \<open>swap\<close>, never the source of a copy.
\<close>

fun touches :: "'a call \<Rightarrow> ref set" where
  "touches (Construct r) = {r}"
| "touches (Copy_construct r other) = {r}"
| "touches (Assign this other) = {this}"
| "touches (Destroy r) = {r}"
| "touches (Swap a b) = {a, b}"
| "touches (Deque_op r x) = {r}"
| "touches (Reserve r n) = {r}"
| "touches (Insert r pos v) = {r}"
| "touches (Erase r pos) = {r}"
| "touches (Erase_range r first last_it) = {r}"
| "touches (Clear r) = {r}"
| "touches (Assign_at r i v) = {r}"

text \<open>
  A program fragment: calls one after the other, going on after an exception (the
  caller caught it). \<open>None\<close> when a call has no defined behaviour or does not return.
\<close>

fun run_calls :: "'a call list \<Rightarrow> 'a world \<Rightarrow> 'a world option" where
  "run_calls [] w = Some w"
| "run_calls (c # cs) w =
     (case exec c w of
        Some (Done _ w') \<Rightarrow> run_calls cs w'
      | Some (Thrown e w') \<Rightarrow> run_calls cs w'
      | _ \<Rightarrow> None)"

text \<open>The loops are unfolded one iteration at a time, never by the simplifier alone.\<close>

declare uninitialized_copy.simps [simp del] clear.simps [simp del]
  pop_back_n.simps [simp del] pop_front_n.simps [simp del]

section \<open>Well-formed buffers\<close>

text \<open>
  In a ring of \<open>length blk\<close> slots with the first element at slot \<open>h\<close>, slot \<open>p\<close>
  has the logical index \<open>(p + length blk - h) mod length blk\<close>. \<open>live_ok\<close> says
  that exactly the slots of the first \<open>n\<close> logical indices hold a live element, and
  \<open>view\<close> reads them in logical order.
\<close>

definition live_ok :: "'a option list \<Rightarrow> nat \<Rightarrow> nat \<Rightarrow> bool" where
  "live_ok blk h n =
     (\<forall>p < length blk. (blk ! p \<noteq> None) = ((p + length blk - h) mod length blk < n))"

definition view :: "'a option list \<Rightarrow> nat \<Rightarrow> nat \<Rightarrow> 'a option list" where
  "view blk h n = map (\<lambda>k. blk ! ((h + k) mod length blk)) [0..<n]"

text \<open>
  The buffer counts its slots modulo \<open>capacity_\<close>, and its block may have fewer slots
  than that: the byte size \<open>sizeof(T) * capacity_\<close> may have wrapped around when the
  block was allocated. \<open>pad c blk\<close> is the ring of \<open>c\<close> slots the buffer counts in:
  the slots of the block, followed by slots that hold nothing because they do not exist.
\<close>

definition pad :: "nat \<Rightarrow> 'a option list \<Rightarrow> 'a option list" where
  "pad c blk = blk @ replicate (c - length blk) None"

text \<open>
  The invariant of one buffer in a free store: the count is within the capacity; without
  storage the buffer is empty with head \<open>0\<close>; with storage the head is below the
  capacity, the block it owns has at most \<open>capacity_\<close> slots and at most
  \<open>PTRDIFF_MAX\<close> bytes, and exactly the slots of the logical range hold a live element
  (so all of them lie in the block). The head is a slot of the block or the one just
  behind it, and \<open>capacity_\<close> plus the slots of the block is below \<open>2 ^ 64\<close>, as the
  allocation leaves it: the index arithmetic of the class does not wrap around.
\<close>

definition wf_buf :: "cb \<Rightarrow> 'a mem \<Rightarrow> bool" where
  "wf_buf b m =
     (unat (cb_size b) \<le> unat (cb_capacity b) \<and> sizeof_T m \<noteq> 0 \<and>
      (case cb_data b of
         None \<Rightarrow> cb_capacity b = 0 \<and> cb_head b = 0
       | Some a \<Rightarrow>
           cb_capacity b \<noteq> 0 \<and> unat (cb_head b) < unat (cb_capacity b) \<and> a < brk m \<and>
           (case heap m a of
              None \<Rightarrow> False
            | Some blk \<Rightarrow>
                length blk \<le> unat (cb_capacity b) \<and> unat (cb_head b) \<le> length blk \<and>
                unat (cb_capacity b) + length blk < 2 ^ 64 \<and>
                length blk * unat (sizeof_T m) \<le> alloc_limit \<and>
                live_ok (pad (unat (cb_capacity b)) blk) (unat (cb_head b)) (unat (cb_size b)))))"

text \<open>
  The block of a buffer has room for \<open>capacity_\<close> elements: the byte size did not wrap
  around when it was allocated. \<open>fits m k\<close>: a block for \<open>k\<close> elements is within what
  the allocator serves.
\<close>

definition exact :: "cb \<Rightarrow> 'a mem \<Rightarrow> bool" where
  "exact b m =
     (case cb_data b of None \<Rightarrow> True
      | Some a \<Rightarrow> (case heap m a of None \<Rightarrow> True
                  | Some blk \<Rightarrow> length blk = unat (cb_capacity b)))"

definition fits :: "'a mem \<Rightarrow> nat \<Rightarrow> bool" where
  "fits m k = (unat (sizeof_T m) * k \<le> alloc_limit)"

text \<open>
  What a push needs to have defined behaviour, beyond a well-formed buffer: a full buffer
  is given a new block of one slot or of twice the capacity, which must be within what
  the allocator serves; a buffer that is not full must have the slot it builds the
  element in.
\<close>

definition room_for_push :: "cb \<Rightarrow> 'a mem \<Rightarrow> bool" where
  "room_for_push b m =
     (if cb_size b = cb_capacity b
      then fits m (if cb_capacity b = 0 then 1 else 2 * unat (cb_capacity b))
      else exact b m)"

text \<open>
  What a call on a buffer with storage \<open>own\<close> may do to the free store: allocate, and
  change or release nothing but its own block.
\<close>

definition mem_frame :: "addr option \<Rightarrow> 'a mem \<Rightarrow> 'a mem \<Rightarrow> bool" where
  "mem_frame own m m' =
     (brk m \<le> brk m' \<and> sizeof_T m' = sizeof_T m \<and>
      (\<forall>a. a < brk m \<and> Some a \<noteq> own \<longrightarrow> heap m' a = heap m a))"

text \<open>The storage of a buffer after a call: the old block, none, or a fresh block.\<close>

definition data_frame :: "cb \<Rightarrow> 'a mem \<Rightarrow> cb \<Rightarrow> bool" where
  "data_frame b m b' =
     (cb_data b' = cb_data b \<or> cb_data b' = None \<or> (\<exists>a. cb_data b' = Some a \<and> brk m \<le> a))"

text \<open>All buffers are well formed and no two of them share a block.\<close>

definition wf_world :: "'a world \<Rightarrow> bool" where
  "wf_world w =
     (sizeof_T (store w) \<noteq> 0 \<and> (\<forall>r b. objs w r = Some b \<longrightarrow> wf_buf b (store w)) \<and>
      (\<forall>r r' b b' a. objs w r = Some b \<and> objs w r' = Some b' \<and> r \<noteq> r' \<and>
          cb_data b = Some a \<longrightarrow> cb_data b' \<noteq> Some a))"

text \<open>One call on a buffer: it stays well formed and respects both frames.\<close>

definition step_ok :: "cb \<Rightarrow> 'a mem \<Rightarrow> cb \<Rightarrow> 'a mem \<Rightarrow> bool" where
  "step_ok b m b' m' = (wf_buf b' m' \<and> mem_frame (cb_data b) m m' \<and> data_frame b m b')"

text \<open>
  A step inside a call that leaves the members alone: the buffer stays well formed,
  nothing is allocated, and no block but its own changes. \<open>loop_ok\<close> asks it of the
  state a loop ends in, however it ends.
\<close>

definition keeps :: "cb \<Rightarrow> 'a mem \<Rightarrow> 'a mem \<Rightarrow> bool" where
  "keeps b m m' =
     (wf_buf b m' \<and> brk m' = brk m \<and> sizeof_T m' = sizeof_T m \<and>
      (\<forall>x. Some x \<noteq> cb_data b \<longrightarrow> heap m' x = heap m x))"

definition loop_ok :: "cb \<Rightarrow> 'a mem \<Rightarrow> (unit, 'a mem) outcome \<Rightarrow> bool" where
  "loop_ok b m r =
     (case r of Done _ m' \<Rightarrow> keeps b m m' | Thrown e m' \<Rightarrow> keeps b m m' | Undefined \<Rightarrow> True)"

text \<open>The same of a call that may change the members: the state it ends in is a step.\<close>

definition call_ok :: "cb \<Rightarrow> 'a mem \<Rightarrow> ('r, cb \<times> 'a mem) outcome \<Rightarrow> bool" where
  "call_ok b m r =
     (case r of Done _ (b', m') \<Rightarrow> step_ok b m b' m' | Thrown e (b', m') \<Rightarrow> step_ok b m b' m'
      | Undefined \<Rightarrow> True)"

text \<open>
  What one call may do to a program state: all buffers stay well formed and apart, and
  an object the call does not touch keeps its members and the contents of its block.
\<close>

definition world_step :: "'a call \<Rightarrow> 'a world \<Rightarrow> 'a world \<Rightarrow> bool" where
  "world_step c w w' =
     (wf_world w' \<and> (\<forall>r. r \<notin> touches c \<longrightarrow> objs w' r = objs w r) \<and>
      (\<forall>r b a. r \<notin> touches c \<and> objs w r = Some b \<and> cb_data b = Some a \<longrightarrow>
         heap (store w') a = heap (store w) a))"

definition outcome_ok :: "'a call \<Rightarrow> 'a world \<Rightarrow> (unit, 'a world) outcome \<Rightarrow> bool" where
  "outcome_ok c w r =
     (case r of Done _ w' \<Rightarrow> world_step c w w' | Thrown e w' \<Rightarrow> world_step c w w'
      | Undefined \<Rightarrow> True)"

text \<open>The number of elements the storage of a buffer has room for.\<close>

definition allocated :: "cb \<Rightarrow> 'a mem \<Rightarrow> nat" where
  "allocated b m =
     (case cb_data b of None \<Rightarrow> 0
      | Some a \<Rightarrow> (case heap m a of None \<Rightarrow> 0 | Some blk \<Rightarrow> length blk))"


section \<open>Observations and example states\<close>

text \<open>The state a call left behind when it threw, and when it returned.\<close>

definition thrown_state :: "('r, 's) outcome option \<Rightarrow> 's option" where
  "thrown_state r = (case r of Some (Thrown e s) \<Rightarrow> Some s | _ \<Rightarrow> None)"

definition done_state :: "('r, 's) outcome option \<Rightarrow> 's option" where
  "done_state r = (case r of Some (Done x s) \<Rightarrow> Some s | _ \<Rightarrow> None)"

text \<open>
  A buffer of capacity one holding the element \<open>7\<close>, as \<open>push_back(7)\<close> on a new
  buffer leaves it, and the free store around it under a script of failures.
\<close>

definition one_full :: cb where
  "one_full = \<lparr>cb_data = Some 0, cb_capacity = 1, cb_head = 0, cb_size = 1\<rparr>"

definition one_full_store :: "bool list \<Rightarrow> nat mem" where
  "one_full_store fs = \<lparr>heap = (\<lambda>a. None)(0 \<mapsto> [Some 7]), brk = 1, faults = fs, sizeof_T = 8\<rparr>"

text \<open>
  The program state after \<open>circular_buffer<nat> x; x.push_back(7);\<close> with no failure
  scripted: the one buffer, at \<open>0\<close>, is \<open>one_full\<close>.
\<close>

definition world1 :: "nat world" where
  "world1 = \<lparr>objs = (\<lambda>r. None)(0 \<mapsto> one_full), store = one_full_store []\<rparr>"



text \<open>The free store before anything is allocated, with no failure scripted.\<close>

definition empty_store :: "nat mem" where
  "empty_store = \<lparr>heap = (\<lambda>a. None), brk = 0, faults = [], sizeof_T = 8\<rparr>"

text \<open>The program state before any buffer exists, with no failure scripted.\<close>

definition no_buffers :: "nat world" where
  "no_buffers = world0 8 []"

text \<open>
  A buffer of \<open>2 ^ 31\<close> elements of one byte each that fills its block, and a free
  store holding that block with no failure scripted.
\<close>

definition big_buffer :: cb where
  "big_buffer = \<lparr>cb_data = Some 0, cb_capacity = 2 ^ 31, cb_head = 0, cb_size = 2 ^ 31\<rparr>"

definition big_store :: "nat mem" where
  "big_store =
     \<lparr>heap = (\<lambda>a. None)(0 \<mapsto> replicate (2 ^ 31) (Some 0)), brk = 1, faults = [],
      sizeof_T = 1\<rparr>"

section \<open>Slots and logical indices\<close>

lemma mod_2c: "(x::nat) < 2 * c \<Longrightarrow> x mod c = (if x < c then x else x - c)"
  by (simp add: mod_if le_mod_geq)

lemma mod_lt: "(h::nat) < c \<Longrightarrow> x mod c < c"
  by (cases "c = 0") simp_all

lemma hprev: "(h::nat) < c \<Longrightarrow> (h + c - 1) mod c = (if h = 0 then c - 1 else h - 1)"
  by (simp add: mod_2c)

lemma hnext: "(h::nat) < c \<Longrightarrow> (h + 1) mod c = (if h + 1 = c then 0 else h + 1)"
  by (simp add: mod_2c)

lemma lidx_if: "(h::nat) < c \<Longrightarrow> p < c \<Longrightarrow> (p + c - h) mod c = (if h \<le> p then p - h else p + c - h)"
  by (simp add: mod_2c)

lemma slot_if: "(h::nat) < c \<Longrightarrow> k \<le> c \<Longrightarrow> (h + k) mod c = (if h + k < c then h + k else h + k - c)"
  by (simp add: mod_2c)

lemma arith_push_front:
  assumes "(h::nat) < c" "n < c" "p < c"
  shows "((p + c - (h + c - 1) mod c) mod c < Suc n) = (p = (h + c - 1) mod c \<or> (p + c - h) mod c < n)"
proof -
  define h' where "h' = (h + c - 1) mod c"
  have h'c: "h' < c" unfolding h'_def by (rule mod_lt [OF assms(1)])
  have h'eq: "h' = (if h = 0 then c - 1 else h - 1)"
    unfolding h'_def by (rule hprev [OF assms(1)])
  have L: "(p + c - h') mod c = (if h' \<le> p then p - h' else p + c - h')"
    by (rule lidx_if [OF h'c assms(3)])
  have R: "(p + c - h) mod c = (if h \<le> p then p - h else p + c - h)"
    by (rule lidx_if [OF assms(1,3)])
  show ?thesis
    unfolding h'_def [symmetric] L R using h'eq assms by (auto split: if_splits)
qed

lemma arith_pop_front:
  assumes "(h::nat) < c" "n \<le> c" "0 < n" "p < c"
  shows "((p + c - (h + 1) mod c) mod c < n - 1) = (p \<noteq> h \<and> (p + c - h) mod c < n)"
proof -
  define h' where "h' = (h + 1) mod c"
  have h'c: "h' < c" unfolding h'_def by (rule mod_lt [OF assms(1)])
  have h'eq: "h' = (if h + 1 = c then 0 else h + 1)"
    unfolding h'_def by (rule hnext [OF assms(1)])
  have L: "(p + c - h') mod c = (if h' \<le> p then p - h' else p + c - h')"
    by (rule lidx_if [OF h'c assms(4)])
  have R: "(p + c - h) mod c = (if h \<le> p then p - h else p + c - h)"
    by (rule lidx_if [OF assms(1,4)])
  show ?thesis
    unfolding h'_def [symmetric] L R using h'eq assms by (auto split: if_splits)
qed

lemma slot_prev:
  assumes "(h::nat) < c"
  shows "((h + c - 1) mod c + Suc k) mod c = (h + k) mod c"
proof -
  have "((h + c - 1) mod c + Suc k) mod c = ((h + c - 1) + Suc k) mod c"
    by (rule mod_add_left_eq)
  also have "(h + c - 1) + Suc k = (h + k) + c" using assms by simp
  also have "((h + k) + c) mod c = (h + k) mod c" by simp
  finally show ?thesis .
qed

lemma slot_next: "((h + 1) mod c + k) mod c = (h + Suc k) mod (c::nat)"
proof -
  have "((h + 1) mod c + k) mod c = ((h + 1) + k) mod c"
    by (rule mod_add_left_eq)
  then show ?thesis by simp
qed

lemma slot_ne_prev:
  assumes "(h::nat) < c" "k < n" "n < c"
  shows "(h + k) mod c \<noteq> (h + c - 1) mod c"
proof -
  have "(h + k) mod c = (if h + k < c then h + k else h + k - c)"
    using assms by (intro slot_if) simp_all
  moreover have "(h + c - 1) mod c = (if h = 0 then c - 1 else h - 1)"
    by (rule hprev [OF assms(1)])
  ultimately show ?thesis using assms by (auto split: if_splits)
qed

lemma slot_ne_head:
  assumes "(h::nat) < c" "k < n - 1" "n \<le> c"
  shows "(h + Suc k) mod c \<noteq> h"
proof -
  have "(h + Suc k) mod c = (if h + Suc k < c then h + Suc k else h + Suc k - c)"
    using assms by (intro slot_if) simp_all
  then show ?thesis using assms by (auto split: if_splits)
qed


lemma slot_inj:
  assumes "(h::nat) < c" "k < c" "k' < c" "(h + k) mod c = (h + k') mod c"
  shows "k = k'"
proof -
  have "(h + k) mod c = (if h + k < c then h + k else h + k - c)"
    using assms by (intro slot_if) simp_all
  moreover have "(h + k') mod c = (if h + k' < c then h + k' else h + k' - c)"
    using assms by (intro slot_if) simp_all
  ultimately show ?thesis using assms by (auto split: if_splits)
qed

lemma lidx_slot:
  assumes "(h::nat) < c" "k < c"
  shows "((h + k) mod c + c - h) mod c = k"
proof -
  define s where "s = (h + k) mod c"
  have sc: "s < c" unfolding s_def by (rule mod_lt [OF assms(1)])
  have se: "s = (if h + k < c then h + k else h + k - c)"
    unfolding s_def using assms by (intro slot_if) simp_all
  have "(s + c - h) mod c = (if h \<le> s then s - h else s + c - h)"
    by (rule lidx_if [OF assms(1) sc])
  then show ?thesis unfolding s_def [symmetric] using se assms by (auto split: if_splits)
qed

lemma lidx_eq_iff:
  assumes "(h::nat) < c" "p < c" "k < c"
  shows "((p + c - h) mod c = k) = (p = (h + k) mod c)"
proof -
  have "(h + k) mod c = (if h + k < c then h + k else h + k - c)"
    using assms by (intro slot_if) simp_all
  moreover have "(p + c - h) mod c = (if h \<le> p then p - h else p + c - h)"
    by (rule lidx_if [OF assms(1,2)])
  ultimately show ?thesis using assms by (auto split: if_splits)
qed

lemma length_view [simp]: "length (view blk h n) = n"
  by (simp add: view_def)

lemma nth_view: "k < n \<Longrightarrow> view blk h n ! k = blk ! ((h + k) mod length blk)"
  by (simp add: view_def)

lemma live_okD:
  "live_ok blk h n \<Longrightarrow> p < length blk \<Longrightarrow>
    (blk ! p \<noteq> None) = ((p + length blk - h) mod length blk < n)"
  by (simp add: live_ok_def)

lemma live_ok_slot:
  assumes "live_ok blk h n" "h < length blk" "k < length blk"
  shows "(blk ! ((h + k) mod length blk) \<noteq> None) = (k < n)"
proof -
  have "(h + k) mod length blk < length blk" by (rule mod_lt [OF assms(2)])
  from live_okD [OF assms(1) this] show ?thesis
    unfolding lidx_slot [OF assms(2,3)] .
qed

lemma live_ok_updateI:
  assumes old: "live_ok blk h n" and s: "s < length blk"
    and ar: "\<And>p. p < length blk \<Longrightarrow>
      ((p + length blk - h') mod length blk < n') =
      (if p = s then x \<noteq> None else (p + length blk - h) mod length blk < n)"
  shows "live_ok (blk[s := x]) h' n'"
  unfolding live_ok_def
proof (intro allI impI)
  fix p assume "p < length (blk[s := x])"
  then have p: "p < length blk" by simp
  show "(blk[s := x] ! p \<noteq> None) =
      ((p + length (blk[s := x]) - h') mod length (blk[s := x]) < n')"
  proof (cases "p = s")
    case True
    then show ?thesis using ar [OF p] s by simp
  next
    case False
    then show ?thesis using ar [OF p] live_okD [OF old p] by simp
  qed
qed

lemma live_ok_push_back:
  assumes "live_ok blk h n" "h < length blk" "n < length blk"
  shows "live_ok (blk[(h + n) mod length blk := Some v]) h (Suc n)"
proof (rule live_ok_updateI [OF assms(1)])
  show "(h + n) mod length blk < length blk" by (rule mod_lt [OF assms(2)])
next
  fix p assume p: "p < length blk"
  have e: "((p + length blk - h) mod length blk = n) = (p = (h + n) mod length blk)"
    using lidx_eq_iff [OF assms(2) p assms(3)] .
  show "((p + length blk - h) mod length blk < Suc n) =
      (if p = (h + n) mod length blk then Some v \<noteq> None
       else (p + length blk - h) mod length blk < n)"
    using e by (auto simp: less_Suc_eq)
qed

lemma view_eqI:
  assumes "length xs = n" "\<And>k. k < n \<Longrightarrow> xs ! k = blk ! ((h + k) mod length blk)"
  shows "view blk h n = xs"
  by (rule nth_equalityI) (simp_all add: assms nth_view)

lemma view_push_back:
  assumes "h < length blk" "n < length blk"
  shows "view (blk[(h + n) mod length blk := x]) h (Suc n) = view blk h n @ [x]"
proof (rule view_eqI)
  show "length (view blk h n @ [x]) = Suc n" by simp
next
  fix k assume k: "k < Suc n"
  show "(view blk h n @ [x]) ! k =
      blk[(h + n) mod length blk := x] ! ((h + k) mod length (blk[(h + n) mod length blk := x]))"
  proof (cases "k = n")
    case True
    have "(h + n) mod length blk < length blk" by (rule mod_lt [OF assms(1)])
    then show ?thesis using True by (simp add: nth_append)
  next
    case False
    then have kn: "k < n" using k by simp
    then have "(h + k) mod length blk \<noteq> (h + n) mod length blk"
      using slot_inj [OF assms(1) _ assms(2), of k] assms(2) by auto
    then show ?thesis using kn by (simp add: nth_append nth_view)
  qed
qed

lemma live_ok_pop_back:
  assumes "live_ok blk h n" "h < length blk" "n \<le> length blk" "0 < n"
  shows "live_ok (blk[(h + (n - 1)) mod length blk := None]) h (n - 1)"
proof (rule live_ok_updateI [OF assms(1)])
  show "(h + (n - 1)) mod length blk < length blk" by (rule mod_lt [OF assms(2)])
next
  fix p assume p: "p < length blk"
  have n1: "n - 1 < length blk" using assms by simp
  have e: "((p + length blk - h) mod length blk = n - 1) = (p = (h + (n - 1)) mod length blk)"
    using lidx_eq_iff [OF assms(2) p n1] .
  show "((p + length blk - h) mod length blk < n - 1) =
      (if p = (h + (n - 1)) mod length blk then (None :: 'a option) \<noteq> None
       else (p + length blk - h) mod length blk < n)"
    using e assms(4) by auto
qed

lemma view_pop_back:
  assumes "h < length blk" "n \<le> length blk" "0 < n"
  shows "view (blk[(h + (n - 1)) mod length blk := x]) h (n - 1) = butlast (view blk h n)"
proof (rule view_eqI)
  show "length (butlast (view blk h n)) = n - 1" by simp
next
  fix k assume k: "k < n - 1"
  have n1: "n - 1 < length blk" using assms by simp
  have "k < length blk" using k n1 by simp
  then have "(h + k) mod length blk \<noteq> (h + (n - 1)) mod length blk"
    using slot_inj [OF assms(1) _ n1, of k] k by auto
  then show "butlast (view blk h n) ! k =
      blk[(h + (n - 1)) mod length blk := x] !
        ((h + k) mod length (blk[(h + (n - 1)) mod length blk := x]))"
    using k by (simp add: nth_butlast nth_view)
qed

lemma live_ok_push_front:
  assumes "live_ok blk h n" "h < length blk" "n < length blk"
  shows "live_ok (blk[(h + length blk - 1) mod length blk := Some v])
           ((h + length blk - 1) mod length blk) (Suc n)"
proof (rule live_ok_updateI [OF assms(1)])
  show "(h + length blk - 1) mod length blk < length blk" by (rule mod_lt [OF assms(2)])
next
  fix p assume p: "p < length blk"
  show "((p + length blk - (h + length blk - 1) mod length blk) mod length blk < Suc n) =
      (if p = (h + length blk - 1) mod length blk then Some v \<noteq> None
       else (p + length blk - h) mod length blk < n)"
    using arith_push_front [OF assms(2,3) p] by auto
qed

lemma view_push_front:
  assumes "h < length blk" "n < length blk"
  shows "view (blk[(h + length blk - 1) mod length blk := x])
            ((h + length blk - 1) mod length blk) (Suc n) = x # view blk h n"
proof (rule view_eqI)
  show "length (x # view blk h n) = Suc n" by simp
next
  let ?c = "length blk"
  let ?h' = "(h + ?c - 1) mod ?c"
  fix k assume k: "k < Suc n"
  have h': "?h' < ?c" by (rule mod_lt [OF assms(1)])
  show "(x # view blk h n) ! k = blk[?h' := x] ! ((?h' + k) mod length (blk[?h' := x]))"
  proof (cases k)
    case 0
    then show ?thesis using h' by simp
  next
    case (Suc j)
    then have j: "j < n" using k by simp
    have "(?h' + Suc j) mod ?c = (h + j) mod ?c"
      by (rule slot_prev [OF assms(1)])
    moreover have "(h + j) mod ?c \<noteq> ?h'"
      by (rule slot_ne_prev [OF assms(1) j assms(2)])
    ultimately show ?thesis using Suc j by (simp add: nth_view)
  qed
qed

lemma live_ok_pop_front:
  assumes "live_ok blk h n" "h < length blk" "n \<le> length blk" "0 < n"
  shows "live_ok (blk[h := None]) ((h + 1) mod length blk) (n - 1)"
proof (rule live_ok_updateI [OF assms(1) assms(2)])
  fix p assume p: "p < length blk"
  show "((p + length blk - (h + 1) mod length blk) mod length blk < n - 1) =
      (if p = h then (None :: 'a option) \<noteq> None else (p + length blk - h) mod length blk < n)"
    using arith_pop_front [OF assms(2,3,4) p] by auto
qed

lemma view_pop_front:
  assumes "h < length blk" "n \<le> length blk" "0 < n"
  shows "view (blk[h := x]) ((h + 1) mod length blk) (n - 1) = tl (view blk h n)"
proof (rule view_eqI)
  show "length (tl (view blk h n)) = n - 1" by simp
next
  let ?c = "length blk"
  fix k assume k: "k < n - 1"
  have "((h + 1) mod ?c + k) mod ?c = (h + Suc k) mod ?c"
    by (rule slot_next)
  moreover have "(h + Suc k) mod ?c \<noteq> h"
    by (rule slot_ne_head [OF assms(1) k assms(2)])
  ultimately show "tl (view blk h n) ! k =
      blk[h := x] ! (((h + 1) mod ?c + k) mod length (blk[h := x]))"
    using k by (simp add: nth_tl nth_view)
qed

lemma live_ok_update_live:
  assumes "live_ok blk h n" "s < length blk" "blk ! s \<noteq> None"
  shows "live_ok (blk[s := Some x]) h n"
proof (rule live_ok_updateI [OF assms(1,2)])
  fix p assume p: "p < length blk"
  show "((p + length blk - h) mod length blk < n) =
      (if p = s then Some x \<noteq> None else (p + length blk - h) mod length blk < n)"
    using live_okD [OF assms(1) p] assms(3) by auto
qed

lemma view_update:
  assumes "h < length blk" "i < length blk" "n \<le> length blk"
  shows "view (blk[(h + i) mod length blk := x]) h n = (view blk h n)[i := x]"
proof (rule view_eqI)
  show "length ((view blk h n)[i := x]) = n" by simp
next
  fix k assume k: "k < n"
  then have kc: "k < length blk" using assms by simp
  have e: "((h + k) mod length blk = (h + i) mod length blk) = (k = i)"
    using slot_inj [OF assms(1) kc assms(2)] by auto
  have "(h + i) mod length blk < length blk" by (rule mod_lt [OF assms(1)])
  then show "(view blk h n)[i := x] ! k =
      blk[(h + i) mod length blk := x] ! ((h + k) mod length (blk[(h + i) mod length blk := x]))"
    using k e by (cases "k = i") (simp_all add: nth_view)
qed

section \<open>Words as numbers\<close>

lemma alloc_limit_lt: "alloc_limit < 2 ^ 63"
  by (simp add: alloc_limit_def)

lemma unat_lt_64: "unat (x :: size_t) < 2 ^ 64"
  using unsigned_less [of x] by simp

lemma unat_add_small:
  fixes x y :: size_t
  assumes "unat x + unat y < 2 ^ 64"
  shows "unat (x + y) = unat x + unat y"
  using assms by (simp add: unat_add_lem [THEN iffD1])

lemma unat_mult_small:
  fixes x y :: size_t
  assumes "unat x * unat y < 2 ^ 64"
  shows "unat (x * y) = unat x * unat y"
  using assms by (simp add: unat_mult_lem [THEN iffD1])

lemma unat_slot:
  fixes h i c :: size_t
  assumes "unat h < unat c" "unat i \<le> unat c" "unat h + unat c < 2 ^ 64"
  shows "unat ((h + i) mod c) = (unat h + unat i) mod unat c"
proof -
  have "unat h + unat i < 2 ^ 64"
    using assms by simp
  then show ?thesis
    by (simp add: unat_mod unat_add_small)
qed

lemma unat_real_index:
  fixes h i c :: size_t
  assumes "unat h < unat c" "unat i \<le> unat c" "unat h + unat c < 2 ^ 64"
  shows "unat ((i + h + 0) mod c) = (unat h + unat i) mod unat c"
  using unat_slot [OF assms] by (simp add: add.commute)

lemma unat_of_nat_small:
  assumes "k \<le> alloc_limit"
  shows "unat (of_nat k :: size_t) = k"
proof -
  have "k < 2 ^ 64" using assms alloc_limit_lt by simp
  then show ?thesis by (simp add: unat_of_nat)
qed

lemma unat_of_nat_le:
  fixes c :: size_t
  assumes "k \<le> unat c"
  shows "unat (of_nat k :: size_t) = k"
proof -
  have "k < 2 ^ 64" using assms unat_lt_64 [of c] by simp
  then show ?thesis by (simp add: unat_of_nat)
qed

lemma unat_pred:
  fixes n :: size_t
  assumes "n \<noteq> 0"
  shows "unat (n - 1) = unat n - 1" "unat (n + (- 1)) = unat n - 1" "0 < unat n"
  using unat_minus_one [OF assms] assms by (simp_all add: unat_gt_0)

lemma unat_succ:
  fixes n :: size_t
  assumes "unat n \<le> alloc_limit"
  shows "unat (n + 1) = Suc (unat n)"
proof -
  have "unat n + unat (1 :: size_t) < 2 ^ 64" using assms alloc_limit_lt by simp
  then have "unat (n + 1) = unat n + unat (1 :: size_t)" by (rule unat_add_small)
  then show ?thesis by simp
qed

lemma unat_succ_lt:
  fixes n c :: size_t
  assumes "unat n < unat c"
  shows "unat (n + 1) = Suc (unat n)"
proof -
  have "unat n + unat (1 :: size_t) < 2 ^ 64" using assms unat_lt_64 [of c] by simp
  then have "unat (n + 1) = unat n + unat (1 :: size_t)" by (rule unat_add_small)
  then show ?thesis by simp
qed

lemma unat_head_prev:
  fixes h c :: size_t
  assumes "unat h < unat c" "unat h + unat c < 2 ^ 64"
  shows "unat ((h + c - 1) mod c) = (unat h + unat c - 1) mod unat c"
proof -
  have c0: "c \<noteq> 0" using assms by auto
  have hc: "unat (h + c) = unat h + unat c" by (rule unat_add_small [OF assms(2)])
  have "h + c \<noteq> 0" using hc assms by (metis add_is_0 unat_eq_0 not_less0)
  then have "unat (h + c - 1) = unat (h + c) - 1" by (rule unat_minus_one)
  then show ?thesis by (simp add: unat_mod hc)
qed

lemma unat_head_next:
  fixes h c :: size_t
  assumes "unat h < unat c"
  shows "unat ((h + 1) mod c) = (unat h + 1) mod unat c"
  using unat_succ_lt [OF assms] by (simp add: unat_mod)

lemma unat_double:
  fixes c :: size_t
  assumes "2 * unat c < 2 ^ 64"
  shows "unat (c * 2) = 2 * unat c"
proof -
  have "unat c * unat (2 :: size_t) < 2 ^ 64" using assms by simp
  then have "unat (c * 2) = unat c * unat (2 :: size_t)" by (rule unat_mult_small)
  then show ?thesis by simp
qed

text \<open>
  The slots of a block of \<open>sizeof(T) * c\<close> bytes, the product taken in \<open>size_t\<close>: never
  more than \<open>c\<close>, and exactly \<open>c\<close> when the product does not wrap around.
\<close>

lemma block_slots:
  fixes s c :: size_t
  assumes s0: "s \<noteq> 0" and lim: "unat (s * c) \<le> alloc_limit"
  shows "unat (s * c) div unat s \<le> unat c"
    and "unat c + unat (s * c) div unat s < 2 ^ 64"
    and "unat (s * c) div unat s * unat s \<le> alloc_limit"
proof -
  let ?S = "unat s" and ?C = "unat c" and ?B = "unat (s * c)"
  have S0: "0 < ?S" using s0 by (simp add: unat_gt_0)
  have B: "?B = (?S * ?C) mod 2 ^ 64" using unat_word_ariths(2) [of s c] by simp
  have "?B \<le> ?S * ?C" unfolding B by (rule mod_less_eq_dividend)
  then have "?B div ?S \<le> (?S * ?C) div ?S" by (rule div_le_mono)
  then show "?B div ?S \<le> ?C" using S0 by simp
  have SL: "?S * (?B div ?S) \<le> ?B" by simp
  have "?B div ?S * ?S \<le> ?B" by (rule div_times_less_eq_dividend)
  then show "?B div ?S * ?S \<le> alloc_limit" using lim by (rule le_trans)
  define q where "q = (?S * ?C) div 2 ^ 64"
  have dec: "?S * ?C = q * 2 ^ 64 + ?B" unfolding q_def B by simp
  have "?C < 2 ^ 64" by (rule unat_lt_64)
  then have "?S * ?C < ?S * 2 ^ 64" using S0 by simp
  then have "q * 2 ^ 64 < ?S * 2 ^ 64" using dec by simp
  then have qS: "Suc q \<le> ?S" by simp
  have B2: "?B + ?B < 2 ^ 64" using lim alloc_limit_lt by simp
  have "?S * (?C + ?B div ?S) = ?S * ?C + ?S * (?B div ?S)" by (simp add: distrib_left)
  also have "\<dots> \<le> q * 2 ^ 64 + ?B + ?B" using dec SL by simp
  also have "\<dots> < q * 2 ^ 64 + 2 ^ 64" using B2 by simp
  also have "\<dots> = Suc q * 2 ^ 64" by simp
  also have "\<dots> \<le> ?S * 2 ^ 64" using qS by (rule mult_le_mono1)
  finally have "?S * (?C + ?B div ?S) < ?S * 2 ^ 64" .
  then show "?C + ?B div ?S < 2 ^ 64" by simp
qed

lemma block_slots_exact:
  fixes s c :: size_t
  assumes s0: "s \<noteq> 0" and small: "unat s * unat c < 2 ^ 64"
  shows "unat (s * c) = unat s * unat c" and "unat (s * c) div unat s = unat c"
proof -
  show e: "unat (s * c) = unat s * unat c" by (rule unat_mult_small [OF small])
  have "0 < unat s" using s0 by (simp add: unat_gt_0)
  then show "unat (s * c) div unat s = unat c" unfolding e by simp
qed

section \<open>The free store\<close>

lemma fault_heap:
  assumes "fault m = (f, m1)"
  shows "heap m1 = heap m" "brk m1 = brk m" "faults m = [] \<Longrightarrow> \<not> f \<and> m1 = m"
    "faults m1 = tl (faults m)" "sizeof_T m1 = sizeof_T m"
  using assms by (auto simp: fault_def split: list.splits)

lemma cell_heap:
  "heap m a = Some blk \<Longrightarrow> cell (Some a) i m = (if i < length blk then Some (blk ! i) else None)"
  by (simp add: cell_def)

lemma obj_at_heap:
  "heap m a = Some blk \<Longrightarrow>
    obj_at (Some a) i m = (if i < length blk then blk ! i else None)"
  by (auto simp: obj_at_def cell_def split: option.splits)

lemma obj_at_None [simp]: "obj_at None i m = None"
  by (simp add: obj_at_def cell_def)

lemma set_cell_heap:
  "heap m a = Some blk \<Longrightarrow> set_cell (Some a) i x m = m\<lparr>heap := (heap m)(a \<mapsto> blk[i := x])\<rparr>"
  by (simp add: set_cell_def)

lemma construct_from_Local [simp]: "construct_from p i (Local v) m = construct_at p i v m"
  by (simp add: construct_from_def read_ref_def)

lemma construct_from_cases:
  "construct_from p i val m = Undefined \<or> (\<exists>v. construct_from p i val m = construct_at p i v m)"
  by (cases "read_ref val m") (auto simp: construct_from_def)

lemma length_pad: "length blk \<le> c \<Longrightarrow> length (pad c blk) = c"
  by (simp add: pad_def)

lemma nth_pad: "i < length blk \<Longrightarrow> pad c blk ! i = blk ! i"
  by (simp add: pad_def nth_append)

lemma nth_pad_None: "length blk \<le> i \<Longrightarrow> i < c \<Longrightarrow> pad c blk ! i = None"
  by (simp add: pad_def nth_append)

lemma pad_live: "i < c \<Longrightarrow> pad c blk ! i \<noteq> None \<Longrightarrow> i < length blk"
  using nth_pad_None [of blk i c] by (cases "i < length blk") simp_all

lemma pad_update: "i < length blk \<Longrightarrow> pad c (blk[i := x]) = (pad c blk)[i := x]"
  by (simp add: pad_def list_update_append1)

lemma pad_exact: "length blk = c \<Longrightarrow> pad c blk = blk"
  by (simp add: pad_def)

lemma obj_at_pad:
  assumes "heap m a = Some blk" "i < c"
  shows "obj_at (Some a) i m = pad c blk ! i"
proof (cases "i < length blk")
  case True
  then show ?thesis using assms by (simp add: obj_at_heap nth_pad)
next
  case False
  then show ?thesis using assms by (simp add: obj_at_heap nth_pad_None)
qed

section \<open>Facts about well-formed buffers\<close>

lemma wf_buf_heap:
  assumes "wf_buf b m" "cb_data b = Some a"
  obtains blk where "heap m a = Some blk"
  using assms by (auto simp: wf_buf_def split: option.splits)

text \<open>The facts of the invariant, about the ring \<open>pad (unat (cb_capacity b)) blk\<close>.\<close>

lemma wf_buf_blk:
  assumes "wf_buf b m" "cb_data b = Some a" "heap m a = Some blk"
  shows "length (pad (unat (cb_capacity b)) blk) = unat (cb_capacity b)"
    and "unat (cb_head b) < unat (cb_capacity b)"
    and "unat (cb_size b) \<le> unat (cb_capacity b)"
    and "unat (cb_head b) + unat (cb_capacity b) < 2 ^ 64"
    and "a < brk m"
    and "cb_capacity b \<noteq> 0"
    and "live_ok (pad (unat (cb_capacity b)) blk) (unat (cb_head b)) (unat (cb_size b))"
    and "length blk \<le> unat (cb_capacity b)"
    and "unat (cb_head b) \<le> length blk"
    and "unat (cb_capacity b) + length blk < 2 ^ 64"
    and "length blk * unat (sizeof_T m) \<le> alloc_limit"
    and "sizeof_T m \<noteq> 0"
  using assms by (auto simp: wf_buf_def length_pad split: option.splits)

lemma wf_buf_bounds:
  assumes "wf_buf b m"
  shows "unat (cb_size b) \<le> unat (cb_capacity b)" "sizeof_T m \<noteq> 0"
  using assms by (auto simp: wf_buf_def)

lemma wf_buf_NoneD:
  assumes "wf_buf b m" "cb_data b = None"
  shows "cb_capacity b = 0" "cb_head b = 0" "cb_size b = 0"
  using assms by (auto simp: wf_buf_def unat_eq_0)

lemma wf_buf_cap0:
  assumes "wf_buf b m" "cb_capacity b = 0"
  shows "cb_data b = None" "cb_size b = 0" "cb_head b = 0"
  using assms by (auto simp: wf_buf_def unat_eq_0 split: option.splits)

lemma wf_buf_data:
  assumes "wf_buf b m" "cb_capacity b \<noteq> 0"
  obtains a where "cb_data b = Some a"
  using assms by (cases "cb_data b") (auto simp: wf_buf_def)

lemma wf_bufI:
  assumes "cb_data b = Some a" "heap m a = Some blk" "length blk \<le> unat (cb_capacity b)"
    "unat (cb_head b) < unat (cb_capacity b)" "unat (cb_size b) \<le> unat (cb_capacity b)"
    "unat (cb_head b) \<le> length blk" "unat (cb_capacity b) + length blk < 2 ^ 64"
    "length blk * unat (sizeof_T m) \<le> alloc_limit" "sizeof_T m \<noteq> 0" "a < brk m"
    "live_ok (pad (unat (cb_capacity b)) blk) (unat (cb_head b)) (unat (cb_size b))"
  shows "wf_buf b m"
proof -
  have "cb_capacity b \<noteq> 0" using assms(4) by auto
  then show ?thesis using assms by (simp add: wf_buf_def)
qed

text \<open>A step that changes slots of the block, the head or the size.\<close>

lemma wf_buf_update:
  assumes wf: "wf_buf b m" and d: "cb_data b = Some a" and h: "heap m a = Some blk"
    and d': "cb_data b' = Some a" and c': "cb_capacity b' = cb_capacity b"
    and h': "heap m' a = Some blk'" and l': "length blk' = length blk"
    and bk: "brk m' = brk m" and sz: "sizeof_T m' = sizeof_T m"
    and hd: "unat (cb_head b') < unat (cb_capacity b)" "unat (cb_head b') \<le> length blk"
    and n': "unat (cb_size b') \<le> unat (cb_capacity b)"
    and lo: "live_ok (pad (unat (cb_capacity b)) blk') (unat (cb_head b')) (unat (cb_size b'))"
  shows "wf_buf b' m'"
proof -
  note blk = wf_buf_blk [OF wf d h]
  show ?thesis
    by (rule wf_bufI [where a = a and blk = blk'])
      (use d' c' h' l' bk sz hd n' lo blk in simp_all)
qed

lemma wf_buf_frame:
  assumes "wf_buf b m" "\<And>a. cb_data b = Some a \<Longrightarrow> heap m' a = heap m a" "brk m \<le> brk m'"
    "sizeof_T m' = sizeof_T m"
  shows "wf_buf b m'"
  using assms by (auto simp: wf_buf_def split: option.splits)

lemma contents_frame:
  assumes "\<And>a. cb_data b = Some a \<Longrightarrow> heap m' a = heap m a"
  shows "contents b m' = contents b m"
proof -
  have "\<And>i. obj_at (cb_data b) i m' = obj_at (cb_data b) i m"
    using assms by (cases "cb_data b") (simp_all add: obj_at_def cell_def)
  then have "\<And>i. at_index b i m' = at_index b i m"
    by (simp add: at_index_def split: option.splits)
  then show ?thesis
    by (simp add: contents_def)
qed

lemma at_index_wf:
  assumes wf: "wf_buf b m" and d: "cb_data b = Some a" and h: "heap m a = Some blk"
    and k: "k < unat (cb_size b)"
  shows "at_index b (of_nat k) m =
    pad (unat (cb_capacity b)) blk ! ((unat (cb_head b) + k) mod unat (cb_capacity b))"
proof -
  note blk = wf_buf_blk [OF wf d h]
  have kc: "k \<le> unat (cb_capacity b)" using k blk(3) by simp
  then have uk: "unat (of_nat k :: size_t) = k" by (rule unat_of_nat_le)
  have s: "unat ((cb_head b + of_nat k) mod cb_capacity b) =
      (unat (cb_head b) + k) mod unat (cb_capacity b)"
    using unat_slot [of "cb_head b" "cb_capacity b" "of_nat k"] blk kc uk by simp
  have lt: "(unat (cb_head b) + k) mod unat (cb_capacity b) < unat (cb_capacity b)"
    by (rule mod_lt [OF blk(2)])
  show ?thesis
    using blk(6) d s obj_at_pad [OF h lt] by (simp add: at_index_def index_slot_def)
qed

lemma contents_wf:
  assumes wf: "wf_buf b m" and d: "cb_data b = Some a" and h: "heap m a = Some blk"
  shows "contents b m =
    view (pad (unat (cb_capacity b)) blk) (unat (cb_head b)) (unat (cb_size b))"
  unfolding contents_def view_def
  using at_index_wf [OF wf d h] wf_buf_blk(1) [OF wf d h] by simp

lemma contents_None:
  assumes "wf_buf b m" "cb_data b = None"
  shows "contents b m = []"
  using wf_buf_NoneD(3) [OF assms] by (simp add: contents_def)

lemma length_contents [simp]: "length (contents b m) = unat (cb_size b)"
  by (simp add: contents_def)

text \<open>Every logical index below the size has its slot in the block, with a live element.\<close>

lemma wf_buf_slot:
  assumes wf: "wf_buf b m" and d: "cb_data b = Some a" and h: "heap m a = Some blk"
    and k: "k < unat (cb_size b)"
  shows "(unat (cb_head b) + k) mod unat (cb_capacity b) < length blk"
    and "blk ! ((unat (cb_head b) + k) mod unat (cb_capacity b)) \<noteq> None"
    and "pad (unat (cb_capacity b)) blk ! ((unat (cb_head b) + k) mod unat (cb_capacity b)) =
      blk ! ((unat (cb_head b) + k) mod unat (cb_capacity b))"
proof -
  note blk = wf_buf_blk [OF wf d h]
  let ?c = "unat (cb_capacity b)"
  let ?s = "(unat (cb_head b) + k) mod ?c"
  have hl: "unat (cb_head b) < length (pad ?c blk)" using blk(1,2) by simp
  have kl: "k < length (pad ?c blk)" using k blk(1,3) by simp
  have sc: "?s < ?c" by (rule mod_lt [OF blk(2)])
  have live: "pad ?c blk ! ?s \<noteq> None"
    using live_ok_slot [OF blk(7) hl kl] k blk(1) by simp
  show in_blk: "?s < length blk" by (rule pad_live [OF sc live])
  show "pad ?c blk ! ?s = blk ! ?s" by (rule nth_pad [OF in_blk])
  then show "blk ! ?s \<noteq> None" using live by simp
qed

lemma contents_live:
  assumes wf: "wf_buf b m"
  shows "\<exists>xs. contents b m = map Some xs"
proof (cases "cb_data b")
  case None
  then show ?thesis using contents_None [OF wf] by simp
next
  case (Some a)
  with wf obtain blk where h: "heap m a = Some blk" by (rule wf_buf_heap)
  note blk = wf_buf_blk [OF wf Some h]
  let ?B = "pad (unat (cb_capacity b)) blk"
  have "\<And>k. k < unat (cb_size b) \<Longrightarrow> view ?B (unat (cb_head b)) (unat (cb_size b)) ! k \<noteq> None"
    using wf_buf_slot(2,3) [OF wf Some h] blk(1) by (simp add: nth_view)
  then have "\<forall>x \<in> set (contents b m). x \<noteq> None"
    unfolding contents_wf [OF wf Some h] by (auto simp: in_set_conv_nth)
  then have "contents b m = map Some (map the (contents b m))"
    by (simp add: map_idI)
  then show ?thesis by blast
qed

text \<open>The elements are no more than the slots of the block.\<close>

lemma wf_buf_size_le:
  assumes wf: "wf_buf b m" and d: "cb_data b = Some a" and h: "heap m a = Some blk"
  shows "unat (cb_size b) \<le> length blk"
proof (cases "length blk = unat (cb_capacity b)")
  case True
  then show ?thesis using wf_buf_blk(3) [OF wf d h] by simp
next
  case False
  note blk = wf_buf_blk [OF wf d h]
  let ?c = "unat (cb_capacity b)" and ?h = "unat (cb_head b)" and ?n = "unat (cb_size b)"
  have lc: "length blk < ?c" using False blk(8) by simp
  have c0: "0 < ?c" using blk(2) by simp
  have p: "?c - 1 < length (pad ?c blk)" using blk(1) c0 by simp
  have "pad ?c blk ! (?c - 1) = None"
    by (rule nth_pad_None) (use lc c0 in simp_all)
  with live_okD [OF blk(7) p] have "\<not> (?c - 1 + ?c - ?h) mod ?c < ?n"
    using blk(1) by simp
  moreover have "(?c - 1 + ?c - ?h) mod ?c = ?c - 1 - ?h"
    using lidx_if [OF blk(2), of "?c - 1"] c0 blk(2) by simp
  ultimately have hn: "?h + ?n \<le> ?c - 1" using blk(2) by simp
  show ?thesis
  proof (cases "?n = 0")
    case True
    then show ?thesis by simp
  next
    case nz: False
    then have k: "?n - 1 < ?n" by simp
    have "(?h + (?n - 1)) mod ?c = ?h + (?n - 1)" using hn nz c0 by simp
    with wf_buf_slot(1) [OF wf d h k] show ?thesis by simp
  qed
qed

lemma exactD:
  assumes "exact b m" "cb_data b = Some a" "heap m a = Some blk"
  shows "length blk = unat (cb_capacity b)"
  using assms by (simp add: exact_def)

lemma exact_pad:
  assumes "exact b m" "cb_data b = Some a" "heap m a = Some blk"
  shows "pad (unat (cb_capacity b)) blk = blk"
  by (rule pad_exact [OF exactD [OF assms]])

lemma exact_full:
  assumes wf: "wf_buf b m" and full: "cb_size b = cb_capacity b"
  shows "exact b m"
proof (cases "cb_data b")
  case None
  then show ?thesis by (simp add: exact_def)
next
  case (Some a)
  with wf obtain blk where h: "heap m a = Some blk" by (rule wf_buf_heap)
  have "length blk = unat (cb_capacity b)"
    using wf_buf_size_le [OF wf Some h] wf_buf_blk(8) [OF wf Some h] full by simp
  then show ?thesis using Some h by (simp add: exact_def)
qed

lemma exact_fits:
  assumes wf: "wf_buf b m" and ex: "exact b m"
  shows "fits m (unat (cb_capacity b))"
proof (cases "cb_data b")
  case None
  then show ?thesis using wf_buf_NoneD(1) [OF wf] by (simp add: fits_def)
next
  case (Some a)
  with wf obtain blk where h: "heap m a = Some blk" by (rule wf_buf_heap)
  show ?thesis
    using wf_buf_blk(11) [OF wf Some h] exactD [OF ex Some h]
    by (simp add: fits_def mult.commute)
qed

lemma exact_same:
  assumes "exact b m" "cb_data b' = cb_data b" "cb_capacity b' = cb_capacity b"
    "\<And>a blk. cb_data b = Some a \<Longrightarrow> heap m a = Some blk \<Longrightarrow>
       \<exists>blk'. heap m' a = Some blk' \<and> length blk' = length blk"
    "\<And>a. cb_data b = Some a \<Longrightarrow> heap m a = None \<Longrightarrow> heap m' a = None"
  shows "exact b' m'"
  using assms unfolding exact_def
  by (cases "cb_data b") (auto split: option.splits, metis option.inject)

lemma fits_mono: "fits m k \<Longrightarrow> j \<le> k \<Longrightarrow> fits m j"
  unfolding fits_def by (meson le_trans mult_le_mono2)

section \<open>Removal at the ends\<close>

lemma lidx_head: "(h::nat) < c \<Longrightarrow> (h + c - h) mod c = 0"
  by simp

lemma pop_back_slot:
  assumes wf: "wf_buf b m" and d: "cb_data b = Some a" and h: "heap m a = Some blk"
    and n0: "cb_size b \<noteq> 0"
  shows "get_real_index b (cb_size b + (- 1)) 0 =
      Some ((unat (cb_head b) + (unat (cb_size b) - 1)) mod unat (cb_capacity b))"
    and "blk ! ((unat (cb_head b) + (unat (cb_size b) - 1)) mod unat (cb_capacity b)) \<noteq> None"
    and "(unat (cb_head b) + (unat (cb_size b) - 1)) mod unat (cb_capacity b) < length blk"
proof -
  note blk = wf_buf_blk [OF wf d h]
  have u: "unat (cb_size b + (- 1)) = unat (cb_size b) - 1" "0 < unat (cb_size b)"
    using unat_pred [OF n0] by simp_all
  have "unat (cb_size b + (- 1)) \<le> unat (cb_capacity b)" using u blk(3) by simp
  from unat_real_index [OF blk(2) this blk(4)] u blk(6)
  show "get_real_index b (cb_size b + (- 1)) 0 =
      Some ((unat (cb_head b) + (unat (cb_size b) - 1)) mod unat (cb_capacity b))"
    by (simp add: get_real_index_def)
  have k: "unat (cb_size b) - 1 < unat (cb_size b)" using u by simp
  show "blk ! ((unat (cb_head b) + (unat (cb_size b) - 1)) mod unat (cb_capacity b)) \<noteq> None"
    by (rule wf_buf_slot(2) [OF wf d h k])
  show "(unat (cb_head b) + (unat (cb_size b) - 1)) mod unat (cb_capacity b) < length blk"
    by (rule wf_buf_slot(1) [OF wf d h k])
qed

lemma pop_back_Done:
  assumes wf: "wf_buf b m" and r: "pop_back b m = Done u (b', m')"
  shows "wf_buf b' m'" and "contents b' m' = butlast (contents b m)"
    and "cb_size b \<noteq> 0" and "b' = b\<lparr>cb_size := cb_size b - 1\<rparr>"
    and "brk m' = brk m" and "faults m' = faults m"
    and "\<And>x. Some x \<noteq> cb_data b \<Longrightarrow> heap m' x = heap m x"
    and "sizeof_T m' = sizeof_T m" and "exact b m \<Longrightarrow> exact b' m'"
proof -
  from r obtain s where gri: "get_real_index b (cb_size b + (- 1)) 0 = Some s"
    and ds: "destroy_at (cb_data b) s m = Done () m'"
    and b': "b' = b\<lparr>cb_size := cb_size b - 1\<rparr>"
    by (auto simp: pop_back_def split: option.splits outcome.splits)
  show "b' = b\<lparr>cb_size := cb_size b - 1\<rparr>" by (rule b')
  from gri have c0: "cb_capacity b \<noteq> 0"
    by (auto simp: get_real_index_def split: if_splits)
  from wf c0 obtain a where d: "cb_data b = Some a" by (rule wf_buf_data)
  from wf d obtain blk where h: "heap m a = Some blk" by (rule wf_buf_heap)
  note blk = wf_buf_blk [OF wf d h]
  let ?c = "unat (cb_capacity b)"
  let ?B = "pad ?c blk"
  from ds d h have live: "s < length blk" "blk ! s \<noteq> None"
    and m': "m' = m\<lparr>heap := (heap m)(a \<mapsto> blk[s := None])\<rparr>"
    by (auto simp: destroy_at_def obj_at_heap set_cell_heap split: option.splits if_splits)
  have sB: "s < length ?B" "?B ! s \<noteq> None" using live blk(1,8) by (simp_all add: nth_pad)
  show n0: "cb_size b \<noteq> 0"
  proof
    assume "cb_size b = 0"
    then have "live_ok ?B (unat (cb_head b)) 0" using blk(7) by simp
    from live_okD [OF this sB(1)] sB(2) show False by simp
  qed
  from pop_back_slot(1) [OF wf d h n0] gri
  have s: "s = (unat (cb_head b) + (unat (cb_size b) - 1)) mod ?c" by simp
  note u = unat_pred [OF n0]
  have hl: "unat (cb_head b) < length ?B" and nl: "unat (cb_size b) \<le> length ?B"
    using blk(1,2,3) by simp_all
  have lo: "live_ok (?B[s := None]) (unat (cb_head b)) (unat (cb_size b) - 1)"
    using live_ok_pop_back [OF blk(7) hl nl u(3)] s blk(1) by simp
  have h': "heap m' a = Some (blk[s := None])" using m' by simp
  show wf': "wf_buf b' m'"
    by (rule wf_buf_update [OF wf d h _ _ h'])
      (use b' d m' blk u lo pad_update [OF live(1), of ?c None] in simp_all)
  have d': "cb_data b' = Some a" using d b' by simp
  have "contents b' m' = view (?B[s := None]) (unat (cb_head b)) (unat (cb_size b) - 1)"
    using contents_wf [OF wf' d' h'] b' u(1) pad_update [OF live(1), of ?c None] by simp
  also have "\<dots> = butlast (contents b m)"
    unfolding contents_wf [OF wf d h]
    using view_pop_back [OF hl nl u(3), of None] s blk(1) by simp
  finally show "contents b' m' = butlast (contents b m)" .
  show "brk m' = brk m" "faults m' = faults m" "sizeof_T m' = sizeof_T m" using m' by simp_all
  show "\<And>x. Some x \<noteq> cb_data b \<Longrightarrow> heap m' x = heap m x"
    using m' d by auto
  show "exact b m \<Longrightarrow> exact b' m'"
    using d h b' m' by (simp add: exact_def)
qed

lemma pop_back_ok:
  assumes wf: "wf_buf b m" and n0: "cb_size b \<noteq> 0"
  shows "\<exists>m'. pop_back b m = Done () (b\<lparr>cb_size := cb_size b - 1\<rparr>, m')"
proof -
  have c0: "cb_capacity b \<noteq> 0"
    using wf_buf_cap0(2) [OF wf] n0 by blast
  from wf c0 obtain a where d: "cb_data b = Some a" by (rule wf_buf_data)
  from wf d obtain blk where h: "heap m a = Some blk" by (rule wf_buf_heap)
  note sl = pop_back_slot [OF wf d h n0]
  show ?thesis
    using sl d h by (auto simp: pop_back_def destroy_at_def obj_at_heap)
qed

lemma pop_back_not_Thrown: "pop_back b m \<noteq> Thrown e s"
  by (auto simp: pop_back_def destroy_at_def split: option.splits outcome.splits)

lemma pop_front_Done:
  assumes wf: "wf_buf b m" and r: "pop_front b m = Done u (b', m')"
  shows "wf_buf b' m'" and "contents b' m' = tl (contents b m)"
    and "cb_size b \<noteq> 0"
    and "b' = b\<lparr>cb_size := cb_size b - 1, cb_head := (cb_head b + 1) mod cb_capacity b\<rparr>"
    and "brk m' = brk m" and "faults m' = faults m"
    and "\<And>x. Some x \<noteq> cb_data b \<Longrightarrow> heap m' x = heap m x"
    and "sizeof_T m' = sizeof_T m" and "exact b m \<Longrightarrow> exact b' m'"
proof -
  from r have ds: "destroy_at (cb_data b) (unat (cb_head b)) m = Done () m'"
    and c0: "cb_capacity b \<noteq> 0"
    and b': "b' = b\<lparr>cb_size := cb_size b - 1, cb_head := (cb_head b + 1) mod cb_capacity b\<rparr>"
    by (auto simp: pop_front_def split: outcome.splits if_splits)
  show "b' = b\<lparr>cb_size := cb_size b - 1, cb_head := (cb_head b + 1) mod cb_capacity b\<rparr>"
    by (rule b')
  from wf c0 obtain a where d: "cb_data b = Some a" by (rule wf_buf_data)
  from wf d obtain blk where h: "heap m a = Some blk" by (rule wf_buf_heap)
  note blk = wf_buf_blk [OF wf d h]
  let ?c = "unat (cb_capacity b)" and ?h = "unat (cb_head b)"
  let ?B = "pad ?c blk"
  have hl: "?h < length ?B" and nl: "unat (cb_size b) \<le> length ?B"
    using blk(1,2,3) by simp_all
  from ds d h have live: "?h < length blk" "blk ! ?h \<noteq> None"
    and m': "m' = m\<lparr>heap := (heap m)(a \<mapsto> blk[?h := None])\<rparr>"
    by (auto simp: destroy_at_def obj_at_heap set_cell_heap split: option.splits if_splits)
  have hB: "?B ! ?h \<noteq> None" using live by (simp add: nth_pad)
  show n0: "cb_size b \<noteq> 0"
  proof
    assume "cb_size b = 0"
    then have "live_ok ?B ?h 0" using blk(7) by simp
    from live_okD [OF this hl] hB show False by simp
  qed
  note u = unat_pred [OF n0]
  have hn: "unat ((cb_head b + 1) mod cb_capacity b) = (?h + 1) mod ?c"
    by (rule unat_head_next [OF blk(2)])
  have lo: "live_ok (?B[?h := None]) ((?h + 1) mod ?c) (unat (cb_size b) - 1)"
    using live_ok_pop_front [OF blk(7) hl nl u(3)] blk(1) by simp
  have hl': "(?h + 1) mod ?c < ?c" by (rule mod_lt [OF blk(2)])
  have hle: "(?h + 1) mod ?c \<le> length blk"
    using hnext [OF blk(2)] live(1) by (simp split: if_splits)
  have h': "heap m' a = Some (blk[?h := None])" using m' by simp
  show wf': "wf_buf b' m'"
    by (rule wf_buf_update [OF wf d h _ _ h'])
      (use b' d m' blk u lo hn hl' hle pad_update [OF live(1), of ?c None] in simp_all)
  have d': "cb_data b' = Some a" using d b' by simp
  have "contents b' m' = view (?B[?h := None]) ((?h + 1) mod ?c) (unat (cb_size b) - 1)"
    using contents_wf [OF wf' d' h'] b' u(1) hn pad_update [OF live(1), of ?c None] by simp
  also have "\<dots> = tl (contents b m)"
    unfolding contents_wf [OF wf d h]
    using view_pop_front [OF hl nl u(3), of None] blk(1) by simp
  finally show "contents b' m' = tl (contents b m)" .
  show "brk m' = brk m" "faults m' = faults m" "sizeof_T m' = sizeof_T m" using m' by simp_all
  show "\<And>x. Some x \<noteq> cb_data b \<Longrightarrow> heap m' x = heap m x"
    using m' d by auto
  show "exact b m \<Longrightarrow> exact b' m'"
    using d h b' m' by (simp add: exact_def)
qed

lemma pop_front_ok:
  assumes wf: "wf_buf b m" and n0: "cb_size b \<noteq> 0"
  shows "\<exists>m'. pop_front b m =
    Done () (b\<lparr>cb_size := cb_size b - 1, cb_head := (cb_head b + 1) mod cb_capacity b\<rparr>, m')"
proof -
  have c0: "cb_capacity b \<noteq> 0"
    using wf_buf_cap0(2) [OF wf] n0 by blast
  from wf c0 obtain a where d: "cb_data b = Some a" by (rule wf_buf_data)
  from wf d obtain blk where h: "heap m a = Some blk" by (rule wf_buf_heap)
  note blk = wf_buf_blk [OF wf d h]
  have k: "0 < unat (cb_size b)" using unat_pred(3) [OF n0] .
  have "(unat (cb_head b) + 0) mod unat (cb_capacity b) = unat (cb_head b)"
    using blk(2) by simp
  with wf_buf_slot(1,2) [OF wf d h k]
  have "unat (cb_head b) < length blk" "blk ! unat (cb_head b) \<noteq> None" by simp_all
  then show ?thesis
    using d h c0 by (auto simp: pop_front_def destroy_at_def obj_at_heap)
qed

lemma pop_front_not_Thrown: "pop_front b m \<noteq> Thrown e s"
  by (auto simp: pop_front_def destroy_at_def split: option.splits outcome.splits)

section \<open>Frames\<close>

lemma step_ok_trans:
  assumes "step_ok b m b1 m1" "step_ok b1 m1 b2 m2"
  shows "step_ok b m b2 m2"
proof -
  from assms have wf2: "wf_buf b2 m2"
    and f1: "brk m \<le> brk m1" "\<And>a. a < brk m \<Longrightarrow> Some a \<noteq> cb_data b \<Longrightarrow> heap m1 a = heap m a"
    and f2: "brk m1 \<le> brk m2" "\<And>a. a < brk m1 \<Longrightarrow> Some a \<noteq> cb_data b1 \<Longrightarrow> heap m2 a = heap m1 a"
    and d1: "cb_data b1 = cb_data b \<or> cb_data b1 = None \<or> (\<exists>a. cb_data b1 = Some a \<and> brk m \<le> a)"
    and d2: "cb_data b2 = cb_data b1 \<or> cb_data b2 = None \<or> (\<exists>a. cb_data b2 = Some a \<and> brk m1 \<le> a)"
    and sz: "sizeof_T m1 = sizeof_T m" "sizeof_T m2 = sizeof_T m1"
    by (auto simp: step_ok_def mem_frame_def data_frame_def)
  have "mem_frame (cb_data b) m m2"
    unfolding mem_frame_def
  proof (intro conjI allI impI)
    show "brk m \<le> brk m2" using f1(1) f2(1) by simp
  next
    show "sizeof_T m2 = sizeof_T m" using sz by simp
  next
    fix a assume a: "a < brk m \<and> Some a \<noteq> cb_data b"
    then have "Some a \<noteq> cb_data b1" using d1 by auto
    moreover have "a < brk m1" using a f1(1) by simp
    ultimately have "heap m2 a = heap m1 a" by (rule f2(2) [rotated])
    then show "heap m2 a = heap m a" using f1(2) a by simp
  qed
  moreover have "data_frame b m b2"
    unfolding data_frame_def using d1 d2 f1(1) by force
  ultimately show ?thesis using wf2 by (simp add: step_ok_def)
qed

lemma step_ok_same:
  assumes "wf_buf b' m'" "cb_data b' = cb_data b" "brk m' = brk m"
    "\<And>x. Some x \<noteq> cb_data b \<Longrightarrow> heap m' x = heap m x" "sizeof_T m' = sizeof_T m"
  shows "step_ok b m b' m'"
  using assms by (simp add: step_ok_def mem_frame_def data_frame_def)

lemma step_ok_refl: "wf_buf b m \<Longrightarrow> step_ok b m b m"
  by (rule step_ok_same) simp_all

lemma step_ok_wf: "step_ok b m b' m' \<Longrightarrow> wf_buf b' m'"
  by (simp add: step_ok_def)

lemma wf_buf_fault:
  assumes "fault m = (f, m1)"
  shows "wf_buf b m1 = wf_buf b m"
  using fault_heap(1,2,5) [OF assms] by (simp add: wf_buf_def cong: option.case_cong)

lemma step_ok_pop_back:
  assumes "wf_buf b m" "pop_back b m = Done u (b', m')"
  shows "step_ok b m b' m'"
  by (rule step_ok_same)
    (use pop_back_Done [OF assms] in simp_all)

lemma step_ok_pop_front:
  assumes "wf_buf b m" "pop_front b m = Done u (b', m')"
  shows "step_ok b m b' m'"
  by (rule step_ok_same)
    (use pop_front_Done [OF assms] in simp_all)

section \<open>Clearing and destroying\<close>

lemma clear_ok:
  assumes "wf_buf b m"
  shows "\<exists>m'. clear b m = Done () (b\<lparr>cb_size := 0\<rparr>, m') \<and> wf_buf (b\<lparr>cb_size := 0\<rparr>) m' \<and>
      brk m' = brk m \<and> faults m' = faults m \<and>
      (\<forall>x. Some x \<noteq> cb_data b \<longrightarrow> heap m' x = heap m x) \<and> sizeof_T m' = sizeof_T m"
  using assms
proof (induction "unat (cb_size b)" arbitrary: b m)
  case 0
  then have z: "cb_size b = 0" by (simp add: unat_eq_0)
  then have e: "b\<lparr>cb_size := 0\<rparr> = b" by (cases b) simp
  show ?case unfolding e using z 0 by (subst clear.simps) simp
next
  case (Suc k)
  then have n0: "cb_size b \<noteq> 0" by auto
  from pop_back_ok [OF Suc.prems n0] obtain m1
    where p: "pop_back b m = Done () (b\<lparr>cb_size := cb_size b - 1\<rparr>, m1)" by blast
  note d = pop_back_Done [OF Suc.prems p]
  have "k = unat (cb_size (b\<lparr>cb_size := cb_size b - 1\<rparr>))"
    using Suc.hyps(2) unat_pred(1) [OF n0] by simp
  from Suc.hyps(1) [OF this d(1)] obtain m' where
    c: "clear (b\<lparr>cb_size := cb_size b - 1\<rparr>) m1 = Done () (b\<lparr>cb_size := 0\<rparr>, m')"
      "wf_buf (b\<lparr>cb_size := 0\<rparr>) m'" "brk m' = brk m1" "faults m' = faults m1"
      "\<forall>x. Some x \<noteq> cb_data b \<longrightarrow> heap m' x = heap m1 x" "sizeof_T m' = sizeof_T m1"
    by auto
  have "clear b m = Done () (b\<lparr>cb_size := 0\<rparr>, m')"
    using n0 p c(1) by (subst clear.simps) simp
  then show ?case using c d by auto
qed

lemma clear_not_Thrown: "clear b m \<noteq> Thrown e s"
  by (induction b m rule: clear.induct)
    (subst clear.simps, auto split: outcome.splits)

lemma destructor_ok:
  assumes "wf_buf b m"
  shows "\<exists>m'. destructor b m = Done () m' \<and> brk m' = brk m \<and> faults m' = faults m \<and>
      (\<forall>x. Some x \<noteq> cb_data b \<longrightarrow> heap m' x = heap m x) \<and>
      (\<forall>a. cb_data b = Some a \<longrightarrow> heap m' a = None) \<and> sizeof_T m' = sizeof_T m"
proof -
  from clear_ok [OF assms] obtain m1 where
    c: "clear b m = Done () (b\<lparr>cb_size := 0\<rparr>, m1)" "brk m1 = brk m" "faults m1 = faults m"
      "\<forall>x. Some x \<noteq> cb_data b \<longrightarrow> heap m1 x = heap m x" "sizeof_T m1 = sizeof_T m"
    by auto
  show ?thesis
    using c by (cases "cb_data b") (auto simp: destructor_def operator_delete_def)
qed

lemma destructor_not_Thrown: "destructor b m \<noteq> Thrown e s"
  by (auto simp: destructor_def split: outcome.splits)

section \<open>Swapping and assigning elements\<close>

lemma live_ok_swap:
  assumes "live_ok blk h n" "s < length blk" "t < length blk" "blk ! s \<noteq> None" "blk ! t \<noteq> None"
  shows "live_ok (blk[s := Some y, t := Some x]) h n"
proof -
  have 1: "live_ok (blk[s := Some y]) h n"
    by (rule live_ok_update_live [OF assms(1,2,4)])
  have "blk[s := Some y] ! t \<noteq> None"
    using assms by (cases "s = t") simp_all
  then show ?thesis
    using live_ok_update_live [OF 1, of t x] assms(3) by simp
qed

lemma iter_swap_defined:
  assumes "iter_swap this b i j m \<noteq> Undefined"
  shows "\<exists>s t x y. it_slot this b i = Some s \<and> it_slot this b j = Some t \<and>
      obj_at (cb_data b) s m = Some x \<and> obj_at (cb_data b) t m = Some y"
proof (cases "it_slot this b i")
  case None
  then show ?thesis using assms by (simp add: iter_swap_def)
next
  case s: (Some s)
  show ?thesis
  proof (cases "it_slot this b j")
    case None
    then show ?thesis using assms s by (simp add: iter_swap_def)
  next
    case t: (Some t)
    show ?thesis
    proof (cases "obj_at (cb_data b) s m")
      case None
      then show ?thesis using assms s t by (simp add: iter_swap_def)
    next
      case x: (Some x)
      show ?thesis
      proof (cases "obj_at (cb_data b) t m")
        case None
        then show ?thesis using assms s t x by (simp add: iter_swap_def)
      next
        case y: (Some y)
        show ?thesis using s t x y by simp
      qed
    qed
  qed
qed

text \<open>
  The swap of two live elements of the block \<open>blk\<close>: it returns with the two values
  exchanged, or throws with the block as it was or with the first element overwritten.
\<close>

lemma iter_swap_run:
  assumes d: "cb_data b = Some a" and h: "heap m a = Some blk"
    and si: "it_slot this b i = Some s" and sj: "it_slot this b j = Some t"
    and x: "obj_at (cb_data b) s m = Some x" and y: "obj_at (cb_data b) t m = Some y"
  shows "(\<exists>m'. iter_swap this b i j m = Done () m' \<and>
            heap m' = (heap m)(a \<mapsto> blk[s := Some y, t := Some x]) \<and>
            brk m' = brk m \<and> sizeof_T m' = sizeof_T m \<and>
            (faults m = [] \<longrightarrow> faults m' = [])) \<or>
         (\<exists>m'. iter_swap this b i j m = Thrown element_error m' \<and>
            (heap m' = heap m \<or> heap m' = (heap m)(a \<mapsto> blk[s := Some y])) \<and>
            brk m' = brk m \<and> sizeof_T m' = sizeof_T m \<and> faults m \<noteq> [])"
proof -
  obtain f1 m1 where f1: "fault m = (f1, m1)" by force
  obtain f2 m2 where f2: "fault m1 = (f2, m2)" by force
  define n2 where "n2 = set_cell (cb_data b) s (Some y) m2"
  obtain f3 m3 where f3: "fault n2 = (f3, m3)" by force
  note h1 = fault_heap [OF f1] and h2 = fault_heap [OF f2] and h3 = fault_heap [OF f3]
  have hm2: "heap m2 a = Some blk" using h h1 h2 by simp
  have n2: "n2 = m2\<lparr>heap := (heap m2)(a \<mapsto> blk[s := Some y])\<rparr>"
    unfolding n2_def using d set_cell_heap [OF hm2] by simp
  have hm3: "heap m3 a = Some (blk[s := Some y])" using h3 n2 by simp
  define n3 where "n3 = set_cell (cb_data b) t (Some x) m3"
  have n3: "n3 = m3\<lparr>heap := (heap m3)(a \<mapsto> blk[s := Some y, t := Some x])\<rparr>"
    unfolding n3_def using d set_cell_heap [OF hm3] by simp
  have eq: "iter_swap this b i j m =
      (if f1 then Thrown element_error m1
       else if f2 then Thrown element_error m2
       else if f3 then Thrown element_error m3
       else Done () n3)"
    using si sj x y f1 f2 f3 by (simp add: iter_swap_def n2_def n3_def)
  have heap2: "heap m2 = heap m" and brk2: "brk m2 = brk m"
    and sz2: "sizeof_T m2 = sizeof_T m"
    using h1 h2 by simp_all
  have heap3: "heap m3 = (heap m)(a \<mapsto> blk[s := Some y])" and brk3: "brk m3 = brk m"
    and sz3: "sizeof_T m3 = sizeof_T m"
    using h3 n2 heap2 brk2 sz2 by simp_all
  have fl2: "faults m1 \<noteq> [] \<Longrightarrow> faults m \<noteq> []" using h1(4) by auto
  have fl3: "faults n2 \<noteq> [] \<Longrightarrow> faults m \<noteq> []"
    using h2(4) n2 fl2 by (cases "faults m1") auto
  consider (t1) f1 | (t2) "\<not> f1" f2 | (t3) "\<not> f1" "\<not> f2" f3
    | (ret) "\<not> f1" "\<not> f2" "\<not> f3"
    by blast
  then show ?thesis
  proof cases
    case t1
    then have "iter_swap this b i j m = Thrown element_error m1" using eq by simp
    moreover have "faults m \<noteq> []" using h1(3) t1 by auto
    ultimately show ?thesis using h1 by auto
  next
    case t2
    then have "iter_swap this b i j m = Thrown element_error m2" using eq by simp
    moreover have "faults m \<noteq> []" using h2(3) t2(2) fl2 by auto
    ultimately show ?thesis using heap2 brk2 sz2 by auto
  next
    case t3
    then have "iter_swap this b i j m = Thrown element_error m3" using eq by simp
    moreover have "faults m \<noteq> []" using h3(3) t3(3) fl3 by auto
    ultimately show ?thesis using heap3 brk3 sz3 by auto
  next
    case ret
    then have res: "iter_swap this b i j m = Done () n3" using eq by simp
    have "heap n3 = (heap m)(a \<mapsto> blk[s := Some y, t := Some x])"
      using n3 heap3 by simp
    moreover have "brk n3 = brk m" "sizeof_T n3 = sizeof_T m" using n3 brk3 sz3 by simp_all
    moreover have "faults m = [] \<longrightarrow> faults n3 = []"
    proof
      assume e: "faults m = []"
      then have "m1 = m" using h1(3) by simp
      then have "m2 = m" using h2(3) e by simp
      then have "faults n2 = []" using n2 e by simp
      then have "m3 = n2" using h3(3) by simp
      then show "faults n3 = []" using n3 \<open>faults n2 = []\<close> by simp
    qed
    ultimately show ?thesis using res by auto
  qed
qed

lemma iter_swap_slots:
  assumes wf: "wf_buf b m" and r: "iter_swap this b i j m \<noteq> Undefined"
  obtains a blk s t x y where "cb_data b = Some a" "heap m a = Some blk"
    "it_slot this b i = Some s" "it_slot this b j = Some t"
    "obj_at (cb_data b) s m = Some x" "obj_at (cb_data b) t m = Some y"
    "s < length blk" "t < length blk" "blk ! s = Some x" "blk ! t = Some y"
proof -
  from iter_swap_defined [OF r] obtain s t x y where
    sl: "it_slot this b i = Some s" "it_slot this b j = Some t"
    and ob: "obj_at (cb_data b) s m = Some x" "obj_at (cb_data b) t m = Some y"
    by blast
  from ob obtain a where d: "cb_data b = Some a" by (cases "cb_data b") auto
  from wf d obtain blk where h: "heap m a = Some blk" by (rule wf_buf_heap)
  have st: "s < length blk" "t < length blk" "blk ! s = Some x" "blk ! t = Some y"
    using ob d h by (auto simp: obj_at_heap split: if_splits)
  show ?thesis by (rule that [OF d h sl ob st])
qed

lemma iter_swap_Done:
  assumes wf: "wf_buf b m" and r: "iter_swap this b i j m = Done u m'"
  shows "wf_buf b m'" "brk m' = brk m" "\<And>x. Some x \<noteq> cb_data b \<Longrightarrow> heap m' x = heap m x"
    "faults m = [] \<Longrightarrow> faults m' = []" "sizeof_T m' = sizeof_T m"
proof -
  from r have "iter_swap this b i j m \<noteq> Undefined" by simp
  from wf this obtain a blk s t x y where d: "cb_data b = Some a" and h: "heap m a = Some blk"
    and sl: "it_slot this b i = Some s" "it_slot this b j = Some t"
    and ob: "obj_at (cb_data b) s m = Some x" "obj_at (cb_data b) t m = Some y"
    and st: "s < length blk" "t < length blk" "blk ! s = Some x" "blk ! t = Some y"
    by (rule iter_swap_slots)
  from iter_swap_run [OF d h sl ob] r
  have hm: "heap m' = (heap m)(a \<mapsto> blk[s := Some y, t := Some x])"
    and bk: "brk m' = brk m" and sz: "sizeof_T m' = sizeof_T m"
    and fl: "faults m = [] \<longrightarrow> faults m' = []"
    by auto
  note blk = wf_buf_blk [OF wf d h]
  let ?B = "pad (unat (cb_capacity b)) blk"
  have stB: "s < length ?B" "t < length ?B" "?B ! s \<noteq> None" "?B ! t \<noteq> None"
    using st blk(1,8) by (simp_all add: nth_pad)
  have pu: "pad (unat (cb_capacity b)) (blk[s := Some y, t := Some x]) =
      ?B[s := Some y, t := Some x]"
    using st(1,2) by (simp add: pad_update)
  have lo: "live_ok (pad (unat (cb_capacity b)) (blk[s := Some y, t := Some x]))
      (unat (cb_head b)) (unat (cb_size b))"
    unfolding pu by (rule live_ok_swap [OF blk(7) stB])
  have h': "heap m' a = Some (blk[s := Some y, t := Some x])" using hm by simp
  show "wf_buf b m'"
    by (rule wf_buf_update [OF wf d h d _ h'])
      (use bk sz blk lo in simp_all)
  show "sizeof_T m' = sizeof_T m" by (rule sz)
  show "brk m' = brk m" by (rule bk)
  show "\<And>x. Some x \<noteq> cb_data b \<Longrightarrow> heap m' x = heap m x"
    using hm d by auto
  show "faults m = [] \<Longrightarrow> faults m' = []" using fl by simp
qed

lemma iter_swap_Thrown:
  assumes wf: "wf_buf b m" and r: "iter_swap this b i j m = Thrown e m'"
  shows "wf_buf b m'" "brk m' = brk m" "\<And>x. Some x \<noteq> cb_data b \<Longrightarrow> heap m' x = heap m x"
    "faults m \<noteq> []" "sizeof_T m' = sizeof_T m"
proof -
  from r have "iter_swap this b i j m \<noteq> Undefined" by simp
  from wf this obtain a blk s t x y where d: "cb_data b = Some a" and h: "heap m a = Some blk"
    and sl: "it_slot this b i = Some s" "it_slot this b j = Some t"
    and ob: "obj_at (cb_data b) s m = Some x" "obj_at (cb_data b) t m = Some y"
    and st: "s < length blk" "t < length blk" "blk ! s = Some x" "blk ! t = Some y"
    by (rule iter_swap_slots)
  from iter_swap_run [OF d h sl ob] r
  have hm: "heap m' = heap m \<or> heap m' = (heap m)(a \<mapsto> blk[s := Some y])"
    and bk: "brk m' = brk m" and sz: "sizeof_T m' = sizeof_T m"
    and fl: "faults m \<noteq> []"
    by auto
  show "brk m' = brk m" by (rule bk)
  show "sizeof_T m' = sizeof_T m" by (rule sz)
  show "faults m \<noteq> []" by (rule fl)
  show fr: "\<And>x. Some x \<noteq> cb_data b \<Longrightarrow> heap m' x = heap m x"
    using hm d by auto
  from hm show "wf_buf b m'"
  proof
    assume "heap m' = heap m"
    then show ?thesis by (intro wf_buf_frame [OF wf]) (use bk sz in simp_all)
  next
    assume hm': "heap m' = (heap m)(a \<mapsto> blk[s := Some y])"
    note blk = wf_buf_blk [OF wf d h]
    let ?B = "pad (unat (cb_capacity b)) blk"
    have stB: "s < length ?B" "?B ! s \<noteq> None"
      using st blk(1,8) by (simp_all add: nth_pad)
    have lo: "live_ok (pad (unat (cb_capacity b)) (blk[s := Some y]))
        (unat (cb_head b)) (unat (cb_size b))"
      unfolding pad_update [OF st(1)] by (rule live_ok_update_live [OF blk(7) stB])
    have h': "heap m' a = Some (blk[s := Some y])" using hm' by simp
    show ?thesis
      by (rule wf_buf_update [OF wf d h d _ h'])
        (use bk sz blk lo in simp_all)
  qed
qed

lemma assign_at_defined:
  assumes "assign_at b i v m \<noteq> Undefined"
  shows "\<exists>s x. index_slot b i = Some s \<and> obj_at (cb_data b) s m = Some x"
proof (cases "index_slot b i")
  case None
  then show ?thesis using assms by (simp add: assign_at_def)
next
  case s: (Some s)
  show ?thesis
  proof (cases "obj_at (cb_data b) s m")
    case None
    then show ?thesis using assms s by (simp add: assign_at_def)
  next
    case (Some x)
    then show ?thesis using s by simp
  qed
qed

lemma assign_at_eq:
  assumes "index_slot b i = Some s" "obj_at (cb_data b) s m = Some x" "fault m = (f, m1)"
  shows "assign_at b i v m =
    (if f then Thrown element_error (b, m1)
     else Done () (b, set_cell (cb_data b) s (Some v) m1))"
  using assms by (simp add: assign_at_def)

lemma assign_at_Done:
  assumes wf: "wf_buf b m" and r: "assign_at b i v m = Done u (b', m')"
  shows "wf_buf b' m'" "b' = b" "brk m' = brk m"
    "\<And>x. Some x \<noteq> cb_data b \<Longrightarrow> heap m' x = heap m x" "sizeof_T m' = sizeof_T m"
proof -
  from r have "assign_at b i v m \<noteq> Undefined" by simp
  from assign_at_defined [OF this] obtain s x where
    sl: "index_slot b i = Some s" and ob: "obj_at (cb_data b) s m = Some x"
    by blast
  obtain f m1 where fm: "fault m = (f, m1)" by force
  from r assign_at_eq [OF sl ob fm, of v]
  have m': "m' = set_cell (cb_data b) s (Some v) m1" and b': "b' = b"
    by (cases f; simp)+
  from ob obtain a where d: "cb_data b = Some a" by (cases "cb_data b") auto
  from wf d obtain blk where h: "heap m a = Some blk" by (rule wf_buf_heap)
  note blk = wf_buf_blk [OF wf d h]
  note fh = fault_heap [OF fm]
  have st: "s < length blk" "blk ! s \<noteq> None"
    using ob d h by (auto simp: obj_at_heap split: if_splits)
  have h1: "heap m1 a = Some blk" using h fh by simp
  have m'': "m' = m1\<lparr>heap := (heap m1)(a \<mapsto> blk[s := Some v])\<rparr>"
    using m' d h1 by (simp add: set_cell_heap)
  let ?B = "pad (unat (cb_capacity b)) blk"
  have stB: "s < length ?B" "?B ! s \<noteq> None"
    using st blk(1,8) by (simp_all add: nth_pad)
  have lo: "live_ok (pad (unat (cb_capacity b)) (blk[s := Some v]))
      (unat (cb_head b)) (unat (cb_size b))"
    unfolding pad_update [OF st(1)] by (rule live_ok_update_live [OF blk(7) stB])
  have h': "heap m' a = Some (blk[s := Some v])" using m'' by simp
  show "b' = b" by (rule b')
  show "wf_buf b' m'" unfolding b'
    by (rule wf_buf_update [OF wf d h d _ h'])
      (use m'' blk fh lo in simp_all)
  show "sizeof_T m' = sizeof_T m" using m'' fh by simp
  show "brk m' = brk m" using m'' fh by simp
  show "\<And>x. Some x \<noteq> cb_data b \<Longrightarrow> heap m' x = heap m x"
    using m'' fh d by auto
qed

lemma assign_at_Thrown:
  assumes r: "assign_at b i v m = Thrown e (b', m')"
  shows "b' = b" "heap m' = heap m" "brk m' = brk m" "sizeof_T m' = sizeof_T m"
proof -
  from r have "assign_at b i v m \<noteq> Undefined" by simp
  from assign_at_defined [OF this] obtain s x where
    sl: "index_slot b i = Some s" and ob: "obj_at (cb_data b) s m = Some x"
    by blast
  obtain f m1 where fm: "fault m = (f, m1)" by force
  from r assign_at_eq [OF sl ob fm, of v] have m': "m' = m1" "b' = b"
    by (cases f; simp)+
  note fh = fault_heap [OF fm]
  show "b' = b" "heap m' = heap m" "brk m' = brk m" "sizeof_T m' = sizeof_T m"
    using fh m' by auto
qed

section \<open>Copying into a new block\<close>

lemma set_cell_frame:
  "brk (set_cell p i x m) = brk m" "faults (set_cell p i x m) = faults m"
  "Some y \<noteq> p \<Longrightarrow> heap (set_cell p i x m) y = heap m y"
  "sizeof_T (set_cell p i x m) = sizeof_T m"
  by (auto simp: set_cell_def split: option.splits)

lemma destroy_range_frame:
  "brk (destroy_range p k m) = brk m" "faults (destroy_range p k m) = faults m"
  "Some y \<noteq> p \<Longrightarrow> heap (destroy_range p k m) y = heap m y"
  "sizeof_T (destroy_range p k m) = sizeof_T m"
  by (induction k) (simp_all add: destroy_range_def set_cell_frame)

lemma deref_wf:
  assumes wf: "wf_buf b m" and d: "cb_data b = Some a" and h: "heap m a = Some blk"
    and k: "unat i < unat (cb_size b)"
  shows "get_real_index b i 0 =
      Some ((unat (cb_head b) + unat i) mod unat (cb_capacity b))"
    and "obj_at (cb_data b) ((unat (cb_head b) + unat i) mod unat (cb_capacity b)) m =
      contents b m ! unat i"
    and "contents b m ! unat i \<noteq> None"
proof -
  note blk = wf_buf_blk [OF wf d h]
  have kc: "unat i \<le> unat (cb_capacity b)" using k blk(3) by simp
  from unat_real_index [OF blk(2) kc blk(4)] blk(6)
  show "get_real_index b i 0 =
      Some ((unat (cb_head b) + unat i) mod unat (cb_capacity b))"
    by (simp add: get_real_index_def)
  note sl = wf_buf_slot [OF wf d h k]
  have c: "contents b m ! unat i =
      blk ! ((unat (cb_head b) + unat i) mod unat (cb_capacity b))"
    unfolding contents_wf [OF wf d h] using k sl(3) blk(1) by (simp add: nth_view)
  show "obj_at (cb_data b) ((unat (cb_head b) + unat i) mod unat (cb_capacity b)) m =
      contents b m ! unat i"
    using c d h sl(1) by (simp add: obj_at_heap)
  show "contents b m ! unat i \<noteq> None" using c sl(2) by simp
qed

text \<open>One round of the copying loop, into the block \<open>dblk\<close> at \<open>a'\<close>.\<close>

lemma uninitialized_copy_step:
  assumes wf: "wf_buf other m" and dst: "heap m a' = Some dblk"
    and ne: "cb_data other \<noteq> Some a'"
    and k: "unat i = k" "k < unat (cb_size other)"
    and fm: "fault m = (f, m1)"
  obtains v where "contents other m ! k = Some v"
    "uninitialized_copy other i (cb_size other) (Some a') k m =
      (if length dblk \<le> k then Undefined
       else if f then Thrown element_error (destroy_range (Some a') k m1)
       else uninitialized_copy other (i + 1) (cb_size other) (Some a') (Suc k)
              (m1\<lparr>heap := (heap m1)(a' \<mapsto> dblk[k := Some v])\<rparr>))"
    "unat (i + 1) = Suc k"
    "wf_buf other (m1\<lparr>heap := (heap m1)(a' \<mapsto> dblk[k := Some v])\<rparr>)"
    "contents other (m1\<lparr>heap := (heap m1)(a' \<mapsto> dblk[k := Some v])\<rparr>) = contents other m"
proof -
  let ?n = "unat (cb_size other)"
  have ine: "i \<noteq> cb_size other" using k by auto
  have n0: "cb_size other \<noteq> 0" using k by auto
  have c0: "cb_capacity other \<noteq> 0"
    using wf_buf_cap0(2) [OF wf] n0 by blast
  from wf c0 obtain a where da: "cb_data other = Some a" by (rule wf_buf_data)
  from wf da obtain blk where hb: "heap m a = Some blk" by (rule wf_buf_heap)
  have ik: "unat i < ?n" using k by simp
  note dr = deref_wf [OF wf da hb ik]
  from dr(3) obtain v where v: "contents other m ! unat i = Some v" by auto
  note fh = fault_heap [OF fm]
  have h1: "heap m1 a' = Some dblk" using dst fh by simp
  let ?m2 = "m1\<lparr>heap := (heap m1)(a' \<mapsto> dblk[k := Some v])\<rparr>"
  have cst: "construct_at (Some a') k v m =
      (if length dblk \<le> k then Undefined
       else if f then Thrown element_error m1 else Done () ?m2)"
    using dst fm set_cell_heap [OF h1] by (simp add: construct_at_def cell_heap)
  have unf: "uninitialized_copy other i (cb_size other) (Some a') k m =
      (case construct_at (Some a') k v m of
         Done _ m' \<Rightarrow> uninitialized_copy other (i + 1) (cb_size other) (Some a') (Suc k) m'
       | Thrown e m' \<Rightarrow> Thrown e (destroy_range (Some a') k m')
       | Undefined \<Rightarrow> Undefined)"
    using ine dr(1,2) v by (subst uninitialized_copy.simps) simp
  have ne': "a \<noteq> a'" using ne da by simp
  have wf2: "wf_buf other ?m2"
    by (rule wf_buf_frame [OF wf]) (use fh da ne' in auto)
  have c2: "contents other ?m2 = contents other m"
    by (rule contents_frame) (use fh da ne' in auto)
  have i1: "unat (i + 1) = Suc k" using unat_succ_lt [OF ik] k by simp
  show ?thesis
    by (rule that [of v]) (use v k unf cst i1 wf2 c2 in simp_all)
qed

lemma uninitialized_copy_spec:
  assumes wf: "wf_buf other m" and dst: "heap m a' = Some dblk"
    and ne: "cb_data other \<noteq> Some a'"
    and len: "unat (cb_size other) \<le> length dblk"
    and k: "unat i = k" "k \<le> unat (cb_size other)"
  shows "(\<exists>m' dblk'. uninitialized_copy other i (cb_size other) (Some a') k m = Done () m' \<and>
            heap m' = (heap m)(a' \<mapsto> dblk') \<and> length dblk' = length dblk \<and>
            (\<forall>j < length dblk. dblk' ! j =
               (if k \<le> j \<and> j < unat (cb_size other) then contents other m ! j else dblk ! j)) \<and>
            brk m' = brk m \<and> sizeof_T m' = sizeof_T m \<and>
            (faults m = [] \<longrightarrow> faults m' = [])) \<or>
         (\<exists>e m'. uninitialized_copy other i (cb_size other) (Some a') k m = Thrown e m' \<and>
            brk m' = brk m \<and> sizeof_T m' = sizeof_T m \<and>
            (\<forall>x. x \<noteq> a' \<longrightarrow> heap m' x = heap m x) \<and> faults m \<noteq> [])"
  using assms
proof (induction "unat (cb_size other) - k" arbitrary: i k m dblk)
  case 0
  then have "unat i = unat (cb_size other)" by simp
  then have e: "i = cb_size other" by (simp add: word_unat_eq_iff)
  have "heap m = (heap m)(a' \<mapsto> dblk)" using "0.prems"(2) by auto
  then show ?case using e 0 by (subst uninitialized_copy.simps) auto
next
  case (Suc d)
  let ?n = "unat (cb_size other)"
  have kn: "k < ?n" using Suc.hyps(2) by simp
  have kl: "k < length dblk" using kn Suc.prems(4) by simp
  obtain f m1 where fm: "fault m = (f, m1)" by force
  note fh = fault_heap [OF fm]
  from uninitialized_copy_step [OF Suc.prems(1,2,3,5) kn fm]
  obtain v where v: "contents other m ! k = Some v"
    and unf: "uninitialized_copy other i (cb_size other) (Some a') k m =
      (if length dblk \<le> k then Undefined
       else if f then Thrown element_error (destroy_range (Some a') k m1)
       else uninitialized_copy other (i + 1) (cb_size other) (Some a') (Suc k)
              (m1\<lparr>heap := (heap m1)(a' \<mapsto> dblk[k := Some v])\<rparr>))"
    and i1: "unat (i + 1) = Suc k"
    and wf2: "wf_buf other (m1\<lparr>heap := (heap m1)(a' \<mapsto> dblk[k := Some v])\<rparr>)"
    and c2: "contents other (m1\<lparr>heap := (heap m1)(a' \<mapsto> dblk[k := Some v])\<rparr>) =
      contents other m"
    by blast
  define m2 where "m2 = m1\<lparr>heap := (heap m1)(a' \<mapsto> dblk[k := Some v])\<rparr>"
  note wf2 = wf2 [folded m2_def] and c2 = c2 [folded m2_def]
  have m2: "heap m2 = (heap m)(a' \<mapsto> dblk[k := Some v])" "brk m2 = brk m"
    "sizeof_T m2 = sizeof_T m" "faults m2 = faults m1"
    using fh by (simp_all add: m2_def)
  show ?case
  proof (cases f)
    case True
    then have "uninitialized_copy other i (cb_size other) (Some a') k m =
        Thrown element_error (destroy_range (Some a') k m1)"
      using unf kl by simp
    moreover have "faults m \<noteq> []" using fh(3) True by auto
    ultimately show ?thesis
      using fh by (auto simp: destroy_range_frame)
  next
    case False
    have unf2: "uninitialized_copy other i (cb_size other) (Some a') k m =
        uninitialized_copy other (i + 1) (cb_size other) (Some a') (Suc k) m2"
      using unf kl False by (simp add: m2_def)
    have dst2: "heap m2 a' = Some (dblk[k := Some v])" using m2 by simp
    have d: "d = ?n - Suc k" using Suc.hyps(2) by simp
    have len2: "?n \<le> length (dblk[k := Some v])" using Suc.prems(4) by simp
    have sk: "Suc k \<le> ?n" using kn by simp
    have fl0: "faults m = [] \<longrightarrow> faults m2 = []" using fh m2 by auto
    have fl1: "faults m2 \<noteq> [] \<longrightarrow> faults m \<noteq> []" using fh m2 by auto
    from Suc.hyps(1) [OF d wf2 dst2 Suc.prems(3) len2 i1 sk]
    show ?thesis
    proof (elim disjE exE conjE)
      fix m' dblk'
      assume r: "uninitialized_copy other (i + 1) (cb_size other) (Some a') (Suc k) m2 = Done () m'"
        and hm: "heap m' = (heap m2)(a' \<mapsto> dblk')"
        and l: "length dblk' = length (dblk[k := Some v])"
        and nth: "\<forall>j<length (dblk[k := Some v]). dblk' ! j =
            (if Suc k \<le> j \<and> j < ?n then contents other m2 ! j else dblk[k := Some v] ! j)"
        and bk: "brk m' = brk m2" and sz: "sizeof_T m' = sizeof_T m2"
        and fl: "faults m2 = [] \<longrightarrow> faults m' = []"
      have "heap m' = (heap m)(a' \<mapsto> dblk')" using hm m2 by simp
      moreover have "\<forall>j < length dblk. dblk' ! j =
          (if k \<le> j \<and> j < ?n then contents other m ! j else dblk ! j)"
      proof (intro allI impI)
        fix j assume j: "j < length dblk"
        show "dblk' ! j = (if k \<le> j \<and> j < ?n then contents other m ! j else dblk ! j)"
        proof (cases "j = k")
          case True
          then show ?thesis using nth j kn v c2 by simp
        next
          case False
          then show ?thesis using nth j c2 by auto
        qed
      qed
      moreover have "faults m = [] \<longrightarrow> faults m' = []"
        using fl fl0 by auto
      ultimately show ?thesis
        using unf2 r l bk sz m2 by auto
    next
      fix e m'
      assume r: "uninitialized_copy other (i + 1) (cb_size other) (Some a') (Suc k) m2 = Thrown e m'"
        and bk: "brk m' = brk m2" and sz: "sizeof_T m' = sizeof_T m2"
        and fr: "\<forall>x. x \<noteq> a' \<longrightarrow> heap m' x = heap m2 x"
        and fl: "faults m2 \<noteq> []"
      have "faults m \<noteq> []" using fl fl1 by auto
      then show ?thesis
        using unf2 r bk sz fr m2 by auto
    qed
  qed
qed

text \<open>Into a block with fewer slots than elements to copy, the loop runs out of the block.\<close>

lemma uninitialized_copy_short:
  assumes wf: "wf_buf other m" and dst: "heap m a' = Some dblk"
    and ne: "cb_data other \<noteq> Some a'"
    and short: "length dblk < unat (cb_size other)"
    and k: "unat i = k" "k \<le> length dblk"
  shows "uninitialized_copy other i (cb_size other) (Some a') k m = Undefined \<or>
         (\<exists>e m'. uninitialized_copy other i (cb_size other) (Some a') k m = Thrown e m' \<and>
            brk m' = brk m \<and> sizeof_T m' = sizeof_T m \<and>
            (\<forall>x. x \<noteq> a' \<longrightarrow> heap m' x = heap m x) \<and> faults m \<noteq> [])"
  using assms
proof (induction "length dblk - k" arbitrary: i k m dblk)
  case 0
  then have kl: "length dblk \<le> k" and kn: "k < unat (cb_size other)" by simp_all
  obtain f m1 where fm: "fault m = (f, m1)" by force
  from uninitialized_copy_step [OF "0.prems"(1,2,3,5) kn fm] kl
  show ?case by (metis (no_types, lifting))
next
  case (Suc d)
  let ?n = "unat (cb_size other)"
  have kl: "k < length dblk" using Suc.hyps(2) by simp
  then have kn: "k < ?n" using Suc.prems(4) by simp
  obtain f m1 where fm: "fault m = (f, m1)" by force
  note fh = fault_heap [OF fm]
  from uninitialized_copy_step [OF Suc.prems(1,2,3,5) kn fm]
  obtain v where unf: "uninitialized_copy other i (cb_size other) (Some a') k m =
      (if length dblk \<le> k then Undefined
       else if f then Thrown element_error (destroy_range (Some a') k m1)
       else uninitialized_copy other (i + 1) (cb_size other) (Some a') (Suc k)
              (m1\<lparr>heap := (heap m1)(a' \<mapsto> dblk[k := Some v])\<rparr>))"
    and i1: "unat (i + 1) = Suc k"
    and wf2: "wf_buf other (m1\<lparr>heap := (heap m1)(a' \<mapsto> dblk[k := Some v])\<rparr>)"
    by blast
  define m2 where "m2 = m1\<lparr>heap := (heap m1)(a' \<mapsto> dblk[k := Some v])\<rparr>"
  note wf2 = wf2 [folded m2_def]
  have m2: "heap m2 = (heap m)(a' \<mapsto> dblk[k := Some v])" "brk m2 = brk m"
    "sizeof_T m2 = sizeof_T m" "faults m2 = faults m1"
    using fh by (simp_all add: m2_def)
  show ?case
  proof (cases f)
    case True
    then have "uninitialized_copy other i (cb_size other) (Some a') k m =
        Thrown element_error (destroy_range (Some a') k m1)"
      using unf kl by simp
    moreover have "faults m \<noteq> []" using fh(3) True by auto
    ultimately show ?thesis
      using fh by (auto simp: destroy_range_frame)
  next
    case False
    have unf2: "uninitialized_copy other i (cb_size other) (Some a') k m =
        uninitialized_copy other (i + 1) (cb_size other) (Some a') (Suc k) m2"
      using unf kl False by (simp add: m2_def)
    have dst2: "heap m2 a' = Some (dblk[k := Some v])" using m2 by simp
    have d: "d = length (dblk[k := Some v]) - Suc k" using Suc.hyps(2) by simp
    have short2: "length (dblk[k := Some v]) < ?n" using Suc.prems(4) by simp
    have sk: "Suc k \<le> length (dblk[k := Some v])" using kl by simp
    have fl1: "faults m2 \<noteq> [] \<longrightarrow> faults m \<noteq> []" using fh m2 by auto
    from Suc.hyps(1) [OF d wf2 dst2 Suc.prems(3) short2 i1 sk]
    show ?thesis
    proof (elim disjE exE conjE)
      assume "uninitialized_copy other (i + 1) (cb_size other) (Some a') (Suc k) m2 = Undefined"
      then show ?thesis using unf2 by simp
    next
      fix e m'
      assume r: "uninitialized_copy other (i + 1) (cb_size other) (Some a') (Suc k) m2 = Thrown e m'"
        and bk: "brk m' = brk m2" and sz: "sizeof_T m' = sizeof_T m2"
        and fr: "\<forall>x. x \<noteq> a' \<longrightarrow> heap m' x = heap m2 x"
        and fl: "faults m2 \<noteq> []"
      have "faults m \<noteq> []" using fl fl1 by auto
      then show ?thesis
        using unf2 r bk sz fr m2 by auto
    qed
  qed
qed

lemma operator_new_eq:
  assumes "fault m = (f, m1)"
  shows "operator_new n m =
    (if f \<or> alloc_limit < unat n then Thrown bad_alloc m1
     else Done (brk m)
       (m1\<lparr>heap := (heap m)(brk m \<mapsto> replicate (unat n div unat (sizeof_T m)) None),
           brk := Suc (brk m)\<rparr>))"
  using assms fault_heap(1,2,5) [OF assms] by (simp add: operator_new_def)

lemma wf_buf_fresh:
  assumes "wf_buf b m"
  shows "cb_data b \<noteq> Some (brk m)"
  using assms by (auto simp: wf_buf_def split: option.splits)

lemma view_0_eq:
  assumes "n \<le> length blk" "\<And>j. j < n \<Longrightarrow> blk ! j = xs ! j" "length xs = n"
  shows "view blk 0 n = xs"
proof (rule view_eqI [OF assms(3)])
  fix k assume k: "k < n"
  then have "k < length blk" using assms(1) by simp
  then show "xs ! k = blk ! ((0 + k) mod length blk)" using assms(2) [OF k] by simp
qed

lemma live_ok_prefix:
  assumes "n \<le> length blk" "\<And>j. j < length blk \<Longrightarrow> (blk ! j \<noteq> None) = (j < n)"
  shows "live_ok blk 0 n"
  unfolding live_ok_def using assms(2) by simp

text \<open>A block for \<open>k\<close> elements that is within the allocator's limit has its \<open>k\<close> slots.\<close>

lemma fits_bytes:
  assumes "fits m (unat n)" "sizeof_T m \<noteq> 0"
  shows "unat (sizeof_T m * n) = unat (sizeof_T m) * unat n"
    and "unat (sizeof_T m * n) \<le> alloc_limit"
    and "unat (sizeof_T m * n) div unat (sizeof_T m) = unat n"
proof -
  have small: "unat (sizeof_T m) * unat n < 2 ^ 64"
    using assms(1) alloc_limit_lt by (simp add: fits_def)
  note e = block_slots_exact [OF assms(2) small]
  show "unat (sizeof_T m * n) = unat (sizeof_T m) * unat n" by (rule e(1))
  show "unat (sizeof_T m * n) \<le> alloc_limit" using e(1) assms(1) by (simp add: fits_def)
  show "unat (sizeof_T m * n) div unat (sizeof_T m) = unat n" by (rule e(2))
qed

lemma fits_le:
  assumes "fits m k" "sizeof_T m \<noteq> 0"
  shows "k \<le> alloc_limit"
proof -
  have "0 < unat (sizeof_T m)" using assms(2) by (simp add: unat_gt_0)
  then have "k \<le> unat (sizeof_T m) * k" by simp
  moreover have "unat (sizeof_T m) * k \<le> alloc_limit" using assms(1) by (simp add: fits_def)
  ultimately show ?thesis by (rule le_trans)
qed

text \<open>The elements of a buffer fit: a copy with capacity \<open>size()\<close> has all its slots.\<close>

lemma wf_buf_size_fits:
  assumes wf: "wf_buf b m"
  shows "fits m (unat (cb_size b))"
proof (cases "cb_data b")
  case None
  then show ?thesis using wf_buf_NoneD(3) [OF wf] by (simp add: fits_def)
next
  case (Some a)
  with wf obtain blk where h: "heap m a = Some blk" by (rule wf_buf_heap)
  have "unat (sizeof_T m) * unat (cb_size b) \<le> unat (sizeof_T m) * length blk"
    by (rule mult_le_mono2 [OF wf_buf_size_le [OF wf Some h]])
  also have "\<dots> = length blk * unat (sizeof_T m)" by (rule mult.commute)
  also have "\<dots> \<le> alloc_limit" by (rule wf_buf_blk(11) [OF wf Some h])
  finally show ?thesis by (simp add: fits_def)
qed

lemma wf_buf_limits:
  assumes wf: "wf_buf b m"
  shows "unat (cb_size b) \<le> unat (cb_capacity b)" "unat (cb_size b) \<le> alloc_limit"
proof -
  show "unat (cb_size b) \<le> unat (cb_capacity b)" by (rule wf_buf_bounds(1) [OF wf])
  show "unat (cb_size b) \<le> alloc_limit"
    by (rule fits_le [OF wf_buf_size_fits [OF wf] wf_buf_bounds(2) [OF wf]])
qed

lemma circular_buffer_cap_spec:
  assumes wf: "wf_buf other m" and le: "unat (cb_size other) \<le> unat n"
  shows "(\<exists>tmp m'. circular_buffer_cap other n m = Done tmp m' \<and>
            tmp = \<lparr>cb_data = (if n = 0 then None else Some (brk m)), cb_capacity = n,
                   cb_head = 0, cb_size = cb_size other\<rparr> \<and>
            wf_buf tmp m' \<and> contents tmp m' = contents other m \<and> brk m \<le> brk m' \<and>
            sizeof_T m' = sizeof_T m \<and>
            (\<forall>x. x \<noteq> brk m \<longrightarrow> heap m' x = heap m x) \<and>
            (faults m = [] \<longrightarrow> faults m' = []) \<and>
            (fits m (unat n) \<longrightarrow> exact tmp m')) \<or>
         (\<exists>e m'. circular_buffer_cap other n m = Thrown e m' \<and> brk m \<le> brk m' \<and>
            sizeof_T m' = sizeof_T m \<and>
            (\<forall>x. x \<noteq> brk m \<longrightarrow> heap m' x = heap m x) \<and>
            (faults m \<noteq> [] \<or> \<not> fits m (unat n))) \<or>
         (circular_buffer_cap other n m = Undefined \<and> \<not> fits m (unat n))"
proof (cases "n = 0")
  case True
  then have z: "cb_size other = 0" using le by (simp add: unat_eq_0)
  let ?tmp = "\<lparr>cb_data = None, cb_capacity = 0, cb_head = 0, cb_size = 0\<rparr>"
  have "circular_buffer_cap other n m = Done ?tmp m"
    using True z by (simp add: circular_buffer_cap_def uninitialized_copy.simps)
  moreover have "wf_buf ?tmp m" using wf_buf_bounds(2) [OF wf] by (simp add: wf_buf_def)
  moreover have "contents ?tmp m = contents other m"
    using z by (simp add: contents_def)
  moreover have "exact ?tmp m" by (simp add: exact_def)
  ultimately show ?thesis using True z by auto
next
  case False
  note s0 = wf_buf_bounds(2) [OF wf]
  let ?bytes = "sizeof_T m * n"
  let ?L = "unat ?bytes div unat (sizeof_T m)"
  obtain f m1 where fm: "fault m = (f, m1)" by force
  note fh = fault_heap [OF fm]
  note on = operator_new_eq [OF fm, of ?bytes]
  show ?thesis
  proof (cases "f \<or> alloc_limit < unat ?bytes")
    case True
    then have "circular_buffer_cap other n m = Thrown bad_alloc m1"
      using False on by (simp add: circular_buffer_cap_def)
    moreover have "faults m \<noteq> [] \<or> \<not> fits m (unat n)"
      using True fh(3) fits_bytes(2) [OF _ s0, of n] by auto
    ultimately show ?thesis using fh by auto
  next
    case ok: False
    let ?a = "brk m"
    let ?d = "replicate ?L None :: 'a option list"
    define m2 where "m2 = m1\<lparr>heap := (heap m)(?a \<mapsto> ?d), brk := Suc ?a\<rparr>"
    have lim: "unat ?bytes \<le> alloc_limit" using ok by simp
    note bs = block_slots [OF s0 lim]
    have new: "operator_new ?bytes m = Done ?a m2"
      using ok on by (simp add: m2_def)
    have unf: "circular_buffer_cap other n m =
        (case uninitialized_copy other 0 (cb_size other) (Some ?a) 0 m2 of
           Done _ m3 \<Rightarrow> Done \<lparr>cb_data = Some ?a, cb_capacity = n, cb_head = 0,
                                cb_size = cb_size other\<rparr> m3
         | Thrown e m3 \<Rightarrow> Thrown e (operator_delete (Some ?a) m3)
         | Undefined \<Rightarrow> Undefined)"
      using False new by (simp add: circular_buffer_cap_def)
    have ne: "cb_data other \<noteq> Some ?a" by (rule wf_buf_fresh [OF wf])
    have f2: "faults m2 = faults m1" "brk m2 = Suc ?a" "sizeof_T m2 = sizeof_T m"
      using fh by (simp_all add: m2_def)
    have wf2: "wf_buf other m2"
      by (rule wf_buf_frame [OF wf]) (use ne f2 in \<open>auto simp: m2_def\<close>)
    have c2: "contents other m2 = contents other m"
      by (rule contents_frame) (use ne in \<open>auto simp: m2_def\<close>)
    have dst: "heap m2 ?a = Some ?d" by (simp add: m2_def)
    have u0: "unat (0 :: size_t) = 0" by simp
    have thrown: "\<exists>e m'. circular_buffer_cap other n m = Thrown e m' \<and> brk m \<le> brk m' \<and>
            sizeof_T m' = sizeof_T m \<and>
            (\<forall>x. x \<noteq> brk m \<longrightarrow> heap m' x = heap m x) \<and>
            (faults m \<noteq> [] \<or> \<not> fits m (unat n))"
      if r: "uninitialized_copy other 0 (cb_size other) (Some ?a) 0 m2 = Thrown e m3"
        and bk: "brk m3 = brk m2" and sz: "sizeof_T m3 = sizeof_T m2"
        and fr: "\<forall>x. x \<noteq> ?a \<longrightarrow> heap m3 x = heap m2 x"
        and fl: "faults m2 \<noteq> []" for e m3
    proof -
      have res: "circular_buffer_cap other n m = Thrown e (operator_delete (Some ?a) m3)"
        using unf r by simp
      have "faults m \<noteq> []" using fl f2 fh by auto
      moreover have "\<forall>x. x \<noteq> ?a \<longrightarrow> heap (operator_delete (Some ?a) m3) x = heap m x"
        using fr by (simp add: operator_delete_def m2_def)
      moreover have "brk m \<le> brk (operator_delete (Some ?a) m3)"
        using bk f2 by (simp add: operator_delete_def)
      moreover have "sizeof_T (operator_delete (Some ?a) m3) = sizeof_T m"
        using sz f2 by (simp add: operator_delete_def)
      ultimately show ?thesis using res by auto
    qed
    show ?thesis
    proof (cases "unat (cb_size other) \<le> ?L")
      case long: True
      have len: "unat (cb_size other) \<le> length ?d" using long by simp
      have z: "0 \<le> unat (cb_size other)" by simp
      from uninitialized_copy_spec [OF wf2 dst ne len u0 z]
      show ?thesis
      proof (elim disjE exE conjE)
        fix m3 dblk'
        assume r: "uninitialized_copy other 0 (cb_size other) (Some ?a) 0 m2 = Done () m3"
          and hm: "heap m3 = (heap m2)(?a \<mapsto> dblk')"
          and l: "length dblk' = length ?d"
          and nth: "\<forall>j<length ?d. dblk' ! j =
              (if 0 \<le> j \<and> j < unat (cb_size other) then contents other m2 ! j else ?d ! j)"
          and bk: "brk m3 = brk m2" and sz: "sizeof_T m3 = sizeof_T m2"
          and fl: "faults m2 = [] \<longrightarrow> faults m3 = []"
        let ?tmp = "\<lparr>cb_data = Some ?a, cb_capacity = n, cb_head = 0, cb_size = cb_size other\<rparr>"
        have res: "circular_buffer_cap other n m = Done ?tmp m3"
          using unf r by simp
        have l': "length dblk' = ?L" using l by simp
        have nth': "\<And>j. j < ?L \<Longrightarrow> dblk' ! j =
            (if j < unat (cb_size other) then contents other m ! j else None)"
          using nth c2 by simp
        from contents_live [OF wf] obtain xs where xs: "contents other m = map Some xs" by blast
        then have lxs: "length xs = unat (cb_size other)"
          by (metis length_contents length_map)
        let ?P = "pad (unat n) dblk'"
        have lP: "length ?P = unat n" using l' bs(1) by (simp add: length_pad)
        have lv: "(?P ! j \<noteq> None) = (j < unat (cb_size other))" if j: "j < length ?P" for j
        proof (cases "j < ?L")
          case True
          then show ?thesis using nth' [OF True] l' xs lxs by (simp add: nth_pad)
        next
          case False
          then have "?P ! j = None" using j lP l' by (simp add: nth_pad_None)
          then show ?thesis using False long by simp
        qed
        have lo: "live_ok ?P 0 (unat (cb_size other))"
          by (rule live_ok_prefix) (use lP le lv in simp_all)
        have n0: "0 < unat n" using False by (simp add: unat_gt_0)
        have h3: "heap m3 ?a = Some dblk'" using hm by simp
        have wf3: "wf_buf ?tmp m3"
          by (rule wf_bufI [where a = ?a and blk = dblk'])
            (use h3 l' le n0 bs bk sz f2 s0 lo in simp_all)
        have "contents ?tmp m3 = view ?P 0 (unat (cb_size other))"
          using contents_wf [OF wf3 _ h3] by simp
        also have "\<dots> = contents other m"
        proof (rule view_0_eq)
          show "unat (cb_size other) \<le> length ?P" using lP le by simp
          show "length (contents other m) = unat (cb_size other)" by simp
          fix j assume j: "j < unat (cb_size other)"
          then have jl: "j < ?L" using long by simp
          show "?P ! j = contents other m ! j"
            using nth' [OF jl] j jl l' by (simp add: nth_pad)
        qed
        finally have c3: "contents ?tmp m3 = contents other m" .
        have "\<forall>x. x \<noteq> ?a \<longrightarrow> heap m3 x = heap m x"
          using hm by (simp add: m2_def)
        moreover have "faults m = [] \<longrightarrow> faults m3 = []"
          using fl f2 fh by auto
        moreover have "fits m (unat n) \<longrightarrow> exact ?tmp m3"
          using fits_bytes(3) [OF _ s0, of n] h3 l' by (auto simp: exact_def)
        moreover have "sizeof_T m3 = sizeof_T m" using sz f2 by simp
        ultimately show ?thesis
          using res wf3 c3 bk f2 False by auto
      next
        fix e m3
        assume r: "uninitialized_copy other 0 (cb_size other) (Some ?a) 0 m2 = Thrown e m3"
          and bk: "brk m3 = brk m2" and sz: "sizeof_T m3 = sizeof_T m2"
          and fr: "\<forall>x. x \<noteq> ?a \<longrightarrow> heap m3 x = heap m2 x"
          and fl: "faults m2 \<noteq> []"
        from thrown [OF r bk sz fr fl] show ?thesis by blast
      qed
    next
      case short: False
      have sh: "length ?d < unat (cb_size other)" using short by simp
      have z: "0 \<le> length ?d" by simp
      have nf: "\<not> fits m (unat n)"
        using fits_bytes(3) [OF _ s0, of n] short le by auto
      from uninitialized_copy_short [OF wf2 dst ne sh u0 z]
      show ?thesis
      proof (elim disjE exE conjE)
        assume "uninitialized_copy other 0 (cb_size other) (Some ?a) 0 m2 = Undefined"
        then have "circular_buffer_cap other n m = Undefined" using unf by simp
        then show ?thesis using nf by simp
      next
        fix e m3
        assume r: "uninitialized_copy other 0 (cb_size other) (Some ?a) 0 m2 = Thrown e m3"
          and bk: "brk m3 = brk m2" and sz: "sizeof_T m3 = sizeof_T m2"
          and fr: "\<forall>x. x \<noteq> ?a \<longrightarrow> heap m3 x = heap m2 x"
          and fl: "faults m2 \<noteq> []"
        from thrown [OF r bk sz fr fl] show ?thesis by blast
      qed
    qed
  qed
qed

lemma swap_cb_eq: "swap_cb a b = (b, a)"
  by (cases a, cases b) (simp add: swap_cb_def)

lemma ensure_capacity_spec:
  assumes wf: "wf_buf b m"
  shows "(\<exists>b' m'. ensure_capacity b n m = Done () (b', m') \<and> step_ok b m b' m' \<and>
            contents b' m' = contents b m \<and> cb_size b' = cb_size b \<and>
            cb_capacity b' = (if cb_capacity b < n then n else cb_capacity b) \<and>
            (\<not> cb_capacity b < n \<longrightarrow> b' = b \<and> m' = m) \<and>
            (faults m = [] \<longrightarrow> faults m' = []) \<and>
            (cb_capacity b < n \<and> fits m (unat n) \<longrightarrow> exact b' m')) \<or>
         (\<exists>e m'. ensure_capacity b n m = Thrown e (b, m') \<and> step_ok b m b m' \<and>
            contents b m' = contents b m \<and> cb_capacity b < n \<and>
            (faults m \<noteq> [] \<or> \<not> fits m (unat n))) \<or>
         (ensure_capacity b n m = Undefined \<and> cb_capacity b < n \<and> \<not> fits m (unat n))"
proof (cases "cb_capacity b < n")
  case False
  then have "ensure_capacity b n m = Done () (b, m)" by (simp add: ensure_capacity_def)
  then show ?thesis using False step_ok_refl [OF wf] by auto
next
  case True
  then have n0: "n \<noteq> 0" by auto
  have le: "unat (cb_size b) \<le> unat n"
    using wf_buf_bounds(1) [OF wf] True by (simp add: word_less_nat_alt)
  have fresh: "cb_data b \<noteq> Some (brk m)" by (rule wf_buf_fresh [OF wf])
  from circular_buffer_cap_spec [OF wf le]
  consider (ret) tmp m1 where "circular_buffer_cap b n m = Done tmp m1"
      "tmp = \<lparr>cb_data = (if n = 0 then None else Some (brk m)), cb_capacity = n,
                   cb_head = 0, cb_size = cb_size b\<rparr>"
      "wf_buf tmp m1" "contents tmp m1 = contents b m"
      "brk m \<le> brk m1" "\<forall>x. x \<noteq> brk m \<longrightarrow> heap m1 x = heap m x"
      "faults m = [] \<longrightarrow> faults m1 = []" "sizeof_T m1 = sizeof_T m"
      "fits m (unat n) \<longrightarrow> exact tmp m1"
    | (thrown) e m1 where "circular_buffer_cap b n m = Thrown e m1"
      "brk m \<le> brk m1" "\<forall>x. x \<noteq> brk m \<longrightarrow> heap m1 x = heap m x"
      "faults m \<noteq> [] \<or> \<not> fits m (unat n)" "sizeof_T m1 = sizeof_T m"
    | (und) "circular_buffer_cap b n m = Undefined" "\<not> fits m (unat n)"
    by blast
  then show ?thesis
  proof cases
    case ret
    note r = ret(1) and tmp = ret(2) and wft = ret(3) and ct = ret(4)
      and bk = ret(5) and fr = ret(6) and fl = ret(7) and sz = ret(8) and ex = ret(9)
    have wf1: "wf_buf b m1"
      by (rule wf_buf_frame [OF wf]) (use fr fresh bk sz in auto)
    from destructor_ok [OF wf1] obtain m2 where
      ds: "destructor b m1 = Done () m2" "brk m2 = brk m1" "faults m2 = faults m1"
        "\<forall>x. Some x \<noteq> cb_data b \<longrightarrow> heap m2 x = heap m1 x" "sizeof_T m2 = sizeof_T m1"
      by blast
    have res: "ensure_capacity b n m = Done () (tmp, m2)"
      using True r ds(1) by (simp add: ensure_capacity_def swap_cb_eq)
    have dt: "cb_data tmp = Some (brk m)" using tmp n0 by simp
    have keep: "heap m2 (brk m) = heap m1 (brk m)" using ds(4) fresh by auto
    have wf2: "wf_buf tmp m2"
      by (rule wf_buf_frame [OF wft]) (use dt keep ds(2,5) in auto)
    have c2: "contents tmp m2 = contents b m"
      unfolding ct [symmetric] by (rule contents_frame) (use dt keep in auto)
    have mf: "mem_frame (cb_data b) m m2"
      unfolding mem_frame_def using bk ds(2,4,5) fr sz by auto
    have df: "data_frame b m tmp"
      unfolding data_frame_def using dt by simp
    have "step_ok b m tmp m2" using wf2 mf df by (simp add: step_ok_def)
    moreover have "faults m = [] \<longrightarrow> faults m2 = []" using fl ds(3) by simp
    moreover have "fits m (unat n) \<longrightarrow> exact tmp m2"
      using ex dt keep by (simp add: exact_def)
    ultimately show ?thesis using res c2 tmp True by auto
  next
    case thrown
    note r = thrown(1) and bk = thrown(2) and fr = thrown(3) and fl = thrown(4)
      and sz = thrown(5)
    have res: "ensure_capacity b n m = Thrown e (b, m1)"
      using True r by (simp add: ensure_capacity_def)
    have wf1: "wf_buf b m1"
      by (rule wf_buf_frame [OF wf]) (use fr fresh bk sz in auto)
    have c1: "contents b m1 = contents b m"
      by (rule contents_frame) (use fr fresh in auto)
    have mf: "mem_frame (cb_data b) m m1"
      unfolding mem_frame_def using bk fr sz by auto
    have "step_ok b m b m1" using wf1 mf by (simp add: step_ok_def data_frame_def)
    then show ?thesis using res c1 True fl by auto
  next
    case und
    then have "ensure_capacity b n m = Undefined"
      using True by (simp add: ensure_capacity_def)
    then show ?thesis using True und(2) by simp
  qed
qed

section \<open>Insertion at the ends\<close>

lemma wf_buf_room:
  assumes wf: "wf_buf b m" and ne: "cb_size b \<noteq> cb_capacity b"
  obtains a blk where "cb_data b = Some a" "heap m a = Some blk"
    "unat (cb_size b) < unat (cb_capacity b)" "cb_capacity b \<noteq> 0"
proof -
  have c0: "cb_capacity b \<noteq> 0"
    using wf_buf_cap0(2) [OF wf] ne by auto
  from wf c0 obtain a where d: "cb_data b = Some a" by (rule wf_buf_data)
  from wf d obtain blk where h: "heap m a = Some blk" by (rule wf_buf_heap)
  note blk = wf_buf_blk [OF wf d h]
  have "unat (cb_size b) \<noteq> unat (cb_capacity b)"
    using ne by (simp add: word_unat_eq_iff)
  then have "unat (cb_size b) < unat (cb_capacity b)" using blk(3) by simp
  then show ?thesis using that d h c0 by blast
qed

text \<open>
  Building an element in the slot \<open>t\<close> of the block of a well-formed buffer: without
  defined behaviour when the block has no such slot.
\<close>

lemma construct_at_wf:
  assumes d: "cb_data b = Some a" and h: "heap m a = Some blk" and fm: "fault m = (f, m1)"
  shows "construct_at (cb_data b) t v m =
      (if length blk \<le> t then Undefined
       else if f then Thrown element_error m1
       else Done () (m1\<lparr>heap := (heap m1)(a \<mapsto> blk[t := Some v])\<rparr>))"
proof -
  have h1: "heap m1 a = Some blk" using h fault_heap(1) [OF fm] by simp
  show ?thesis
    using d h fm set_cell_heap [OF h1] by (simp add: construct_at_def cell_heap)
qed

lemma push_back_room:
  assumes wf: "wf_buf b m" and ne: "cb_size b \<noteq> cb_capacity b"
  shows "(\<exists>m'. push_back b (Local v) m = Some (Done () (b\<lparr>cb_size := cb_size b + 1\<rparr>, m')) \<and>
            wf_buf (b\<lparr>cb_size := cb_size b + 1\<rparr>) m' \<and>
            contents (b\<lparr>cb_size := cb_size b + 1\<rparr>) m' = contents b m @ [Some v] \<and>
            brk m' = brk m \<and> (\<forall>x. Some x \<noteq> cb_data b \<longrightarrow> heap m' x = heap m x) \<and>
            (faults m = [] \<longrightarrow> faults m' = []) \<and> sizeof_T m' = sizeof_T m \<and>
            (exact b m \<longrightarrow> exact (b\<lparr>cb_size := cb_size b + 1\<rparr>) m')) \<or>
         (\<exists>m'. push_back b (Local v) m = Some (Thrown element_error (b, m')) \<and>
            heap m' = heap m \<and> brk m' = brk m \<and> faults m \<noteq> [] \<and> sizeof_T m' = sizeof_T m) \<or>
         (push_back b (Local v) m = Some Undefined \<and> \<not> exact b m)"
proof -
  from wf ne obtain a blk where d: "cb_data b = Some a" and h: "heap m a = Some blk"
    and nc: "unat (cb_size b) < unat (cb_capacity b)" and c0: "cb_capacity b \<noteq> 0"
    by (rule wf_buf_room)
  note blk = wf_buf_blk [OF wf d h]
  let ?c = "unat (cb_capacity b)"
  let ?B = "pad ?c blk"
  let ?t = "(unat (cb_head b) + unat (cb_size b)) mod ?c"
  have hl: "unat (cb_head b) < length ?B" and nl: "unat (cb_size b) < length ?B"
    using blk(1,2) nc by simp_all
  have t: "tail b = Some ?t"
    using unat_slot [OF blk(2,3,4)] c0 by (simp add: tail_def)
  have tc: "?t < ?c" by (rule mod_lt [OF blk(2)])
  obtain f m1 where fm: "fault m = (f, m1)" by force
  note fh = fault_heap [OF fm]
  note cst = construct_at_wf [OF d h fm, of ?t v]
  have unf: "push_back b (Local v) m =
      (case construct_at (cb_data b) ?t v m of
         Done _ m' \<Rightarrow> Some (Done () (b\<lparr>cb_size := cb_size b + 1\<rparr>, m'))
       | Thrown e m' \<Rightarrow> Some (Thrown e (b, m'))
       | Undefined \<Rightarrow> Some Undefined)"
    using ne t by (subst push_back.simps) simp
  consider (out) "length blk \<le> ?t" | (exc) "?t < length blk" "f" | (ret) "?t < length blk" "\<not> f"
    by fastforce
  then show ?thesis
  proof cases
    case out
    then have "push_back b (Local v) m = Some Undefined" using unf cst by simp
    moreover have "\<not> exact b m" using out tc d h by (auto simp: exact_def)
    ultimately show ?thesis by simp
  next
    case exc
    then have "push_back b (Local v) m = Some (Thrown element_error (b, m1))"
      using unf cst by simp
    moreover have "faults m \<noteq> []" using fh(3) exc(2) by auto
    ultimately show ?thesis using fh by auto
  next
    case ret
    let ?b' = "b\<lparr>cb_size := cb_size b + 1\<rparr>"
    define m2 where "m2 = m1\<lparr>heap := (heap m1)(a \<mapsto> blk[?t := Some v])\<rparr>"
    have res: "push_back b (Local v) m = Some (Done () (?b', m2))"
      using unf cst ret by (simp add: m2_def)
    have us: "unat (cb_size b + 1) = Suc (unat (cb_size b))" by (rule unat_succ_lt [OF nc])
    have pu: "pad ?c (blk[?t := Some v]) = ?B[?t := Some v]" by (rule pad_update [OF ret(1)])
    have lo: "live_ok (pad ?c (blk[?t := Some v])) (unat (cb_head b)) (Suc (unat (cb_size b)))"
      unfolding pu using live_ok_push_back [OF blk(7) hl nl, where v = v] blk(1) by simp
    have h2: "heap m2 a = Some (blk[?t := Some v])" by (simp add: m2_def)
    have wf': "wf_buf ?b' m2"
      by (rule wf_buf_update [OF wf d h _ _ h2])
        (use d blk us lo nc fh in \<open>simp_all add: m2_def\<close>)
    have "contents ?b' m2 = view (?B[?t := Some v]) (unat (cb_head b)) (Suc (unat (cb_size b)))"
      using contents_wf [OF wf' _ h2] d us pu by simp
    also have "\<dots> = contents b m @ [Some v]"
      unfolding contents_wf [OF wf d h] using view_push_back [OF hl nl, where x = "Some v"] blk(1) by simp
    finally have c': "contents ?b' m2 = contents b m @ [Some v]" .
    have "\<forall>x. Some x \<noteq> cb_data b \<longrightarrow> heap m2 x = heap m x"
      using d fh by (auto simp: m2_def)
    moreover have "faults m = [] \<longrightarrow> faults m2 = []" using fh by (auto simp: m2_def)
    moreover have "brk m2 = brk m" "sizeof_T m2 = sizeof_T m" using fh by (simp_all add: m2_def)
    moreover have "exact b m \<longrightarrow> exact ?b' m2" using d h h2 by (simp add: exact_def)
    ultimately show ?thesis using res wf' c' by auto
  qed
qed

lemma push_front_room:
  assumes wf: "wf_buf b m" and ne: "cb_size b \<noteq> cb_capacity b"
  shows "(\<exists>m'. push_front b (Local v) m =
              Some (Done () (b\<lparr>cb_head := (cb_head b + cb_capacity b - 1) mod cb_capacity b,
                               cb_size := cb_size b + 1\<rparr>, m')) \<and>
            wf_buf (b\<lparr>cb_head := (cb_head b + cb_capacity b - 1) mod cb_capacity b,
                      cb_size := cb_size b + 1\<rparr>) m' \<and>
            contents (b\<lparr>cb_head := (cb_head b + cb_capacity b - 1) mod cb_capacity b,
                        cb_size := cb_size b + 1\<rparr>) m' = Some v # contents b m \<and>
            brk m' = brk m \<and> (\<forall>x. Some x \<noteq> cb_data b \<longrightarrow> heap m' x = heap m x) \<and>
            (faults m = [] \<longrightarrow> faults m' = []) \<and> sizeof_T m' = sizeof_T m \<and>
            (exact b m \<longrightarrow>
               exact (b\<lparr>cb_head := (cb_head b + cb_capacity b - 1) mod cb_capacity b,
                        cb_size := cb_size b + 1\<rparr>) m')) \<or>
         (\<exists>m'. push_front b (Local v) m = Some (Thrown element_error (b, m')) \<and>
            heap m' = heap m \<and> brk m' = brk m \<and> faults m \<noteq> [] \<and> sizeof_T m' = sizeof_T m) \<or>
         (push_front b (Local v) m = Some Undefined \<and> \<not> exact b m)"
proof -
  from wf ne obtain a blk where d: "cb_data b = Some a" and h: "heap m a = Some blk"
    and nc: "unat (cb_size b) < unat (cb_capacity b)" and c0: "cb_capacity b \<noteq> 0"
    by (rule wf_buf_room)
  note blk = wf_buf_blk [OF wf d h]
  let ?c = "unat (cb_capacity b)"
  let ?B = "pad ?c blk"
  let ?t = "(unat (cb_head b) + ?c - 1) mod ?c"
  let ?tw = "(cb_head b + cb_capacity b - 1) mod cb_capacity b"
  have hl: "unat (cb_head b) < length ?B" and nl: "unat (cb_size b) < length ?B"
    using blk(1,2) nc by simp_all
  have t: "unat ?tw = ?t"
    by (rule unat_head_prev [OF blk(2,4)])
  have tc: "?t < ?c" by (rule mod_lt [OF blk(2)])
  obtain f m1 where fm: "fault m = (f, m1)" by force
  note fh = fault_heap [OF fm]
  note cst = construct_at_wf [OF d h fm, of ?t v]
  have unf: "push_front b (Local v) m =
      (case construct_at (cb_data b) ?t v m of
         Done _ m' \<Rightarrow> Some (Done () (b\<lparr>cb_head := ?tw, cb_size := cb_size b + 1\<rparr>, m'))
       | Thrown e m' \<Rightarrow> Some (Thrown e (b, m'))
       | Undefined \<Rightarrow> Some Undefined)"
    using ne c0 t by (subst push_front.simps) simp
  consider (out) "length blk \<le> ?t" | (exc) "?t < length blk" "f" | (ret) "?t < length blk" "\<not> f"
    by fastforce
  then show ?thesis
  proof cases
    case out
    then have "push_front b (Local v) m = Some Undefined" using unf cst by simp
    moreover have "\<not> exact b m" using out tc d h by (auto simp: exact_def)
    ultimately show ?thesis by simp
  next
    case exc
    then have "push_front b (Local v) m = Some (Thrown element_error (b, m1))"
      using unf cst by simp
    moreover have "faults m \<noteq> []" using fh(3) exc(2) by auto
    ultimately show ?thesis using fh by auto
  next
    case ret
    let ?b' = "b\<lparr>cb_head := ?tw, cb_size := cb_size b + 1\<rparr>"
    define m2 where "m2 = m1\<lparr>heap := (heap m1)(a \<mapsto> blk[?t := Some v])\<rparr>"
    have res: "push_front b (Local v) m = Some (Done () (?b', m2))"
      using unf cst ret by (simp add: m2_def)
    have us: "unat (cb_size b + 1) = Suc (unat (cb_size b))" by (rule unat_succ_lt [OF nc])
    have pu: "pad ?c (blk[?t := Some v]) = ?B[?t := Some v]" by (rule pad_update [OF ret(1)])
    have lo: "live_ok (pad ?c (blk[?t := Some v])) ?t (Suc (unat (cb_size b)))"
      unfolding pu using live_ok_push_front [OF blk(7) hl nl, where v = v] blk(1) by simp
    have h2: "heap m2 a = Some (blk[?t := Some v])" by (simp add: m2_def)
    have wf': "wf_buf ?b' m2"
      by (rule wf_buf_update [OF wf d h _ _ h2])
        (use d blk us lo nc fh t tc ret(1) in \<open>simp_all add: m2_def\<close>)
    have "contents ?b' m2 = view (?B[?t := Some v]) ?t (Suc (unat (cb_size b)))"
      using contents_wf [OF wf' _ h2] d us t pu by simp
    also have "\<dots> = Some v # contents b m"
      unfolding contents_wf [OF wf d h] using view_push_front [OF hl nl, where x = "Some v"] blk(1) by simp
    finally have c': "contents ?b' m2 = Some v # contents b m" .
    have "\<forall>x. Some x \<noteq> cb_data b \<longrightarrow> heap m2 x = heap m x"
      using d fh by (auto simp: m2_def)
    moreover have "faults m = [] \<longrightarrow> faults m2 = []" using fh by (auto simp: m2_def)
    moreover have "brk m2 = brk m" "sizeof_T m2 = sizeof_T m" using fh by (simp_all add: m2_def)
    moreover have "exact b m \<longrightarrow> exact ?b' m2" using d h h2 by (simp add: exact_def)
    ultimately show ?thesis using res wf' c' by auto
  qed
qed

text \<open>A full buffer has all the slots of its capacity, which is within the allocator's limit.\<close>

lemma wf_full_limit:
  assumes wf: "wf_buf b m" and full: "cb_size b = cb_capacity b"
  shows "unat (cb_capacity b) \<le> alloc_limit"
  by (rule fits_le [OF exact_fits [OF wf exact_full [OF wf full]] wf_buf_bounds(2) [OF wf]])

lemma grow_target:
  assumes wf: "wf_buf b m" and full: "cb_size b = cb_capacity b"
  shows "cb_capacity b < (if cb_capacity b = 0 then 1 else cb_capacity b * 2)"
    and "unat (if cb_capacity b = 0 then 1 else cb_capacity b * 2) =
      (if cb_capacity b = 0 then 1 else 2 * unat (cb_capacity b))"
    and "room_for_push b m =
      fits m (unat (if cb_capacity b = 0 then 1 else cb_capacity b * 2))"
proof -
  have "2 * unat (cb_capacity b) < 2 ^ 64"
    using wf_full_limit [OF wf full] alloc_limit_lt by simp
  then have u: "unat (cb_capacity b * 2) = 2 * unat (cb_capacity b)"
    by (rule unat_double)
  show e: "unat (if cb_capacity b = 0 then 1 else cb_capacity b * 2) =
      (if cb_capacity b = 0 then 1 else 2 * unat (cb_capacity b))"
    using u by simp
  show "room_for_push b m =
      fits m (unat (if cb_capacity b = 0 then 1 else cb_capacity b * 2))"
    unfolding e using full by (simp add: room_for_push_def)
  show "cb_capacity b < (if cb_capacity b = 0 then 1 else cb_capacity b * 2)"
  proof (cases "cb_capacity b = 0")
    case True
    then show ?thesis by simp
  next
    case False
    then have "0 < unat (cb_capacity b)" by (simp add: unat_gt_0)
    then show ?thesis using False u by (simp add: word_less_nat_alt)
  qed
qed

lemma step_ok_heap_same:
  assumes "wf_buf b m" "heap m' = heap m" "brk m' = brk m" "sizeof_T m' = sizeof_T m"
  shows "step_ok b m b m'" "contents b m' = contents b m"
proof -
  have "wf_buf b m'" by (rule wf_buf_frame [OF assms(1)]) (use assms in simp_all)
  then show "step_ok b m b m'"
    by (rule step_ok_same) (use assms in simp_all)
  show "contents b m' = contents b m"
    by (rule contents_frame) (use assms in simp)
qed

lemma push_back_spec:
  assumes wf: "wf_buf b m"
  shows "(\<exists>b' m'. push_back b (Local v) m = Some (Done () (b', m')) \<and> step_ok b m b' m' \<and>
            contents b' m' = contents b m @ [Some v] \<and> cb_size b' = cb_size b + 1 \<and>
            cb_capacity b' =
              (if cb_size b = cb_capacity b
               then (if cb_capacity b = 0 then 1 else cb_capacity b * 2)
               else cb_capacity b) \<and>
            (faults m = [] \<longrightarrow> faults m' = []) \<and>
            (room_for_push b m \<longrightarrow> exact b' m')) \<or>
         (\<exists>e b' m'. push_back b (Local v) m = Some (Thrown e (b', m')) \<and> step_ok b m b' m' \<and>
            contents b' m' = contents b m \<and> cb_size b' = cb_size b \<and>
            (cb_capacity b' = cb_capacity b \<or>
             cb_size b = cb_capacity b \<and>
             cb_capacity b' = (if cb_capacity b = 0 then 1 else cb_capacity b * 2)) \<and>
            (faults m \<noteq> [] \<or> \<not> room_for_push b m)) \<or>
         (push_back b (Local v) m = Some Undefined \<and> \<not> room_for_push b m)"
proof (cases "cb_size b = cb_capacity b")
  case False
  then have rp: "room_for_push b m = exact b m" by (simp add: room_for_push_def)
  from push_back_room [OF wf False, of v]
  consider (ret) m' where "push_back b (Local v) m = Some (Done () (b\<lparr>cb_size := cb_size b + 1\<rparr>, m'))"
      "wf_buf (b\<lparr>cb_size := cb_size b + 1\<rparr>) m'"
      "contents (b\<lparr>cb_size := cb_size b + 1\<rparr>) m' = contents b m @ [Some v]"
      "brk m' = brk m" "\<forall>x. Some x \<noteq> cb_data b \<longrightarrow> heap m' x = heap m x"
      "faults m = [] \<longrightarrow> faults m' = []" "sizeof_T m' = sizeof_T m"
      "exact b m \<longrightarrow> exact (b\<lparr>cb_size := cb_size b + 1\<rparr>) m'"
    | (exc) m' where "push_back b (Local v) m = Some (Thrown element_error (b, m'))"
      "heap m' = heap m" "brk m' = brk m" "faults m \<noteq> []" "sizeof_T m' = sizeof_T m"
    | (und) "push_back b (Local v) m = Some Undefined" "\<not> exact b m"
    by blast
  then show ?thesis
  proof cases
    case ret
    have "step_ok b m (b\<lparr>cb_size := cb_size b + 1\<rparr>) m'"
      by (rule step_ok_same) (use ret in simp_all)
    then show ?thesis using ret False rp by auto
  next
    case exc
    from step_ok_heap_same [OF wf exc(2,3,5)] show ?thesis using exc False by auto
  next
    case und
    then show ?thesis using rp by simp
  qed
next
  case True
  let ?n = "if cb_capacity b = 0 then 1 else cb_capacity b * 2"
  note gt = grow_target [OF wf True]
  have unf: "push_back b (Local v) m =
      (case ensure_capacity b ?n m of
         Done _ (b', m') \<Rightarrow> push_back b' (Local v) m'
       | Thrown e s \<Rightarrow> Some (Thrown e s)
       | Undefined \<Rightarrow> Some Undefined)"
    using True by (subst push_back.simps) simp
  from ensure_capacity_spec [OF wf, of ?n]
  consider (ret) b1 m1 where "ensure_capacity b ?n m = Done () (b1, m1)" "step_ok b m b1 m1"
      "contents b1 m1 = contents b m" "cb_size b1 = cb_size b"
      "cb_capacity b1 = (if cb_capacity b < ?n then ?n else cb_capacity b)"
      "faults m = [] \<longrightarrow> faults m1 = []"
      "cb_capacity b < ?n \<and> fits m (unat ?n) \<longrightarrow> exact b1 m1"
    | (exc) e m1 where "ensure_capacity b ?n m = Thrown e (b, m1)" "step_ok b m b m1"
      "contents b m1 = contents b m" "faults m \<noteq> [] \<or> \<not> fits m (unat ?n)"
    | (und) "ensure_capacity b ?n m = Undefined" "\<not> fits m (unat ?n)"
    by blast
  then show ?thesis
  proof cases
    case exc
    have "push_back b (Local v) m = Some (Thrown e (b, m1))" using unf exc(1) by simp
    moreover have "faults m \<noteq> [] \<or> \<not> room_for_push b m"
      using exc(4) gt(3) by simp
    ultimately show ?thesis using exc(2,3) by auto
  next
    case und
    have "push_back b (Local v) m = Some Undefined" using unf und(1) by simp
    then show ?thesis using und(2) gt(3) by simp
  next
    case ret
    have cap1: "cb_capacity b1 = ?n" using ret(5) gt(1) by simp
    have wf1: "wf_buf b1 m1" by (rule step_ok_wf [OF ret(2)])
    have ne1: "cb_size b1 \<noteq> cb_capacity b1"
      using ret(4) cap1 True gt(1) by auto
    have ex1: "room_for_push b m \<longrightarrow> exact b1 m1" using ret(7) gt(1,3) by simp
    have unf1: "push_back b (Local v) m = push_back b1 (Local v) m1" using unf ret(1) by simp
    from push_back_room [OF wf1 ne1, of v]
    consider (ret2) m' where "push_back b1 (Local v) m1 = Some (Done () (b1\<lparr>cb_size := cb_size b1 + 1\<rparr>, m'))"
        "wf_buf (b1\<lparr>cb_size := cb_size b1 + 1\<rparr>) m'"
        "contents (b1\<lparr>cb_size := cb_size b1 + 1\<rparr>) m' = contents b1 m1 @ [Some v]"
        "brk m' = brk m1" "\<forall>x. Some x \<noteq> cb_data b1 \<longrightarrow> heap m' x = heap m1 x"
        "faults m1 = [] \<longrightarrow> faults m' = []" "sizeof_T m' = sizeof_T m1"
        "exact b1 m1 \<longrightarrow> exact (b1\<lparr>cb_size := cb_size b1 + 1\<rparr>) m'"
      | (exc2) m' where "push_back b1 (Local v) m1 = Some (Thrown element_error (b1, m'))"
        "heap m' = heap m1" "brk m' = brk m1" "faults m1 \<noteq> []" "sizeof_T m' = sizeof_T m1"
      | (und2) "push_back b1 (Local v) m1 = Some Undefined" "\<not> exact b1 m1"
      by blast
    then show ?thesis
    proof cases
      case ret2
      have "step_ok b1 m1 (b1\<lparr>cb_size := cb_size b1 + 1\<rparr>) m'"
        by (rule step_ok_same) (use ret2 in simp_all)
      from step_ok_trans [OF ret(2) this]
      show ?thesis using unf1 ret2 ret(3,4,6) cap1 True ex1 by auto
    next
      case exc2
      note s = step_ok_heap_same [OF wf1 exc2(2,3,5)]
      from step_ok_trans [OF ret(2) s(1)] have st: "step_ok b m b1 m'" .
      have "faults m \<noteq> []" using exc2(4) ret(6) by auto
      then show ?thesis using unf1 exc2(1) st s(2) ret(3,4) cap1 True by auto
    next
      case und2
      then show ?thesis using unf1 ex1 by auto
    qed
  qed
qed

lemma push_front_spec:
  assumes wf: "wf_buf b m"
  shows "(\<exists>b' m'. push_front b (Local v) m = Some (Done () (b', m')) \<and> step_ok b m b' m' \<and>
            contents b' m' = Some v # contents b m \<and> cb_size b' = cb_size b + 1 \<and>
            cb_capacity b' =
              (if cb_size b = cb_capacity b
               then (if cb_capacity b = 0 then 1 else cb_capacity b * 2)
               else cb_capacity b) \<and>
            (faults m = [] \<longrightarrow> faults m' = []) \<and>
            (room_for_push b m \<longrightarrow> exact b' m')) \<or>
         (\<exists>e b' m'. push_front b (Local v) m = Some (Thrown e (b', m')) \<and> step_ok b m b' m' \<and>
            contents b' m' = contents b m \<and> cb_size b' = cb_size b \<and>
            (cb_capacity b' = cb_capacity b \<or>
             cb_size b = cb_capacity b \<and>
             cb_capacity b' = (if cb_capacity b = 0 then 1 else cb_capacity b * 2)) \<and>
            (faults m \<noteq> [] \<or> \<not> room_for_push b m)) \<or>
         (push_front b (Local v) m = Some Undefined \<and> \<not> room_for_push b m)"
proof (cases "cb_size b = cb_capacity b")
  case False
  then have rp: "room_for_push b m = exact b m" by (simp add: room_for_push_def)
  let ?b' = "b\<lparr>cb_head := (cb_head b + cb_capacity b - 1) mod cb_capacity b,
                 cb_size := cb_size b + 1\<rparr>"
  from push_front_room [OF wf False, of v]
  consider (ret) m' where "push_front b (Local v) m = Some (Done () (?b', m'))"
      "wf_buf ?b' m'" "contents ?b' m' = Some v # contents b m"
      "brk m' = brk m" "\<forall>x. Some x \<noteq> cb_data b \<longrightarrow> heap m' x = heap m x"
      "faults m = [] \<longrightarrow> faults m' = []" "sizeof_T m' = sizeof_T m"
      "exact b m \<longrightarrow> exact ?b' m'"
    | (exc) m' where "push_front b (Local v) m = Some (Thrown element_error (b, m'))"
      "heap m' = heap m" "brk m' = brk m" "faults m \<noteq> []" "sizeof_T m' = sizeof_T m"
    | (und) "push_front b (Local v) m = Some Undefined" "\<not> exact b m"
    by blast
  then show ?thesis
  proof cases
    case ret
    have "step_ok b m ?b' m'"
      by (rule step_ok_same) (use ret in simp_all)
    then show ?thesis using ret False rp by auto
  next
    case exc
    from step_ok_heap_same [OF wf exc(2,3,5)] show ?thesis using exc False by auto
  next
    case und
    then show ?thesis using rp by simp
  qed
next
  case True
  let ?n = "if cb_capacity b = 0 then 1 else cb_capacity b * 2"
  note gt = grow_target [OF wf True]
  have unf: "push_front b (Local v) m =
      (case ensure_capacity b ?n m of
         Done _ (b', m') \<Rightarrow> push_front b' (Local v) m'
       | Thrown e s \<Rightarrow> Some (Thrown e s)
       | Undefined \<Rightarrow> Some Undefined)"
    using True by (subst push_front.simps) simp
  from ensure_capacity_spec [OF wf, of ?n]
  consider (ret) b1 m1 where "ensure_capacity b ?n m = Done () (b1, m1)" "step_ok b m b1 m1"
      "contents b1 m1 = contents b m" "cb_size b1 = cb_size b"
      "cb_capacity b1 = (if cb_capacity b < ?n then ?n else cb_capacity b)"
      "faults m = [] \<longrightarrow> faults m1 = []"
      "cb_capacity b < ?n \<and> fits m (unat ?n) \<longrightarrow> exact b1 m1"
    | (exc) e m1 where "ensure_capacity b ?n m = Thrown e (b, m1)" "step_ok b m b m1"
      "contents b m1 = contents b m" "faults m \<noteq> [] \<or> \<not> fits m (unat ?n)"
    | (und) "ensure_capacity b ?n m = Undefined" "\<not> fits m (unat ?n)"
    by blast
  then show ?thesis
  proof cases
    case exc
    have "push_front b (Local v) m = Some (Thrown e (b, m1))" using unf exc(1) by simp
    moreover have "faults m \<noteq> [] \<or> \<not> room_for_push b m"
      using exc(4) gt(3) by simp
    ultimately show ?thesis using exc(2,3) by auto
  next
    case und
    have "push_front b (Local v) m = Some Undefined" using unf und(1) by simp
    then show ?thesis using und(2) gt(3) by simp
  next
    case ret
    have cap1: "cb_capacity b1 = ?n" using ret(5) gt(1) by simp
    have wf1: "wf_buf b1 m1" by (rule step_ok_wf [OF ret(2)])
    have ne1: "cb_size b1 \<noteq> cb_capacity b1"
      using ret(4) cap1 True gt(1) by auto
    have ex1: "room_for_push b m \<longrightarrow> exact b1 m1" using ret(7) gt(1,3) by simp
    have unf1: "push_front b (Local v) m = push_front b1 (Local v) m1" using unf ret(1) by simp
    let ?b' = "b1\<lparr>cb_head := (cb_head b1 + cb_capacity b1 - 1) mod cb_capacity b1,
                    cb_size := cb_size b1 + 1\<rparr>"
    from push_front_room [OF wf1 ne1, of v]
    consider (ret2) m' where "push_front b1 (Local v) m1 = Some (Done () (?b', m'))"
        "wf_buf ?b' m'" "contents ?b' m' = Some v # contents b1 m1"
        "brk m' = brk m1" "\<forall>x. Some x \<noteq> cb_data b1 \<longrightarrow> heap m' x = heap m1 x"
        "faults m1 = [] \<longrightarrow> faults m' = []" "sizeof_T m' = sizeof_T m1"
        "exact b1 m1 \<longrightarrow> exact ?b' m'"
      | (exc2) m' where "push_front b1 (Local v) m1 = Some (Thrown element_error (b1, m'))"
        "heap m' = heap m1" "brk m' = brk m1" "faults m1 \<noteq> []" "sizeof_T m' = sizeof_T m1"
      | (und2) "push_front b1 (Local v) m1 = Some Undefined" "\<not> exact b1 m1"
      by blast
    then show ?thesis
    proof cases
      case ret2
      have "step_ok b1 m1 ?b' m'"
        by (rule step_ok_same) (use ret2 in simp_all)
      from step_ok_trans [OF ret(2) this]
      show ?thesis using unf1 ret2 ret(3,4,6) cap1 True ex1 by auto
    next
      case exc2
      note s = step_ok_heap_same [OF wf1 exc2(2,3,5)]
      from step_ok_trans [OF ret(2) s(1)] have st: "step_ok b m b1 m'" .
      have "faults m \<noteq> []" using exc2(4) ret(6) by auto
      then show ?thesis using unf1 exc2(1) st s(2) ret(3,4) cap1 True by auto
    next
      case und2
      then show ?thesis using unf1 ex1 by auto
    qed
  qed
qed

section \<open>Sequences of pushes and pops\<close>

lemma wf_buf_default: "sizeof_T m \<noteq> 0 \<Longrightarrow> wf_buf circular_buffer m"
  by (simp add: wf_buf_def circular_buffer_def)

lemma exact_default: "exact circular_buffer m"
  by (simp add: exact_def circular_buffer_def)

lemma contents_default: "contents circular_buffer m = []"
  by (simp add: contents_def circular_buffer_def)

lemma size_nonempty:
  assumes "contents b m = map Some xs" "xs \<noteq> []"
  shows "cb_size b \<noteq> 0"
proof
  assume "cb_size b = 0"
  then have "length (contents b m) = 0" by simp
  then show False using assms by simp
qed

lemma unat_succ_le: "unat (x + 1 :: size_t) \<le> Suc (unat x)"
proof -
  have "unat (x + 1) = (unat x + unat (1 :: size_t)) mod 2 ^ LENGTH(64)"
    by (rule unat_word_ariths(1))
  also have "\<dots> \<le> unat x + unat (1 :: size_t)"
    by (rule mod_less_eq_dividend)
  finally show ?thesis by simp
qed

lemma fits_same: "sizeof_T m' = sizeof_T m \<Longrightarrow> fits m' k = fits m k"
  by (simp add: fits_def)

lemma step_ok_sizeof: "step_ok b m b' m' \<Longrightarrow> sizeof_T m' = sizeof_T m"
  by (simp add: step_ok_def mem_frame_def)

text \<open>
  A buffer that has all its slots, with room in the allocator for twice one more than
  its elements, has what a push needs.
\<close>

lemma room_for_push_fits:
  assumes "exact b m" "fits m (2 * Suc (unat (cb_size b)))"
  shows "room_for_push b m"
proof (cases "cb_size b = cb_capacity b")
  case False
  then show ?thesis using assms(1) by (simp add: room_for_push_def)
next
  case True
  have "(if cb_capacity b = 0 then 1 else 2 * unat (cb_capacity b)) \<le>
      2 * Suc (unat (cb_size b))"
    using True by simp
  from fits_mono [OF assms(2) this] show ?thesis
    using True by (simp add: room_for_push_def)
qed

lemma apply_op_spec:
  assumes wf: "wf_buf b m" and c: "contents b m = map Some xs"
    and ok: "is_pop x \<longrightarrow> xs \<noteq> []"
  shows "(\<exists>b' m'. apply_op (map_dq_op Local x) b m = Some (Done () (b', m')) \<and>
            step_ok b m b' m' \<and>
            contents b' m' = map Some (deque_op x xs) \<and>
            (faults m = [] \<longrightarrow> faults m' = []) \<and>
            unat (cb_size b') \<le> Suc (unat (cb_size b)) \<and>
            (exact b m \<and> fits m (2 * Suc (unat (cb_size b))) \<longrightarrow> exact b' m')) \<or>
         (\<exists>e b' m'. apply_op (map_dq_op Local x) b m = Some (Thrown e (b', m')) \<and>
            step_ok b m b' m' \<and>
            contents b' m' = contents b m \<and>
            (faults m \<noteq> [] \<or> \<not> (exact b m \<and> fits m (2 * Suc (unat (cb_size b)))))) \<or>
         (apply_op (map_dq_op Local x) b m = Some Undefined \<and>
            \<not> (exact b m \<and> fits m (2 * Suc (unat (cb_size b)))))"
proof (cases x)
  case (Push_back v)
  note sz = unat_succ_le [of "cb_size b"]
  note rp = room_for_push_fits [of b m]
  from push_back_spec [OF wf, of v] show ?thesis
    using Push_back c sz rp by (elim disjE exE conjE) auto
next
  case (Push_front v)
  note sz = unat_succ_le [of "cb_size b"]
  note rp = room_for_push_fits [of b m]
  from push_front_spec [OF wf, of v] show ?thesis
    using Push_front c sz rp by (elim disjE exE conjE) auto
next
  case Pop_back
  then have n0: "cb_size b \<noteq> 0" using size_nonempty [OF c] ok by simp
  from pop_back_ok [OF wf n0] obtain m' where
    p: "pop_back b m = Done () (b\<lparr>cb_size := cb_size b - 1\<rparr>, m')" by blast
  note d = pop_back_Done [OF wf p]
  have "contents (b\<lparr>cb_size := cb_size b - 1\<rparr>) m' = map Some (butlast xs)"
    using d(2) c by (simp add: map_butlast)
  moreover have "unat (cb_size b - 1) \<le> Suc (unat (cb_size b))"
    using unat_pred(1) [OF n0] by simp
  moreover have "faults m = [] \<longrightarrow> faults m' = []" using d(6) by simp
  moreover have "exact b m \<longrightarrow> exact (b\<lparr>cb_size := cb_size b - 1\<rparr>) m'" using d(9) by simp
  ultimately show ?thesis using Pop_back p step_ok_pop_back [OF wf p] by auto
next
  case Pop_front
  then have n0: "cb_size b \<noteq> 0" using size_nonempty [OF c] ok by simp
  let ?b' = "b\<lparr>cb_size := cb_size b - 1, cb_head := (cb_head b + 1) mod cb_capacity b\<rparr>"
  from pop_front_ok [OF wf n0] obtain m' where
    p: "pop_front b m = Done () (?b', m')" by blast
  note d = pop_front_Done [OF wf p]
  have "contents ?b' m' = map Some (tl xs)"
    using d(2) c by (simp add: map_tl)
  moreover have "unat (cb_size ?b') \<le> Suc (unat (cb_size b))"
    using unat_pred(1) [OF n0] by simp
  moreover have "faults m = [] \<longrightarrow> faults m' = []" using d(6) by simp
  moreover have "exact b m \<longrightarrow> exact ?b' m'" using d(9) by simp
  ultimately show ?thesis using Pop_front p step_ok_pop_front [OF wf p] by auto
qed

lemma run_ops_spec:
  assumes "wf_buf b m" "contents b m = map Some xs" "pops_nonempty ops xs"
  shows "(\<forall>u b' m'. run_ops (map (map_dq_op Local) ops) b m = Some (Done u (b', m')) \<longrightarrow>
            wf_buf b' m' \<and> contents b' m' = map Some (deque_run ops xs)) \<and>
         (faults m = [] \<and> exact b m \<and> fits m (2 * (unat (cb_size b) + length ops)) \<longrightarrow>
            (\<exists>b' m'. run_ops (map (map_dq_op Local) ops) b m = Some (Done () (b', m'))))"
  using assms
proof (induction ops arbitrary: b m xs)
  case Nil
  then show ?case by simp
next
  case (Cons x ops)
  have ok: "is_pop x \<longrightarrow> xs \<noteq> []" and rest: "pops_nonempty ops (deque_op x xs)"
    using Cons.prems(3) by simp_all
  let ?P = "exact b m \<and> fits m (2 * Suc (unat (cb_size b)))"
  have P: "?P" if "exact b m" "fits m (2 * (unat (cb_size b) + length (x # ops)))"
    using that fits_mono [OF that(2), of "2 * Suc (unat (cb_size b))"] by simp
  from apply_op_spec [OF Cons.prems(1,2) ok]
  consider (ret) b1 m1 where "apply_op (map_dq_op Local x) b m = Some (Done () (b1, m1))"
      "step_ok b m b1 m1"
      "contents b1 m1 = map Some (deque_op x xs)" "faults m = [] \<longrightarrow> faults m1 = []"
      "unat (cb_size b1) \<le> Suc (unat (cb_size b))" "?P \<longrightarrow> exact b1 m1"
    | (exc) e b1 m1 where "apply_op (map_dq_op Local x) b m = Some (Thrown e (b1, m1))"
      "faults m \<noteq> [] \<or> \<not> ?P"
    | (und) "apply_op (map_dq_op Local x) b m = Some Undefined" "\<not> ?P"
    by blast
  then show ?case
  proof cases
    case ret
    have wf1: "wf_buf b1 m1" by (rule step_ok_wf [OF ret(2)])
    have unf: "run_ops (map (map_dq_op Local) (x # ops)) b m =
        run_ops (map (map_dq_op Local) ops) b1 m1"
      using ret(1) by simp
    note ih = Cons.IH [OF wf1 ret(3) rest]
    note fs = fits_same [OF step_ok_sizeof [OF ret(2)]]
    have "faults m1 = [] \<and> exact b1 m1 \<and> fits m1 (2 * (unat (cb_size b1) + length ops))"
      if a: "faults m = []" "exact b m" "fits m (2 * (unat (cb_size b) + length (x # ops)))"
    proof -
      have "2 * (unat (cb_size b1) + length ops) \<le> 2 * (unat (cb_size b) + length (x # ops))"
        using ret(5) by simp
      from fits_mono [OF a(3) this] show ?thesis
        using ret(4,6) a(1) P [OF a(2,3)] fs by simp
    qed
    then show ?thesis unfolding unf using ih by auto
  next
    case exc
    have unf: "run_ops (map (map_dq_op Local) (x # ops)) b m = Some (Thrown e (b1, m1))"
      using exc(1) by simp
    show ?thesis unfolding unf using exc(2) P by auto
  next
    case und
    have unf: "run_ops (map (map_dq_op Local) (x # ops)) b m = Some Undefined"
      using und(1) by simp
    show ?thesis unfolding unf using und(2) P by auto
  qed
qed

text \<open>
  Pushes whose arguments are not elements of the buffer: for every sequence of
  \<open>push_back\<close>, \<open>push_front\<close>, \<open>pop_back\<close> and \<open>pop_front\<close> in which each pop meets
  a non-empty buffer, run on a default constructed buffer: whenever the run returns, the
  logical content of the buffer is that of the reference double-ended queue after the
  same sequence; and the run does return when no step is made to fail and the sequence
  is short enough for the allocator (a block for twice as many elements as there are
  operations is within its limit).
\<close>

lemma run_ops_refines_deque:
  assumes "pops_nonempty ops []" "sizeof_T m \<noteq> 0"
  shows "(\<forall>u b' m'. run_ops (map (map_dq_op Local) ops) circular_buffer m =
              Some (Done u (b', m')) \<longrightarrow>
            contents b' m' = map Some (deque_run ops [])) \<and>
         (faults m = [] \<and> fits m (2 * length ops) \<longrightarrow>
            (\<exists>b' m'. run_ops (map (map_dq_op Local) ops) circular_buffer m =
               Some (Done () (b', m'))))"
proof -
  have c: "contents circular_buffer m = map Some []" by (simp add: contents_default)
  have z: "unat (cb_size circular_buffer) = 0" by (simp add: circular_buffer_def)
  from run_ops_spec [OF wf_buf_default [OF assms(2)] c assms(1)] show ?thesis
    unfolding z using exact_default [of m] by simp
qed

lemma run_ops_refines_deque_example:
  "pops_nonempty [Push_back (1::nat), Push_back 2, Push_front 0, Pop_back, Pop_front] [] \<and>
   (\<exists>b' m'. run_ops [Push_back (Local 1), Push_back (Local 2), Push_front (Local 0),
          Pop_back, Pop_front] circular_buffer empty_store = Some (Done () (b', m')) \<and>
      contents b' m' = [Some 1])"
proof -
  let ?ops = "[Push_back (1::nat), Push_back 2, Push_front 0, Pop_back, Pop_front]"
  have p: "pops_nonempty ?ops []" by simp
  have s: "sizeof_T empty_store \<noteq> 0" by (simp add: empty_store_def)
  have l: "faults empty_store = [] \<and> fits empty_store (2 * length ?ops)"
    by (simp add: alloc_limit_def empty_store_def fits_def)
  from run_ops_refines_deque [OF p s] l
  obtain b' m' where r: "run_ops (map (map_dq_op Local) ?ops) circular_buffer empty_store =
      Some (Done () (b', m'))"
    and c: "contents b' m' = map Some (deque_run ?ops [])"
    by blast
  have "deque_run ?ops [] = [1]" by simp
  with r c p show ?thesis by auto
qed

section \<open>Evaluating the model on small states\<close>

lemmas eval_simps =
  ensure_capacity_def circular_buffer_cap_def operator_new_def fault_def
  get_real_index_def obj_at_def cell_def construct_at_def set_cell_def swap_cb_def
  destructor_def pop_back_def pop_front_def destroy_at_def operator_delete_def tail_def
  destroy_range_def construct_from_def read_ref_def

lemma alloc_limit_small:
  "\<not> alloc_limit < Suc 0" "\<not> alloc_limit < 2" "\<not> alloc_limit < 4" "\<not> alloc_limit < 8"
  "\<not> alloc_limit < 16" "\<not> alloc_limit < 32" "\<not> alloc_limit < 64"
  by (simp_all add: alloc_limit_def)

lemma alloc_limit_pos: "0 < alloc_limit"
  by (simp add: alloc_limit_def)

lemma replicate_two: "replicate 2 x = [x, x]"
  by (simp add: numeral_2_eq_2)

lemma wf_one_full: "wf_buf one_full (one_full_store fs)"
  by (simp add: wf_buf_def one_full_def one_full_store_def alloc_limit_def live_ok_def pad_def)

lemma contents_one_full: "contents one_full (one_full_store fs) = [Some 7]"
  by (simp add: contents_def at_index_def index_slot_def obj_at_def cell_def
      one_full_def one_full_store_def)

lemma push_back_one_full_throws:
  "push_back one_full (Local 5) (one_full_store [False, False, True]) =
   Some (Thrown element_error
     (\<lparr>cb_data = Some 1, cb_capacity = 2, cb_head = 0, cb_size = 1\<rparr>,
      \<lparr>heap = (\<lambda>a. None)(1 \<mapsto> [Some 7, None]), brk = 2, faults = [], sizeof_T = 8\<rparr>))"
  by (simp add: push_back.simps uninitialized_copy.simps clear.simps one_full_def
      one_full_store_def eval_simps alloc_limit_small replicate_two)

section \<open>A push of an element of the buffer itself\<close>

lemma push_back_first:
  "run_ops [Push_back (Local 1)] circular_buffer empty_store =
     Some (Done () (\<lparr>cb_data = Some 0, cb_capacity = 1, cb_head = 0, cb_size = 1\<rparr>,
       \<lparr>heap = (\<lambda>a. None)(0 \<mapsto> [Some 1]), brk = 1, faults = [], sizeof_T = 8\<rparr>))"
  by (simp add: push_back.simps uninitialized_copy.simps clear.simps circular_buffer_def
      empty_store_def eval_simps alloc_limit_small alloc_limit_pos)

lemma push_back_own_element:
  "run_ops [Push_back (Local 1), Push_back (Slot 0 0)] circular_buffer empty_store =
     Some Undefined"
  by (simp add: push_back.simps uninitialized_copy.simps clear.simps circular_buffer_def
      empty_store_def eval_simps alloc_limit_small alloc_limit_pos replicate_two)

lemma push_front_own_element:
  "run_ops [Push_back (Local 1), Push_front (Slot 0 0)] circular_buffer empty_store =
     Some Undefined"
  by (simp add: push_back.simps push_front.simps uninitialized_copy.simps clear.simps
      circular_buffer_def empty_store_def eval_simps alloc_limit_small alloc_limit_pos
      replicate_two)

text \<open>
  C1, on the sequence \<open>b.push_back(1); b.push_back(b[0]);\<close> from a default constructed
  buffer \<open>b\<close>. The first push leaves one element, in slot \<open>0\<close> of the block at \<open>0\<close>:
  that slot is what \<open>b[0]\<close> refers to, and it reads \<open>1\<close>. The second push finds the
  buffer full and grows it, which destroys the element and releases the block, and only
  then copies from its argument: the read goes through a dangling reference, and the
  sequence has no defined behaviour. The reference deque holds \<open>[1, 1]\<close> after the same
  sequence.
\<close>

theorem push_back_own_element_undefined:
  "run_ops [Push_back (Local 1)] circular_buffer empty_store =
     Some (Done () (\<lparr>cb_data = Some 0, cb_capacity = 1, cb_head = 0, cb_size = 1\<rparr>,
       \<lparr>heap = (\<lambda>a. None)(0 \<mapsto> [Some 1]), brk = 1, faults = [], sizeof_T = 8\<rparr>)) \<and>
   read_ref (Slot 0 0) \<lparr>heap = (\<lambda>a. None)(0 \<mapsto> [Some (1::nat)]), brk = 1, faults = [], sizeof_T = 8\<rparr> =
     Some 1 \<and>
   run_ops [Push_back (Local 1), Push_back (Slot 0 0)] circular_buffer empty_store =
     Some Undefined \<and>
   deque_run [Push_back (1::nat), Push_back 1] [] = [1, 1]"
proof -
  have "read_ref (Slot 0 0) \<lparr>heap = (\<lambda>a. None)(0 \<mapsto> [Some (1::nat)]), brk = 1, faults = [], sizeof_T = 8\<rparr> =
      Some 1"
    by (simp add: read_ref_def obj_at_def cell_def)
  moreover have "deque_run [Push_back (1::nat), Push_back 1] [] = [1, 1]" by simp
  ultimately show ?thesis using push_back_first push_back_own_element by blast
qed

section \<open>Errors and growth of a push\<close>

text \<open>
  C2, on the full buffer \<open>one_full\<close> of capacity \<open>1\<close>. \<open>push_back(5)\<close> first grows
  the buffer (the allocation and the copy of the old element succeed) and then the copy
  of the new element throws: the call leaves by that exception with capacity \<open>2\<close>, not
  with the capacity \<open>1\<close> it had before the call.
\<close>

theorem push_back_throws_after_growth:
  "cb_capacity one_full = 1 \<and>
   map_option (cb_capacity \<circ> fst)
     (thrown_state (push_back one_full (Local 5) (one_full_store [False, False, True]))) = Some 2"
  by (simp add: push_back_one_full_throws thrown_state_def) (simp add: one_full_def)

text \<open>
  What a push that throws does keep: when \<open>push_back(v)\<close> or \<open>push_front(v)\<close> on a
  well-formed buffer leaves by an exception, the buffer is well formed and has the
  logical content and the size it had before the call. Its capacity is the old one, or,
  when the buffer was full and the growth had succeeded before the exception, the grown
  one: \<open>1\<close> from \<open>0\<close> and \<open>2c\<close> from \<open>c > 0\<close>.
\<close>

lemma push_error_keeps_content:
  assumes "wf_buf b m"
  shows "(\<forall>e b' m'. push_back b (Local v) m = Some (Thrown e (b', m')) \<longrightarrow>
            wf_buf b' m' \<and> contents b' m' = contents b m \<and> cb_size b' = cb_size b \<and>
            (cb_capacity b' = cb_capacity b \<or>
             cb_size b = cb_capacity b \<and>
             unat (cb_capacity b') = (if cb_capacity b = 0 then 1 else 2 * unat (cb_capacity b)))) \<and>
         (\<forall>e b' m'. push_front b (Local v) m = Some (Thrown e (b', m')) \<longrightarrow>
            wf_buf b' m' \<and> contents b' m' = contents b m \<and> cb_size b' = cb_size b \<and>
            (cb_capacity b' = cb_capacity b \<or>
             cb_size b = cb_capacity b \<and>
             unat (cb_capacity b') = (if cb_capacity b = 0 then 1 else 2 * unat (cb_capacity b))))"
proof (intro conjI allI impI)
  fix e b' m'
  assume r: "push_back b (Local v) m = Some (Thrown e (b', m'))"
  from push_back_spec [OF assms, of v] r
  have p: "step_ok b m b' m'" "contents b' m' = contents b m" "cb_size b' = cb_size b"
    "cb_capacity b' = cb_capacity b \<or> cb_size b = cb_capacity b \<and>
       cb_capacity b' = (if cb_capacity b = 0 then 1 else cb_capacity b * 2)"
    by auto
  show "wf_buf b' m'" by (rule step_ok_wf [OF p(1)])
  show "contents b' m' = contents b m" "cb_size b' = cb_size b" by (rule p(2), rule p(3))
  show "cb_capacity b' = cb_capacity b \<or> cb_size b = cb_capacity b \<and>
      unat (cb_capacity b') = (if cb_capacity b = 0 then 1 else 2 * unat (cb_capacity b))"
    using p(4) grow_target(2) [OF assms] by auto
next
  fix e b' m'
  assume r: "push_front b (Local v) m = Some (Thrown e (b', m'))"
  from push_front_spec [OF assms, of v] r
  have p: "step_ok b m b' m'" "contents b' m' = contents b m" "cb_size b' = cb_size b"
    "cb_capacity b' = cb_capacity b \<or> cb_size b = cb_capacity b \<and>
       cb_capacity b' = (if cb_capacity b = 0 then 1 else cb_capacity b * 2)"
    by auto
  show "wf_buf b' m'" by (rule step_ok_wf [OF p(1)])
  show "contents b' m' = contents b m" "cb_size b' = cb_size b" by (rule p(2), rule p(3))
  show "cb_capacity b' = cb_capacity b \<or> cb_size b = cb_capacity b \<and>
      unat (cb_capacity b') = (if cb_capacity b = 0 then 1 else 2 * unat (cb_capacity b))"
    using p(4) grow_target(2) [OF assms] by auto
qed

lemma push_error_keeps_content_example:
  "wf_buf one_full (one_full_store [False, False, True]) \<and>
   push_back one_full (Local 5) (one_full_store [False, False, True]) =
     Some (Thrown element_error
       (\<lparr>cb_data = Some 1, cb_capacity = 2, cb_head = 0, cb_size = 1\<rparr>,
        \<lparr>heap = (\<lambda>a. None)(1 \<mapsto> [Some 7, None]), brk = 2, faults = [], sizeof_T = 8\<rparr>)) \<and>
   contents \<lparr>cb_data = Some 1, cb_capacity = 2, cb_head = 0, cb_size = 1\<rparr>
     \<lparr>heap = (\<lambda>a. None)(1 \<mapsto> [Some 7, None]), brk = 2, faults = [], sizeof_T = 8\<rparr> = [Some (7::nat)] \<and>
   cb_size \<lparr>cb_data = Some 1, cb_capacity = 2, cb_head = 0, cb_size = 1\<rparr> = cb_size one_full"
proof -
  note w = wf_one_full [of "[False, False, True]"]
  from push_error_keeps_content [OF w, of 5] push_back_one_full_throws
  show ?thesis using w contents_one_full [of "[False, False, True]"] by simp
qed

section \<open>The shifting loops keep the buffer well formed\<close>

lemma keeps_refl: "wf_buf b m \<Longrightarrow> keeps b m m"
  by (simp add: keeps_def)

lemma keeps_trans: "keeps b m m1 \<Longrightarrow> keeps b m1 m2 \<Longrightarrow> keeps b m m2"
  by (simp add: keeps_def)

lemma keeps_wf: "keeps b m m' \<Longrightarrow> wf_buf b m'"
  by (simp add: keeps_def)

lemma keeps_step: "keeps b m m' \<Longrightarrow> step_ok b m b m'"
  by (rule step_ok_same) (simp_all add: keeps_def)

lemma keeps_iter_swap:
  assumes "wf_buf b m" "iter_swap this b i j m = Done u m'"
  shows "keeps b m m'"
  using iter_swap_Done [OF assms] by (simp add: keeps_def)

lemma keeps_iter_swap_Thrown:
  assumes "wf_buf b m" "iter_swap this b i j m = Thrown e m'"
  shows "keeps b m m'"
  using iter_swap_Thrown [OF assms] by (simp add: keeps_def)

lemma loop_ok_step:
  assumes wf: "wf_buf b m"
    and ih: "\<And>m'. wf_buf b m' \<Longrightarrow> f m' = Some r \<Longrightarrow> loop_ok b m' r"
    and r: "(case iter_swap this b i j m of
               Done x m' \<Rightarrow> f m'
             | Thrown e m' \<Rightarrow> Some (Thrown e m')
             | Undefined \<Rightarrow> Some Undefined) = Some r"
  shows "loop_ok b m r"
proof (cases "iter_swap this b i j m")
  case (Done u m1)
  note k = keeps_iter_swap [OF wf Done]
  from r Done have "f m1 = Some r" by simp
  from ih [OF keeps_wf [OF k] this] show ?thesis
    using keeps_trans [OF k] by (auto simp: loop_ok_def split: outcome.splits)
next
  case (Thrown e m1)
  from r Thrown have "r = Thrown e m1" by simp
  then show ?thesis using keeps_iter_swap_Thrown [OF wf Thrown]
    by (simp add: loop_ok_def)
next
  case Undefined
  from r Undefined have "r = Undefined" by simp
  then show ?thesis by (simp add: loop_ok_def)
qed

lemma insert_fwd_ok:
  assumes "insert_fwd this b i spot m = Some r" "wf_buf b m"
  shows "loop_ok b m r"
proof -
  have "wf_buf b m \<longrightarrow> loop_ok b m r"
  proof (rule insert_fwd.raw_induct
      [where P = "\<lambda>this b i spot m r. wf_buf b m \<longrightarrow> loop_ok b m r", OF _ assms(1)],
      goal_cases)
    case (1 f this b i spot m r)
    show ?case
    proof
      assume wf: "wf_buf b m"
      show "loop_ok b m r"
      proof (cases "it_lt i spot")
        case True
        have ih: "\<And>m'. wf_buf b m' \<Longrightarrow> f this b (it_inc i) spot m' = Some r \<Longrightarrow> loop_ok b m' r"
          using 1(1) by blast
        have eq: "(case iter_swap this b i (it_plus i 1) m of
                     Done x m' \<Rightarrow> f this b (it_inc i) spot m'
                   | Thrown e m' \<Rightarrow> Some (Thrown e m')
                   | Undefined \<Rightarrow> Some Undefined) = Some r"
          using 1(2) True by simp
        show ?thesis
          by (rule loop_ok_step [OF wf ih eq])
      next
        case False
        then have "r = Done () m" using 1(2) by simp
        then show ?thesis using wf by (simp add: loop_ok_def keeps_refl)
      qed
    qed
  qed
  then show ?thesis using assms(2) by simp
qed

lemma insert_bwd_ok:
  assumes "insert_bwd this b i spot m = Some r" "wf_buf b m"
  shows "loop_ok b m r"
proof -
  have "wf_buf b m \<longrightarrow> loop_ok b m r"
  proof (rule insert_bwd.raw_induct
      [where P = "\<lambda>this b i spot m r. wf_buf b m \<longrightarrow> loop_ok b m r", OF _ assms(1)],
      goal_cases)
    case (1 f this b i spot m r)
    show ?case
    proof
      assume wf: "wf_buf b m"
      show "loop_ok b m r"
      proof (cases "it_gt i spot")
        case True
        have ih: "\<And>m'. wf_buf b m' \<Longrightarrow> f this b (it_dec i) spot m' = Some r \<Longrightarrow> loop_ok b m' r"
          using 1(1) by blast
        have eq: "(case iter_swap this b i (it_minus i 1) m of
                     Done x m' \<Rightarrow> f this b (it_dec i) spot m'
                   | Thrown e m' \<Rightarrow> Some (Thrown e m')
                   | Undefined \<Rightarrow> Some Undefined) = Some r"
          using 1(2) True by simp
        show ?thesis
          by (rule loop_ok_step [OF wf ih eq])
      next
        case False
        then have "r = Done () m" using 1(2) by simp
        then show ?thesis using wf by (simp add: loop_ok_def keeps_refl)
      qed
    qed
  qed
  then show ?thesis using assms(2) by simp
qed

lemma erase_left_ok:
  assumes "erase_left this b i delta m = Some r" "wf_buf b m"
  shows "loop_ok b m r"
proof -
  have "wf_buf b m \<longrightarrow> loop_ok b m r"
  proof (rule erase_left.raw_induct
      [where P = "\<lambda>this b i delta m r. wf_buf b m \<longrightarrow> loop_ok b m r", OF _ assms(1)],
      goal_cases)
    case (1 f this b i delta m r)
    show ?case
    proof
      assume wf: "wf_buf b m"
      show "loop_ok b m r"
      proof (cases "it_lt (it_plus i delta) (end_cb this b)")
        case True
        have ih: "\<And>m'. wf_buf b m' \<Longrightarrow> f this b (it_inc i) delta m' = Some r \<Longrightarrow> loop_ok b m' r"
          using 1(1) by blast
        have eq: "(case iter_swap this b i (it_plus i delta) m of
                     Done x m' \<Rightarrow> f this b (it_inc i) delta m'
                   | Thrown e m' \<Rightarrow> Some (Thrown e m')
                   | Undefined \<Rightarrow> Some Undefined) = Some r"
          using 1(2) True by simp
        show ?thesis
          by (rule loop_ok_step [OF wf ih eq])
      next
        case False
        then have "r = Done () m" using 1(2) by simp
        then show ?thesis using wf by (simp add: loop_ok_def keeps_refl)
      qed
    qed
  qed
  then show ?thesis using assms(2) by simp
qed

lemma erase_right_ok:
  assumes "erase_right this b i delta m = Some r" "wf_buf b m"
  shows "loop_ok b m r"
proof -
  have "wf_buf b m \<longrightarrow> loop_ok b m r"
  proof (rule erase_right.raw_induct
      [where P = "\<lambda>this b i delta m r. wf_buf b m \<longrightarrow> loop_ok b m r", OF _ assms(1)],
      goal_cases)
    case (1 f this b i delta m r)
    show ?case
    proof
      assume wf: "wf_buf b m"
      show "loop_ok b m r"
      proof (cases "it_ge i (it_plus (begin_cb this) delta)")
        case True
        have ih: "\<And>m'. wf_buf b m' \<Longrightarrow> f this b (it_dec i) delta m' = Some r \<Longrightarrow> loop_ok b m' r"
          using 1(1) by blast
        have eq: "(case iter_swap this b i (it_minus i delta) m of
                     Done x m' \<Rightarrow> f this b (it_dec i) delta m'
                   | Thrown e m' \<Rightarrow> Some (Thrown e m')
                   | Undefined \<Rightarrow> Some Undefined) = Some r"
          using 1(2) True by simp
        show ?thesis
          by (rule loop_ok_step [OF wf ih eq])
      next
        case False
        then have "r = Done () m" using 1(2) by simp
        then show ?thesis using wf by (simp add: loop_ok_def keeps_refl)
      qed
    qed
  qed
  then show ?thesis using assms(2) by simp
qed

section \<open>The popping loops\<close>

lemma pop_back_n_ok:
  "wf_buf b m \<Longrightarrow> call_ok b m (pop_back_n b i delta m)"
proof (induction b i delta m rule: pop_back_n.induct)
  case (1 b i delta m)
  show ?case
  proof (cases "i < sint delta")
    case False
    then have "pop_back_n b i delta m = Done () (b, m)" by (subst pop_back_n.simps) simp
    then show ?thesis using 1(2) by (simp add: call_ok_def step_ok_refl)
  next
    case True
    show ?thesis
    proof (cases "pop_back b m")
      case (Done u s)
      obtain b1 m1 where s: "s = (b1, m1)" by (cases s)
      note st = step_ok_pop_back [OF 1(2) Done [unfolded s]]
      show ?thesis
      proof (cases "i = INT_MAX")
        case True
        then have "pop_back_n b i delta m = Undefined"
          using \<open>i < sint delta\<close> Done s by (subst pop_back_n.simps) simp
        then show ?thesis by (simp add: call_ok_def)
      next
        case False
        from 1(1) [OF True Done s [symmetric] False step_ok_wf [OF st]]
        have "call_ok b1 m1 (pop_back_n b1 (i + 1) delta m1)" .
        moreover have "pop_back_n b i delta m = pop_back_n b1 (i + 1) delta m1"
          using True Done s False by (subst pop_back_n.simps) simp
        ultimately show ?thesis
          using step_ok_trans [OF st] by (auto simp: call_ok_def split: outcome.splits)
      qed
    next
      case (Thrown e s)
      then show ?thesis using pop_back_not_Thrown by blast
    next
      case Undefined
      then have "pop_back_n b i delta m = Undefined"
        using True by (subst pop_back_n.simps) simp
      then show ?thesis by (simp add: call_ok_def)
    qed
  qed
qed

lemma pop_front_n_ok:
  "wf_buf b m \<Longrightarrow> call_ok b m (pop_front_n b i delta m)"
proof (induction b i delta m rule: pop_front_n.induct)
  case (1 b i delta m)
  show ?case
  proof (cases "i < sint delta")
    case False
    then have "pop_front_n b i delta m = Done () (b, m)" by (subst pop_front_n.simps) simp
    then show ?thesis using 1(2) by (simp add: call_ok_def step_ok_refl)
  next
    case True
    show ?thesis
    proof (cases "pop_front b m")
      case (Done u s)
      obtain b1 m1 where s: "s = (b1, m1)" by (cases s)
      note st = step_ok_pop_front [OF 1(2) Done [unfolded s]]
      show ?thesis
      proof (cases "i = INT_MAX")
        case True
        then have "pop_front_n b i delta m = Undefined"
          using \<open>i < sint delta\<close> Done s by (subst pop_front_n.simps) simp
        then show ?thesis by (simp add: call_ok_def)
      next
        case False
        from 1(1) [OF True Done s [symmetric] False step_ok_wf [OF st]]
        have "call_ok b1 m1 (pop_front_n b1 (i + 1) delta m1)" .
        moreover have "pop_front_n b i delta m = pop_front_n b1 (i + 1) delta m1"
          using True Done s False by (subst pop_front_n.simps) simp
        ultimately show ?thesis
          using step_ok_trans [OF st] by (auto simp: call_ok_def split: outcome.splits)
      qed
    next
      case (Thrown e s)
      then show ?thesis using pop_front_not_Thrown by blast
    next
      case Undefined
      then have "pop_front_n b i delta m = Undefined"
        using True by (subst pop_front_n.simps) simp
      then show ?thesis by (simp add: call_ok_def)
    qed
  qed
qed

section \<open>Every member function keeps the buffer well formed\<close>

lemma call_ok_trans:
  assumes "step_ok b m b1 m1" "call_ok b1 m1 r"
  shows "call_ok b m r"
  using assms step_ok_trans [OF assms(1)]
  by (auto simp: call_ok_def split: outcome.splits)

text \<open>
  A push with any reference either has no defined behaviour or does what the push of a
  value does: the reference is read once, when the element is built.
\<close>

lemma push_back_room_any:
  assumes ne: "cb_size b \<noteq> cb_capacity b" and r: "push_back b val m = Some r"
  shows "r = Undefined \<or> (\<exists>v. push_back b (Local v) m = Some r)"
proof (cases "tail b")
  case None
  then have "r = Undefined" using r ne by (subst (asm) push_back.simps) simp
  then show ?thesis by simp
next
  case (Some t)
  have unf: "\<And>val. push_back b val m =
      (case construct_from (cb_data b) t val m of
         Done _ m' \<Rightarrow> Some (Done () (b\<lparr>cb_size := cb_size b + 1\<rparr>, m'))
       | Thrown e m' \<Rightarrow> Some (Thrown e (b, m'))
       | Undefined \<Rightarrow> Some Undefined)"
    using ne Some by (subst push_back.simps) simp
  from construct_from_cases [of "cb_data b" t val m] show ?thesis
  proof
    assume "construct_from (cb_data b) t val m = Undefined"
    then show ?thesis using r unf [of val] by simp
  next
    assume "\<exists>v. construct_from (cb_data b) t val m = construct_at (cb_data b) t v m"
    then obtain v where "construct_from (cb_data b) t val m = construct_at (cb_data b) t v m" ..
    then have "push_back b (Local v) m = push_back b val m"
      unfolding unf [of val] unf [of "Local v"] by simp
    then show ?thesis using r by auto
  qed
qed

lemma push_front_room_any:
  assumes ne: "cb_size b \<noteq> cb_capacity b" and r: "push_front b val m = Some r"
  shows "r = Undefined \<or> (\<exists>v. push_front b (Local v) m = Some r)"
proof (cases "cb_capacity b = 0")
  case True
  then have "r = Undefined" using r ne by (subst (asm) push_front.simps) simp
  then show ?thesis by simp
next
  case False
  let ?t = "unat ((cb_head b + cb_capacity b - 1) mod cb_capacity b)"
  have unf: "\<And>val. push_front b val m =
      (case construct_from (cb_data b) ?t val m of
         Done _ m' \<Rightarrow>
           Some (Done () (b\<lparr>cb_head := (cb_head b + cb_capacity b - 1) mod cb_capacity b,
                            cb_size := cb_size b + 1\<rparr>, m'))
       | Thrown e m' \<Rightarrow> Some (Thrown e (b, m'))
       | Undefined \<Rightarrow> Some Undefined)"
    using ne False by (subst push_front.simps) simp
  from construct_from_cases [of "cb_data b" ?t val m] show ?thesis
  proof
    assume "construct_from (cb_data b) ?t val m = Undefined"
    then show ?thesis using r unf [of val] by simp
  next
    assume "\<exists>v. construct_from (cb_data b) ?t val m = construct_at (cb_data b) ?t v m"
    then obtain v where "construct_from (cb_data b) ?t val m = construct_at (cb_data b) ?t v m" ..
    then have "push_front b (Local v) m = push_front b val m"
      unfolding unf [of val] unf [of "Local v"] by simp
    then show ?thesis using r by auto
  qed
qed

lemma push_back_any:
  assumes wf: "wf_buf b m" and r: "push_back b val m = Some r"
  shows "r = Undefined \<or> (\<exists>v. push_back b (Local v) m = Some r)"
proof (cases "cb_size b = cb_capacity b")
  case False
  then show ?thesis using r by (rule push_back_room_any)
next
  case True
  let ?n = "if cb_capacity b = 0 then 1 else cb_capacity b * 2"
  have unf: "\<And>val. push_back b val m =
      (case ensure_capacity b ?n m of
         Done _ (b', m') \<Rightarrow> push_back b' val m'
       | Thrown e s \<Rightarrow> Some (Thrown e s)
       | Undefined \<Rightarrow> Some Undefined)"
    using True by (subst push_back.simps) simp
  show ?thesis
  proof (cases "ensure_capacity b ?n m")
    case (Done u s)
    obtain b1 m1 where s: "s = (b1, m1)" by (cases s)
    from ensure_capacity_spec [OF wf, of ?n] Done s grow_target(1) [OF wf] True
    have ne1: "cb_size b1 \<noteq> cb_capacity b1" by auto
    have e: "\<And>val. push_back b val m = push_back b1 val m1" using unf Done s by simp
    from push_back_room_any [OF ne1 r [unfolded e]] show ?thesis unfolding e .
  next
    case (Thrown e s)
    then have "\<And>val. push_back b val m = Some (Thrown e s)" using unf by simp
    then show ?thesis using r by auto
  next
    case Undefined
    then have "push_back b val m = Some Undefined" using unf by simp
    then show ?thesis using r by simp
  qed
qed

lemma push_front_any:
  assumes wf: "wf_buf b m" and r: "push_front b val m = Some r"
  shows "r = Undefined \<or> (\<exists>v. push_front b (Local v) m = Some r)"
proof (cases "cb_size b = cb_capacity b")
  case False
  then show ?thesis using r by (rule push_front_room_any)
next
  case True
  let ?n = "if cb_capacity b = 0 then 1 else cb_capacity b * 2"
  have unf: "\<And>val. push_front b val m =
      (case ensure_capacity b ?n m of
         Done _ (b', m') \<Rightarrow> push_front b' val m'
       | Thrown e s \<Rightarrow> Some (Thrown e s)
       | Undefined \<Rightarrow> Some Undefined)"
    using True by (subst push_front.simps) simp
  show ?thesis
  proof (cases "ensure_capacity b ?n m")
    case (Done u s)
    obtain b1 m1 where s: "s = (b1, m1)" by (cases s)
    from ensure_capacity_spec [OF wf, of ?n] Done s grow_target(1) [OF wf] True
    have ne1: "cb_size b1 \<noteq> cb_capacity b1" by auto
    have e: "\<And>val. push_front b val m = push_front b1 val m1" using unf Done s by simp
    from push_front_room_any [OF ne1 r [unfolded e]] show ?thesis unfolding e .
  next
    case (Thrown e s)
    then have "\<And>val. push_front b val m = Some (Thrown e s)" using unf by simp
    then show ?thesis using r by auto
  next
    case Undefined
    then have "push_front b val m = Some Undefined" using unf by simp
    then show ?thesis using r by simp
  qed
qed

lemma call_ok_push_back:
  assumes "wf_buf b m" "push_back b val m = Some r"
  shows "call_ok b m r"
proof -
  from push_back_any [OF assms] show ?thesis
  proof
    assume "r = Undefined"
    then show ?thesis by (simp add: call_ok_def)
  next
    assume "\<exists>v. push_back b (Local v) m = Some r"
    then obtain v where "push_back b (Local v) m = Some r" ..
    with push_back_spec [OF assms(1), of v] show ?thesis by (auto simp: call_ok_def)
  qed
qed

lemma call_ok_push_front:
  assumes "wf_buf b m" "push_front b val m = Some r"
  shows "call_ok b m r"
proof -
  from push_front_any [OF assms] show ?thesis
  proof
    assume "r = Undefined"
    then show ?thesis by (simp add: call_ok_def)
  next
    assume "\<exists>v. push_front b (Local v) m = Some r"
    then obtain v where "push_front b (Local v) m = Some r" ..
    with push_front_spec [OF assms(1), of v] show ?thesis by (auto simp: call_ok_def)
  qed
qed

section \<open>Growth of a push\<close>

text \<open>
  C3. A push on a well-formed buffer whose size equals its capacity, when it returns,
  leaves the capacity \<open>1\<close> if it was \<open>0\<close> and \<open>2c\<close> if it was \<open>c > 0\<close>, whatever
  its argument refers to; and the push of a value (an object that is not an element of
  a buffer) does return when no step is made to fail and the block of the new capacity,
  \<open>sizeof(T)\<close> times \<open>1\<close> or \<open>2c\<close> bytes, is within what the allocator serves.
\<close>

theorem push_full_capacity:
  assumes "wf_buf b m" "cb_size b = cb_capacity b"
  shows "(\<forall>u b' m'. push_back b val m = Some (Done u (b', m')) \<longrightarrow>
            unat (cb_capacity b') = (if cb_capacity b = 0 then 1 else 2 * unat (cb_capacity b))) \<and>
         (\<forall>u b' m'. push_front b val m = Some (Done u (b', m')) \<longrightarrow>
            unat (cb_capacity b') = (if cb_capacity b = 0 then 1 else 2 * unat (cb_capacity b))) \<and>
         (faults m = [] \<and>
          fits m (if cb_capacity b = 0 then 1 else 2 * unat (cb_capacity b)) \<longrightarrow>
            (\<exists>b' m'. push_back b (Local v) m = Some (Done () (b', m'))) \<and>
            (\<exists>b' m'. push_front b (Local v) m = Some (Done () (b', m'))))"
proof (intro conjI allI impI)
  fix u b' m'
  assume r: "push_back b val m = Some (Done u (b', m'))"
  from push_back_any [OF assms(1) r] obtain x where
    "push_back b (Local x) m = Some (Done u (b', m'))" by auto
  with push_back_spec [OF assms(1), of x] assms(2)
  have "cb_capacity b' = (if cb_capacity b = 0 then 1 else cb_capacity b * 2)" by auto
  then show "unat (cb_capacity b') = (if cb_capacity b = 0 then 1 else 2 * unat (cb_capacity b))"
    using grow_target(2) [OF assms] by simp
next
  fix u b' m'
  assume r: "push_front b val m = Some (Done u (b', m'))"
  from push_front_any [OF assms(1) r] obtain x where
    "push_front b (Local x) m = Some (Done u (b', m'))" by auto
  with push_front_spec [OF assms(1), of x] assms(2)
  have "cb_capacity b' = (if cb_capacity b = 0 then 1 else cb_capacity b * 2)" by auto
  then show "unat (cb_capacity b') = (if cb_capacity b = 0 then 1 else 2 * unat (cb_capacity b))"
    using grow_target(2) [OF assms] by simp
next
  assume a: "faults m = [] \<and>
    fits m (if cb_capacity b = 0 then 1 else 2 * unat (cb_capacity b))"
  then have "\<not> (faults m \<noteq> [] \<or> \<not> room_for_push b m)" "room_for_push b m"
    using assms(2) by (simp_all add: room_for_push_def)
  with push_back_spec [OF assms(1), of v]
  show "\<exists>b' m'. push_back b (Local v) m = Some (Done () (b', m'))" by blast
next
  assume a: "faults m = [] \<and>
    fits m (if cb_capacity b = 0 then 1 else 2 * unat (cb_capacity b))"
  then have "\<not> (faults m \<noteq> [] \<or> \<not> room_for_push b m)" "room_for_push b m"
    using assms(2) by (simp_all add: room_for_push_def)
  with push_front_spec [OF assms(1), of v]
  show "\<exists>b' m'. push_front b (Local v) m = Some (Done () (b', m'))" by blast
qed

theorem push_full_capacity_witness:
  "wf_buf one_full (one_full_store []) \<and> cb_size one_full = cb_capacity one_full \<and>
   (\<exists>b' m'. push_back one_full (Local 5) (one_full_store []) = Some (Done () (b', m')) \<and>
      unat (cb_capacity b') = 2) \<and>
   (\<exists>b' m'. push_front one_full (Local 5) (one_full_store []) = Some (Done () (b', m')) \<and>
      unat (cb_capacity b') = 2)"
proof -
  note w = wf_one_full [of "[]"]
  have e: "cb_size one_full = cb_capacity one_full" by (simp add: one_full_def)
  have f: "faults (one_full_store []) = [] \<and>
      fits (one_full_store [])
        (if cb_capacity one_full = 0 then 1 else 2 * unat (cb_capacity one_full))"
    by (simp add: one_full_store_def one_full_def alloc_limit_def fits_def)
  have c: "(if cb_capacity one_full = 0 then 1 else 2 * unat (cb_capacity one_full)) = 2"
    by (simp add: one_full_def)
  from push_full_capacity [OF w e, of "Local 5" 5] f c
  show ?thesis using w e by (metis (no_types, lifting))
qed

section \<open>The other member functions keep the buffer well formed\<close>

lemma call_ok_pop_back:
  assumes "wf_buf b m"
  shows "call_ok b m (pop_back b m)"
proof (cases "pop_back b m")
  case (Done u s)
  then show ?thesis using step_ok_pop_back [OF assms] by (cases s) (simp add: call_ok_def)
next
  case (Thrown e s)
  then show ?thesis using pop_back_not_Thrown by blast
next
  case Undefined
  then show ?thesis by (simp add: call_ok_def)
qed

lemma call_ok_pop_front:
  assumes "wf_buf b m"
  shows "call_ok b m (pop_front b m)"
proof (cases "pop_front b m")
  case (Done u s)
  then show ?thesis using step_ok_pop_front [OF assms] by (cases s) (simp add: call_ok_def)
next
  case (Thrown e s)
  then show ?thesis using pop_front_not_Thrown by blast
next
  case Undefined
  then show ?thesis by (simp add: call_ok_def)
qed

lemma call_ok_apply_op:
  assumes "wf_buf b m" "apply_op x b m = Some r"
  shows "call_ok b m r"
proof (cases x)
  case (Push_back v)
  then show ?thesis using call_ok_push_back [OF assms(1)] assms(2) by simp
next
  case (Push_front v)
  then show ?thesis using call_ok_push_front [OF assms(1)] assms(2) by simp
next
  case Pop_back
  then show ?thesis using call_ok_pop_back [OF assms(1)] assms(2) by auto
next
  case Pop_front
  then show ?thesis using call_ok_pop_front [OF assms(1)] assms(2) by auto
qed

lemma call_ok_reserve:
  assumes "wf_buf b m"
  shows "call_ok b m (reserve b n m)"
  using ensure_capacity_spec [OF assms, of n] by (auto simp: call_ok_def reserve_def)

lemma call_ok_clear:
  assumes "wf_buf b m"
  shows "call_ok b m (clear b m)"
proof -
  from clear_ok [OF assms] obtain m' where
    c: "clear b m = Done () (b\<lparr>cb_size := 0\<rparr>, m')" "wf_buf (b\<lparr>cb_size := 0\<rparr>) m'"
      "brk m' = brk m" "\<forall>x. Some x \<noteq> cb_data b \<longrightarrow> heap m' x = heap m x"
      "sizeof_T m' = sizeof_T m"
    by blast
  have "step_ok b m (b\<lparr>cb_size := 0\<rparr>) m'"
    by (rule step_ok_same) (use c in simp_all)
  then show ?thesis using c(1) by (simp add: call_ok_def)
qed

lemma call_ok_assign_at:
  assumes "wf_buf b m"
  shows "call_ok b m (assign_at b i v m)"
proof (cases "assign_at b i v m")
  case (Done u s)
  obtain b' m' where s: "s = (b', m')" by (cases s)
  note d = assign_at_Done [OF assms Done [unfolded s]]
  have "step_ok b m b' m'" by (rule step_ok_same) (use d in simp_all)
  then show ?thesis using Done s by (simp add: call_ok_def)
next
  case (Thrown e s)
  obtain b' m' where s: "s = (b', m')" by (cases s)
  note t = assign_at_Thrown [OF Thrown [unfolded s]]
  from step_ok_heap_same(1) [OF assms t(2,3,4)]
  show ?thesis using Thrown s t(1) by (simp add: call_ok_def)
next
  case Undefined
  then show ?thesis by (simp add: call_ok_def)
qed

lemma call_ok_after_push:
  assumes p: "call_ok b m pr"
    and r: "(case Some pr of
               None \<Rightarrow> None
             | Some (Done _ (b1, m1)) \<Rightarrow>
                 (case loop b1 m1 of
                    None \<Rightarrow> None
                  | Some (Done _ m2) \<Rightarrow> Some (Done (spot b1) (b1, m2))
                  | Some (Thrown e m2) \<Rightarrow> Some (Thrown e (b1, m2))
                  | Some Undefined \<Rightarrow> Some Undefined)
             | Some (Thrown e s) \<Rightarrow> Some (Thrown e s)
             | Some Undefined \<Rightarrow> Some Undefined) = Some r"
    and l: "\<And>b1 m1 lr. wf_buf b1 m1 \<Longrightarrow> loop b1 m1 = Some lr \<Longrightarrow> loop_ok b1 m1 lr"
  shows "call_ok b m r"
proof (cases pr)
  case (Done u s)
  obtain b1 m1 where s: "s = (b1, m1)" by (cases s)
  from p Done s have st: "step_ok b m b1 m1" by (simp add: call_ok_def)
  from r Done s obtain lr where lr: "loop b1 m1 = Some lr"
    by (cases "loop b1 m1") simp_all
  note lo = l [OF step_ok_wf [OF st] lr]
  show ?thesis
  proof (cases lr)
    case (Done u2 m2)
    then have "r = Done (spot b1) (b1, m2)" using r \<open>pr = Done u s\<close> s lr by simp
    moreover have "step_ok b m b1 m2"
      using lo Done step_ok_trans [OF st keeps_step] by (simp add: loop_ok_def)
    ultimately show ?thesis by (simp add: call_ok_def)
  next
    case (Thrown e m2)
    then have "r = Thrown e (b1, m2)" using r \<open>pr = Done u s\<close> s lr by simp
    moreover have "step_ok b m b1 m2"
      using lo Thrown step_ok_trans [OF st keeps_step] by (simp add: loop_ok_def)
    ultimately show ?thesis by (simp add: call_ok_def)
  next
    case Undefined
    then have "r = Undefined" using r \<open>pr = Done u s\<close> s lr by simp
    then show ?thesis by (simp add: call_ok_def)
  qed
next
  case (Thrown e s)
  then have "r = Thrown e s" using r by simp
  then show ?thesis using p Thrown by (simp add: call_ok_def)
next
  case Undefined
  then have "r = Undefined" using r by simp
  then show ?thesis by (simp add: call_ok_def)
qed

lemma call_ok_insert:
  assumes wf: "wf_buf b m" and r: "insert_cb this b pos val m = Some r"
  shows "call_ok b m r"
proof (cases "it_diff pos (begin_cb this) < cb_size b div 2")
  case True
  from r True obtain pr where pr: "push_front b val m = Some pr"
    by (cases "push_front b val m") (simp_all add: insert_cb_def)
  show ?thesis
  proof (rule call_ok_after_push
      [where loop = "\<lambda>b1 m1. insert_fwd this b1 (begin_cb this)
          (it_plus (begin_cb this) (it_diff pos (begin_cb this))) m1"
        and spot = "\<lambda>b1. it_plus (begin_cb this) (it_diff pos (begin_cb this))"])
    show "call_ok b m pr" by (rule call_ok_push_front [OF wf pr])
    show "(case Some pr of
             None \<Rightarrow> None
           | Some (Done _ (b1, m1)) \<Rightarrow>
               (case insert_fwd this b1 (begin_cb this)
                       (it_plus (begin_cb this) (it_diff pos (begin_cb this))) m1 of
                  None \<Rightarrow> None
                | Some (Done _ m2) \<Rightarrow>
                    Some (Done (it_plus (begin_cb this) (it_diff pos (begin_cb this))) (b1, m2))
                | Some (Thrown e m2) \<Rightarrow> Some (Thrown e (b1, m2))
                | Some Undefined \<Rightarrow> Some Undefined)
           | Some (Thrown e s) \<Rightarrow> Some (Thrown e s)
           | Some Undefined \<Rightarrow> Some Undefined) = Some r"
      using r True pr by (cases pr) (simp_all add: insert_cb_def Let_def split: prod.splits)
    show "\<And>b1 m1 lr. wf_buf b1 m1 \<Longrightarrow>
        insert_fwd this b1 (begin_cb this)
          (it_plus (begin_cb this) (it_diff pos (begin_cb this))) m1 = Some lr \<Longrightarrow>
        loop_ok b1 m1 lr"
      by (rule insert_fwd_ok)
  qed
next
  case False
  from r False obtain pr where pr: "push_back b val m = Some pr"
    by (cases "push_back b val m") (simp_all add: insert_cb_def)
  show ?thesis
  proof (rule call_ok_after_push
      [where loop = "\<lambda>b1 m1. insert_bwd this b1 (it_minus (end_cb this b1) 1)
          (it_plus (begin_cb this) (it_diff pos (begin_cb this))) m1"
        and spot = "\<lambda>b1. it_plus (begin_cb this) (it_diff pos (begin_cb this))"])
    show "call_ok b m pr" by (rule call_ok_push_back [OF wf pr])
    show "(case Some pr of
             None \<Rightarrow> None
           | Some (Done _ (b1, m1)) \<Rightarrow>
               (case insert_bwd this b1 (it_minus (end_cb this b1) 1)
                       (it_plus (begin_cb this) (it_diff pos (begin_cb this))) m1 of
                  None \<Rightarrow> None
                | Some (Done _ m2) \<Rightarrow>
                    Some (Done (it_plus (begin_cb this) (it_diff pos (begin_cb this))) (b1, m2))
                | Some (Thrown e m2) \<Rightarrow> Some (Thrown e (b1, m2))
                | Some Undefined \<Rightarrow> Some Undefined)
           | Some (Thrown e s) \<Rightarrow> Some (Thrown e s)
           | Some Undefined \<Rightarrow> Some Undefined) = Some r"
      using r False pr by (cases pr) (simp_all add: insert_cb_def Let_def split: prod.splits)
    show "\<And>b1 m1 lr. wf_buf b1 m1 \<Longrightarrow>
        insert_bwd this b1 (it_minus (end_cb this b1) 1)
          (it_plus (begin_cb this) (it_diff pos (begin_cb this))) m1 = Some lr \<Longrightarrow>
        loop_ok b1 m1 lr"
      by (rule insert_bwd_ok)
  qed
qed

lemma call_ok_after_shift:
  assumes wf: "wf_buf b m" and lo: "loop_ok b m lr"
    and p: "\<And>m1. wf_buf b m1 \<Longrightarrow> call_ok b m1 (pops m1)"
    and r: "(case Some lr of
               None \<Rightarrow> None
             | Some (Done _ m1) \<Rightarrow>
                 (case pops m1 of
                    Done _ s \<Rightarrow> Some (Done it s)
                  | Thrown e s \<Rightarrow> Some (Thrown e s)
                  | Undefined \<Rightarrow> Some Undefined)
             | Some (Thrown e m1) \<Rightarrow> Some (Thrown e (b, m1))
             | Some Undefined \<Rightarrow> Some Undefined) = Some r"
  shows "call_ok b m r"
proof (cases lr)
  case (Done u m1)
  from lo Done have k: "keeps b m m1" by (simp add: loop_ok_def)
  note c = call_ok_trans [OF keeps_step [OF k] p [OF keeps_wf [OF k]]]
  show ?thesis
  proof (cases "pops m1")
    case (Done u2 s)
    then have "r = Done it s" using r \<open>lr = Done u m1\<close> by simp
    then show ?thesis using c Done by (simp add: call_ok_def)
  next
    case (Thrown e s)
    then have "r = Thrown e s" using r \<open>lr = Done u m1\<close> by simp
    then show ?thesis using c Thrown by (simp add: call_ok_def)
  next
    case Undefined
    then have "r = Undefined" using r \<open>lr = Done u m1\<close> by simp
    then show ?thesis by (simp add: call_ok_def)
  qed
next
  case (Thrown e m1)
  then have "r = Thrown e (b, m1)" using r by simp
  moreover have "step_ok b m b m1"
    using lo Thrown keeps_step by (simp add: loop_ok_def)
  ultimately show ?thesis by (simp add: call_ok_def)
next
  case Undefined
  then have "r = Undefined" using r by simp
  then show ?thesis by (simp add: call_ok_def)
qed

lemma call_ok_erase:
  assumes wf: "wf_buf b m" and r: "erase this b first last_it m = Some r"
  shows "call_ok b m r"
proof (cases "it_diff (end_cb this b) last_it < cb_size b div 2")
  case True
  from r True obtain lr where lr: "erase_left this b first (it_diff last_it first) m = Some lr"
    by (cases "erase_left this b first (it_diff last_it first) m") (simp_all add: erase_def)
  show ?thesis
  proof (rule call_ok_after_shift [OF wf erase_left_ok [OF lr wf],
        where pops = "\<lambda>m1. pop_back_n b 0 (it_diff last_it first) m1" and it = first])
    show "\<And>m1. wf_buf b m1 \<Longrightarrow> call_ok b m1 (pop_back_n b 0 (it_diff last_it first) m1)"
      by (rule pop_back_n_ok)
    show "(case Some lr of
             None \<Rightarrow> None
           | Some (Done _ m1) \<Rightarrow>
               (case pop_back_n b 0 (it_diff last_it first) m1 of
                  Done _ s \<Rightarrow> Some (Done first s)
                | Thrown e s \<Rightarrow> Some (Thrown e s)
                | Undefined \<Rightarrow> Some Undefined)
           | Some (Thrown e m1) \<Rightarrow> Some (Thrown e (b, m1))
           | Some Undefined \<Rightarrow> Some Undefined) = Some r"
      using r True lr by (simp add: erase_def)
  qed
next
  case False
  show ?thesis
  proof (cases "it_diff last_it first \<noteq> 0")
    case nz: True
    from r False nz obtain lr where
      lr: "erase_right this b (it_minus last_it 1) (it_diff last_it first) m = Some lr"
      by (cases "erase_right this b (it_minus last_it 1) (it_diff last_it first) m")
        (simp_all add: erase_def)
    show ?thesis
    proof (rule call_ok_after_shift [OF wf erase_right_ok [OF lr wf],
          where pops = "\<lambda>m1. pop_front_n b 0 (it_diff last_it first) m1"
            and it = "it_plus (begin_cb this) (it_diff first (begin_cb this))"])
      show "\<And>m1. wf_buf b m1 \<Longrightarrow> call_ok b m1 (pop_front_n b 0 (it_diff last_it first) m1)"
        by (rule pop_front_n_ok)
      show "(case Some lr of
               None \<Rightarrow> None
             | Some (Done _ m1) \<Rightarrow>
                 (case pop_front_n b 0 (it_diff last_it first) m1 of
                    Done _ s \<Rightarrow> Some (Done (it_plus (begin_cb this) (it_diff first (begin_cb this))) s)
                  | Thrown e s \<Rightarrow> Some (Thrown e s)
                  | Undefined \<Rightarrow> Some Undefined)
             | Some (Thrown e m1) \<Rightarrow> Some (Thrown e (b, m1))
             | Some Undefined \<Rightarrow> Some Undefined) = Some r"
        using r False nz lr by (simp add: erase_def)
    qed
  next
    case z: False
    then have "r = Done first (b, m)" using r False by (simp add: erase_def)
    then show ?thesis using step_ok_refl [OF wf] by (simp add: call_ok_def)
  qed
qed

lemma call_ok_erase_pos:
  assumes "wf_buf b m" "erase_pos this b pos m = Some r"
  shows "call_ok b m r"
  using call_ok_erase [OF assms(1)] assms(2) by (simp add: erase_pos_def)

section \<open>Several buffers in one free store\<close>

lemma wf_buf_addr:
  assumes "wf_buf b m" "cb_data b = Some a"
  shows "a < brk m"
  using assms by (auto simp: wf_buf_def)

lemma wf_worldD:
  assumes "wf_world w"
  shows "objs w r = Some b \<Longrightarrow> wf_buf b (store w)"
    and "objs w r = Some b \<Longrightarrow> objs w r' = Some b' \<Longrightarrow> r \<noteq> r' \<Longrightarrow> cb_data b = Some a \<Longrightarrow>
      cb_data b' \<noteq> Some a"
    and "sizeof_T (store w) \<noteq> 0"
  using assms unfolding wf_world_def by blast+

text \<open>
  The state after a call that put the members \<open>b'\<close> at \<open>r\<close>: \<open>own\<close> is the block
  the object at \<open>r\<close> held before, if any.
\<close>

lemma wf_world_put:
  assumes wf: "wf_world w" and wf': "wf_buf b' m'"
    and own: "own = (case objs w r of None \<Rightarrow> None | Some b \<Rightarrow> cb_data b)"
    and mf: "mem_frame own (store w) m'"
    and df: "cb_data b' = own \<or> cb_data b' = None \<or>
      (\<exists>a. cb_data b' = Some a \<and> brk (store w) \<le> a)"
  shows "wf_world (w\<lparr>objs := (objs w)(r \<mapsto> b'), store := m'\<rparr>)"
    and "\<And>r2 b2. r2 \<noteq> r \<Longrightarrow> objs w r2 = Some b2 \<Longrightarrow>
      (\<forall>a. cb_data b2 = Some a \<longrightarrow> heap m' a = heap (store w) a)"
proof -
  have other: "\<And>r2 b2 a2. r2 \<noteq> r \<Longrightarrow> objs w r2 = Some b2 \<Longrightarrow> cb_data b2 = Some a2 \<Longrightarrow>
      a2 < brk (store w) \<and> Some a2 \<noteq> own"
  proof -
    fix r2 b2 a2
    assume n: "r2 \<noteq> r" and o: "objs w r2 = Some b2" and d: "cb_data b2 = Some a2"
    have lt: "a2 < brk (store w)" by (rule wf_buf_addr [OF wf_worldD(1) [OF wf o] d])
    have "Some a2 \<noteq> own"
    proof (cases "objs w r")
      case None
      then show ?thesis using own by simp
    next
      case (Some b)
      from wf_worldD(2) [OF wf o Some n d] show ?thesis using own Some by simp
    qed
    with lt show "a2 < brk (store w) \<and> Some a2 \<noteq> own" by simp
  qed
  show keep: "\<And>r2 b2. r2 \<noteq> r \<Longrightarrow> objs w r2 = Some b2 \<Longrightarrow>
      (\<forall>a. cb_data b2 = Some a \<longrightarrow> heap m' a = heap (store w) a)"
    using other mf unfolding mem_frame_def by blast
  have bk: "brk (store w) \<le> brk m'" and sz: "sizeof_T m' = sizeof_T (store w)"
    using mf by (simp_all add: mem_frame_def)
  show "wf_world (w\<lparr>objs := (objs w)(r \<mapsto> b'), store := m'\<rparr>)"
    unfolding wf_world_def
  proof (intro conjI allI impI)
    show "sizeof_T (store (w\<lparr>objs := (objs w)(r \<mapsto> b'), store := m'\<rparr>)) \<noteq> 0"
      using sz wf_worldD(3) [OF wf] by simp
  next
    fix r2 b2
    assume "objs (w\<lparr>objs := (objs w)(r \<mapsto> b'), store := m'\<rparr>) r2 = Some b2"
    then have c: "r2 = r \<and> b2 = b' \<or> r2 \<noteq> r \<and> objs w r2 = Some b2"
      by (auto split: if_splits)
    show "wf_buf b2 (store (w\<lparr>objs := (objs w)(r \<mapsto> b'), store := m'\<rparr>))"
    proof (cases "r2 = r")
      case True
      then show ?thesis using c wf' by simp
    next
      case False
      then have o: "objs w r2 = Some b2" using c by simp
      have "wf_buf b2 m'"
        by (rule wf_buf_frame [OF wf_worldD(1) [OF wf o]]) (use keep [OF False o] bk sz in auto)
      then show ?thesis by simp
    qed
  next
    fix r1 r2 b1 b2 a
    assume h: "objs (w\<lparr>objs := (objs w)(r \<mapsto> b'), store := m'\<rparr>) r1 = Some b1 \<and>
      objs (w\<lparr>objs := (objs w)(r \<mapsto> b'), store := m'\<rparr>) r2 = Some b2 \<and> r1 \<noteq> r2 \<and>
      cb_data b1 = Some a"
    show "cb_data b2 \<noteq> Some a"
    proof (cases "r1 = r")
      case True
      then have b1: "b1 = b'" and o2: "objs w r2 = Some b2" and n2: "r2 \<noteq> r"
        using h by (auto split: if_splits)
      show ?thesis
      proof
        assume d2: "cb_data b2 = Some a"
        from other [OF n2 o2 d2] df h b1 show False by auto
      qed
    next
      case False
      then have o1: "objs w r1 = Some b1" using h by (auto split: if_splits)
      show ?thesis
      proof (cases "r2 = r")
        case True
        then have "b2 = b'" using h by (auto split: if_splits)
        then show ?thesis using other [OF False o1] df h by auto
      next
        case n2: False
        then have o2: "objs w r2 = Some b2" using h by (auto split: if_splits)
        from wf_worldD(2) [OF wf o1 o2] h show ?thesis by blast
      qed
    qed
  qed
qed

lemma wf_world_update:
  assumes "wf_world w" "objs w r = Some b" "step_ok b (store w) b' m'"
  shows "wf_world (w\<lparr>objs := (objs w)(r \<mapsto> b'), store := m'\<rparr>)"
    and "\<And>r2 b2. r2 \<noteq> r \<Longrightarrow> objs w r2 = Some b2 \<Longrightarrow>
      (\<forall>a. cb_data b2 = Some a \<longrightarrow> heap m' a = heap (store w) a)"
proof -
  have own: "cb_data b = (case objs w r of None \<Rightarrow> None | Some b \<Rightarrow> cb_data b)"
    using assms(2) by simp
  from assms(3) have p: "wf_buf b' m'" "mem_frame (cb_data b) (store w) m'"
    "cb_data b' = cb_data b \<or> cb_data b' = None \<or>
      (\<exists>a. cb_data b' = Some a \<and> brk (store w) \<le> a)"
    by (simp_all add: step_ok_def data_frame_def)
  show "wf_world (w\<lparr>objs := (objs w)(r \<mapsto> b'), store := m'\<rparr>)"
    by (rule wf_world_put(1) [OF assms(1) p(1) own p(2,3)])
  show "\<And>r2 b2. r2 \<noteq> r \<Longrightarrow> objs w r2 = Some b2 \<Longrightarrow>
      (\<forall>a. cb_data b2 = Some a \<longrightarrow> heap m' a = heap (store w) a)"
    by (rule wf_world_put(2) [OF assms(1) p(1) own p(2,3)])
qed

text \<open>The store changed and no object did, as after a constructor that threw.\<close>

lemma wf_world_store:
  assumes wf: "wf_world w" and mf: "mem_frame None (store w) m'"
  shows "wf_world (w\<lparr>store := m'\<rparr>)"
    and "\<And>r2 b2. objs w r2 = Some b2 \<Longrightarrow>
      (\<forall>a. cb_data b2 = Some a \<longrightarrow> heap m' a = heap (store w) a)"
proof -
  show keep: "\<And>r2 b2. objs w r2 = Some b2 \<Longrightarrow>
      (\<forall>a. cb_data b2 = Some a \<longrightarrow> heap m' a = heap (store w) a)"
    using mf wf_buf_addr [OF wf_worldD(1) [OF wf]] unfolding mem_frame_def by blast
  have bk: "brk (store w) \<le> brk m'" and sz: "sizeof_T m' = sizeof_T (store w)"
    using mf by (simp_all add: mem_frame_def)
  have "\<And>r b. objs w r = Some b \<Longrightarrow> wf_buf b m'"
    by (rule wf_buf_frame [OF wf_worldD(1) [OF wf]]) (use keep bk sz in auto)
  then show "wf_world (w\<lparr>store := m'\<rparr>)"
    using wf sz unfolding wf_world_def by auto
qed

text \<open>The object at \<open>r\<close> ended and released its block.\<close>

lemma wf_world_remove:
  assumes wf: "wf_world w" and o: "objs w r = Some b"
    and mf: "mem_frame (cb_data b) (store w) m'"
  shows "wf_world (w\<lparr>objs := (objs w)(r := None), store := m'\<rparr>)"
    and "\<And>r2 b2. r2 \<noteq> r \<Longrightarrow> objs w r2 = Some b2 \<Longrightarrow>
      (\<forall>a. cb_data b2 = Some a \<longrightarrow> heap m' a = heap (store w) a)"
proof -
  show keep: "\<And>r2 b2. r2 \<noteq> r \<Longrightarrow> objs w r2 = Some b2 \<Longrightarrow>
      (\<forall>a. cb_data b2 = Some a \<longrightarrow> heap m' a = heap (store w) a)"
  proof (intro allI impI)
    fix r2 b2 a
    assume n: "r2 \<noteq> r" and o2: "objs w r2 = Some b2" and d: "cb_data b2 = Some a"
    have "a < brk (store w)" by (rule wf_buf_addr [OF wf_worldD(1) [OF wf o2] d])
    moreover have "Some a \<noteq> cb_data b" using wf_worldD(2) [OF wf o2 o n d] by simp
    ultimately show "heap m' a = heap (store w) a" using mf by (simp add: mem_frame_def)
  qed
  have bk: "brk (store w) \<le> brk m'" and sz: "sizeof_T m' = sizeof_T (store w)"
    using mf by (simp_all add: mem_frame_def)
  have "\<And>r2 b2. r2 \<noteq> r \<Longrightarrow> objs w r2 = Some b2 \<Longrightarrow> wf_buf b2 m'"
    by (rule wf_buf_frame [OF wf_worldD(1) [OF wf]]) (use keep bk sz in auto)
  then show "wf_world (w\<lparr>objs := (objs w)(r := None), store := m'\<rparr>)"
    using wf sz unfolding wf_world_def by (auto split: if_splits)
qed

lemma wf_world_swap:
  assumes wf: "wf_world w" and x: "objs w a = Some x" and y: "objs w b = Some y"
  shows "wf_world (w\<lparr>objs := (objs w)(a \<mapsto> y, b \<mapsto> x)\<rparr>)"
proof (cases "a = b")
  case True
  then have "x = y" using x y by simp
  then have "(objs w)(a \<mapsto> y, b \<mapsto> x) = objs w" using True x by auto
  then show ?thesis using wf by simp
next
  case False
  let ?w = "w\<lparr>objs := (objs w)(a \<mapsto> y, b \<mapsto> x)\<rparr>"
  define p where "p r = (if r = a then b else if r = b then a else r)" for r
  have obj: "\<And>r. objs ?w r = objs w (p r)"
    using False x y by (auto simp: p_def)
  have inj: "\<And>r r'. r \<noteq> r' \<Longrightarrow> p r \<noteq> p r'"
    using False by (auto simp: p_def split: if_splits)
  show ?thesis
    unfolding wf_world_def
  proof (intro conjI allI impI)
    show "sizeof_T (store ?w) \<noteq> 0" using wf_worldD(3) [OF wf] by simp
  next
    fix r c
    assume "objs ?w r = Some c"
    then have "objs w (p r) = Some c" using obj by simp
    from wf_worldD(1) [OF wf this] show "wf_buf c (store ?w)" by simp
  next
    fix r r' c c' d
    assume h: "objs ?w r = Some c \<and> objs ?w r' = Some c' \<and> r \<noteq> r' \<and> cb_data c = Some d"
    then have "objs w (p r) = Some c" "objs w (p r') = Some c'" "p r \<noteq> p r'"
      using obj inj by simp_all
    from wf_worldD(2) [OF wf this] h show "cb_data c' \<noteq> Some d" by simp
  qed
qed

section \<open>Calls keep the program state well formed\<close>

lemma member_call_ok:
  assumes wf: "wf_world w" and r: "member_call this f w = Some res"
    and f: "\<And>b x. wf_buf b (store w) \<Longrightarrow> f b (store w) = Some x \<Longrightarrow> call_ok b (store w) x"
    and t: "touches c = {this}"
  shows "outcome_ok c w res"
proof (cases "objs w this")
  case None
  then have "res = Undefined" using r by (simp add: member_call_def)
  then show ?thesis by (simp add: outcome_ok_def)
next
  case (Some b)
  from r Some obtain x where x: "f b (store w) = Some x"
    by (cases "f b (store w)") (simp_all add: member_call_def)
  note c = f [OF wf_worldD(1) [OF wf Some] x]
  show ?thesis
  proof (cases x)
    case (Done u s)
    obtain b' m' where s: "s = (b', m')" by (cases s)
    from c Done s have st: "step_ok b (store w) b' m'" by (simp add: call_ok_def)
    have res: "res = Done () (w\<lparr>objs := (objs w)(this \<mapsto> b'), store := m'\<rparr>)"
      using r Some x Done s by (simp add: member_call_def)
    note u = wf_world_update [OF wf Some st]
    have "world_step c w (w\<lparr>objs := (objs w)(this \<mapsto> b'), store := m'\<rparr>)"
      unfolding world_step_def using u t by auto
    then show ?thesis using res by (simp add: outcome_ok_def)
  next
    case (Thrown e s)
    obtain b' m' where s: "s = (b', m')" by (cases s)
    from c Thrown s have st: "step_ok b (store w) b' m'" by (simp add: call_ok_def)
    have res: "res = Thrown e (w\<lparr>objs := (objs w)(this \<mapsto> b'), store := m'\<rparr>)"
      using r Some x Thrown s by (simp add: member_call_def)
    note u = wf_world_update [OF wf Some st]
    have "world_step c w (w\<lparr>objs := (objs w)(this \<mapsto> b'), store := m'\<rparr>)"
      unfolding world_step_def using u t by auto
    then show ?thesis using res by (simp add: outcome_ok_def)
  next
    case Undefined
    then have "res = Undefined" using r Some x by (simp add: member_call_def)
    then show ?thesis by (simp add: outcome_ok_def)
  qed
qed

lemma circular_buffer_copy_spec:
  assumes wf: "wf_buf other m"
  shows "(\<exists>tmp m'. circular_buffer_copy other m = Done tmp m' \<and>
            tmp = \<lparr>cb_data = (if cb_size other = 0 then None else Some (brk m)),
                   cb_capacity = cb_size other, cb_head = 0, cb_size = cb_size other\<rparr> \<and>
            wf_buf tmp m' \<and> contents tmp m' = contents other m \<and> brk m \<le> brk m' \<and>
            (\<forall>x. x \<noteq> brk m \<longrightarrow> heap m' x = heap m x) \<and>
            (faults m = [] \<longrightarrow> faults m' = []) \<and> sizeof_T m' = sizeof_T m \<and>
            exact tmp m') \<or>
         (\<exists>e m'. circular_buffer_copy other m = Thrown e m' \<and> brk m \<le> brk m' \<and>
            (\<forall>x. x \<noteq> brk m \<longrightarrow> heap m' x = heap m x) \<and> faults m \<noteq> [] \<and>
            sizeof_T m' = sizeof_T m)"
proof -
  have le: "unat (cb_size other) \<le> unat (cb_size other)" by simp
  note ft = wf_buf_size_fits [OF wf]
  with circular_buffer_cap_spec [OF wf le] show ?thesis
    unfolding circular_buffer_copy_def by auto
qed

lemma mem_frame_fresh:
  assumes "brk m \<le> brk m'" "\<forall>x. x \<noteq> brk m \<longrightarrow> heap m' x = heap m x"
    "sizeof_T m' = sizeof_T m"
  shows "mem_frame own m m'"
  using assms by (auto simp: mem_frame_def)

text \<open>Copy and swap: the copy takes the place of \<open>b\<close>, whose block is released.\<close>

lemma replace_by_copy:
  assumes wfb: "wf_buf b m" and wft: "wf_buf tmp m1"
    and dt: "cb_data tmp = None \<or> cb_data tmp = Some (brk m)"
    and bk: "brk m \<le> brk m1" and fr: "\<forall>x. x \<noteq> brk m \<longrightarrow> heap m1 x = heap m x"
    and sz: "sizeof_T m1 = sizeof_T m"
  shows "\<exists>m2. destructor b m1 = Done () m2 \<and> step_ok b m tmp m2 \<and>
      contents tmp m2 = contents tmp m1 \<and> faults m2 = faults m1"
proof -
  have fresh: "cb_data b \<noteq> Some (brk m)" by (rule wf_buf_fresh [OF wfb])
  have wf1: "wf_buf b m1"
    by (rule wf_buf_frame [OF wfb]) (use fr fresh bk sz in auto)
  from destructor_ok [OF wf1] obtain m2 where
    ds: "destructor b m1 = Done () m2" "brk m2 = brk m1" "faults m2 = faults m1"
      "\<forall>x. Some x \<noteq> cb_data b \<longrightarrow> heap m2 x = heap m1 x" "sizeof_T m2 = sizeof_T m1"
    by blast
  have keep: "\<And>a. cb_data tmp = Some a \<Longrightarrow> heap m2 a = heap m1 a"
    using dt ds(4) fresh by auto
  have wf2: "wf_buf tmp m2"
    by (rule wf_buf_frame [OF wft]) (use keep ds(2,5) in auto)
  have c2: "contents tmp m2 = contents tmp m1"
    by (rule contents_frame) (use keep in auto)
  have mf: "mem_frame (cb_data b) m m2"
    unfolding mem_frame_def using bk ds(2,4,5) fr sz by auto
  have df: "data_frame b m tmp"
    unfolding data_frame_def using dt by auto
  have "step_ok b m tmp m2" using wf2 mf df by (simp add: step_ok_def)
  then show ?thesis using ds c2 by auto
qed

lemma op_assign_skip:
  assumes "objs w this = Some b" "objs w other = Some ob" "op_eq b ob"
  shows "op_assign this other w = Done () w"
  using assms by (simp add: op_assign_def op_ne_def)

lemma op_assign_ok:
  assumes wf: "wf_world w"
  shows "outcome_ok (Assign this other) w (op_assign this other w)"
proof (cases "objs w this")
  case None
  then show ?thesis by (simp add: op_assign_def outcome_ok_def)
next
  case b: (Some b)
  show ?thesis
  proof (cases "objs w other")
    case None
    then show ?thesis using b by (simp add: op_assign_def outcome_ok_def)
  next
    case ob: (Some ob)
    show ?thesis
    proof (cases "op_ne b ob")
      case False
      then have "op_assign this other w = Done () w"
        using b ob by (simp add: op_assign_def)
      then show ?thesis using wf by (simp add: outcome_ok_def world_step_def)
    next
      case True
      let ?m = "store w"
      note wfb = wf_worldD(1) [OF wf b] and wfo = wf_worldD(1) [OF wf ob]
      from circular_buffer_copy_spec [OF wfo]
      consider (ret) tmp m1 where "circular_buffer_copy ob ?m = Done tmp m1"
          "tmp = \<lparr>cb_data = (if cb_size ob = 0 then None else Some (brk ?m)),
                   cb_capacity = cb_size ob, cb_head = 0, cb_size = cb_size ob\<rparr>"
          "wf_buf tmp m1" "brk ?m \<le> brk m1" "\<forall>x. x \<noteq> brk ?m \<longrightarrow> heap m1 x = heap ?m x"
          "sizeof_T m1 = sizeof_T ?m"
        | (exc) e m1 where "circular_buffer_copy ob ?m = Thrown e m1" "brk ?m \<le> brk m1"
          "\<forall>x. x \<noteq> brk ?m \<longrightarrow> heap m1 x = heap ?m x" "sizeof_T m1 = sizeof_T ?m"
        by blast
      then show ?thesis
      proof cases
        case ret
        have dt: "cb_data tmp = None \<or> cb_data tmp = Some (brk ?m)" using ret(2) by simp
        from replace_by_copy [OF wfb ret(3) dt ret(4,5,6)] obtain m2 where
          m2: "destructor b m1 = Done () m2" "step_ok b ?m tmp m2" by blast
        have res: "op_assign this other w =
            Done () (w\<lparr>objs := (objs w)(this \<mapsto> tmp), store := m2\<rparr>)"
          using b ob True ret(1) m2(1) by (simp add: op_assign_def swap_cb_eq)
        note u = wf_world_update [OF wf b m2(2)]
        have "world_step (Assign this other) w (w\<lparr>objs := (objs w)(this \<mapsto> tmp), store := m2\<rparr>)"
          unfolding world_step_def using u by auto
        then show ?thesis using res by (simp add: outcome_ok_def)
      next
        case exc
        have res: "op_assign this other w = Thrown e (w\<lparr>store := m1\<rparr>)"
          using b ob True exc(1) by (simp add: op_assign_def)
        note u = wf_world_store [OF wf mem_frame_fresh [OF exc(2,3,4)]]
        have "world_step (Assign this other) w (w\<lparr>store := m1\<rparr>)"
          unfolding world_step_def using u by auto
        then show ?thesis using res by (simp add: outcome_ok_def)
      qed
    qed
  qed
qed

lemma copy_construct_ok:
  assumes wf: "wf_world w" and r: "exec (Copy_construct r other) w = Some res"
  shows "outcome_ok (Copy_construct r other) w res"
proof (cases "objs w r")
  case (Some b)
  then have "res = Undefined" using r by simp
  then show ?thesis by (simp add: outcome_ok_def)
next
  case None
  show ?thesis
  proof (cases "objs w other")
    case n: None
    then have "res = Undefined" using r None by simp
    then show ?thesis by (simp add: outcome_ok_def)
  next
    case ob: (Some ob)
    let ?m = "store w"
    from circular_buffer_copy_spec [OF wf_worldD(1) [OF wf ob]]
    consider (ret) tmp m1 where "circular_buffer_copy ob ?m = Done tmp m1"
        "tmp = \<lparr>cb_data = (if cb_size ob = 0 then None else Some (brk ?m)),
                 cb_capacity = cb_size ob, cb_head = 0, cb_size = cb_size ob\<rparr>"
        "wf_buf tmp m1" "brk ?m \<le> brk m1" "\<forall>x. x \<noteq> brk ?m \<longrightarrow> heap m1 x = heap ?m x"
        "sizeof_T m1 = sizeof_T ?m"
      | (exc) e m1 where "circular_buffer_copy ob ?m = Thrown e m1" "brk ?m \<le> brk m1"
        "\<forall>x. x \<noteq> brk ?m \<longrightarrow> heap m1 x = heap ?m x" "sizeof_T m1 = sizeof_T ?m"
      by blast
    then show ?thesis
    proof cases
      case ret
      have res: "res = Done () (w\<lparr>objs := (objs w)(r \<mapsto> tmp), store := m1\<rparr>)"
        using r None ob ret(1) by simp
      have own: "None = (case objs w r of None \<Rightarrow> None | Some b \<Rightarrow> cb_data b)"
        using None by simp
      have df: "cb_data tmp = None \<or> cb_data tmp = None \<or>
          (\<exists>a. cb_data tmp = Some a \<and> brk ?m \<le> a)"
        using ret(2) by simp
      note u = wf_world_put [OF wf ret(3) own mem_frame_fresh [OF ret(4,5,6)] df]
      have "world_step (Copy_construct r other) w
          (w\<lparr>objs := (objs w)(r \<mapsto> tmp), store := m1\<rparr>)"
        unfolding world_step_def using u by auto
      then show ?thesis using res by (simp add: outcome_ok_def)
    next
      case exc
      have res: "res = Thrown e (w\<lparr>store := m1\<rparr>)"
        using r None ob exc(1) by simp
      note u = wf_world_store [OF wf mem_frame_fresh [OF exc(2,3,4)]]
      have "world_step (Copy_construct r other) w (w\<lparr>store := m1\<rparr>)"
        unfolding world_step_def using u by auto
      then show ?thesis using res by (simp add: outcome_ok_def)
    qed
  qed
qed

lemma construct_ok:
  assumes wf: "wf_world w" and r: "exec (Construct r) w = Some res"
  shows "outcome_ok (Construct r) w res"
proof (cases "objs w r")
  case (Some b)
  then have "res = Undefined" using r by simp
  then show ?thesis by (simp add: outcome_ok_def)
next
  case None
  have res: "res = Done () (w\<lparr>objs := (objs w)(r \<mapsto> circular_buffer), store := store w\<rparr>)"
    using r None by simp
  have own: "None = (case objs w r of None \<Rightarrow> None | Some b \<Rightarrow> cb_data b)"
    using None by simp
  have mf: "mem_frame None (store w) (store w)" by (simp add: mem_frame_def)
  have df: "cb_data circular_buffer = None \<or> cb_data circular_buffer = None \<or>
      (\<exists>a. cb_data circular_buffer = Some a \<and> brk (store w) \<le> a)"
    by (simp add: circular_buffer_def)
  note u = wf_world_put [OF wf wf_buf_default [OF wf_worldD(3) [OF wf]] own mf df]
  have "world_step (Construct r) w (w\<lparr>objs := (objs w)(r \<mapsto> circular_buffer), store := store w\<rparr>)"
    unfolding world_step_def using u by auto
  then show ?thesis using res by (simp add: outcome_ok_def)
qed

lemma destroy_ok:
  assumes wf: "wf_world w" and r: "exec (Destroy r) w = Some res"
  shows "outcome_ok (Destroy r) w res"
proof (cases "objs w r")
  case None
  then have "res = Undefined" using r by simp
  then show ?thesis by (simp add: outcome_ok_def)
next
  case (Some b)
  from destructor_ok [OF wf_worldD(1) [OF wf Some]] obtain m' where
    d: "destructor b (store w) = Done () m'" "brk m' = brk (store w)"
      "\<forall>x. Some x \<noteq> cb_data b \<longrightarrow> heap m' x = heap (store w) x"
      "sizeof_T m' = sizeof_T (store w)"
    by blast
  have res: "res = Done () (w\<lparr>objs := (objs w)(r := None), store := m'\<rparr>)"
    using r Some d(1) by simp
  have mf: "mem_frame (cb_data b) (store w) m'"
    using d(2,3,4) by (simp add: mem_frame_def)
  note u = wf_world_remove [OF wf Some mf]
  have "world_step (Destroy r) w (w\<lparr>objs := (objs w)(r := None), store := m'\<rparr>)"
    unfolding world_step_def using u by auto
  then show ?thesis using res by (simp add: outcome_ok_def)
qed

lemma swap_ok:
  assumes wf: "wf_world w"
  shows "outcome_ok (Swap a b) w (swap_objs a b w)"
proof (cases "objs w a")
  case None
  then show ?thesis by (simp add: swap_objs_def outcome_ok_def)
next
  case x: (Some x)
  show ?thesis
  proof (cases "objs w b")
    case None
    then show ?thesis using x by (simp add: swap_objs_def outcome_ok_def)
  next
    case y: (Some y)
    have res: "swap_objs a b w = Done () (w\<lparr>objs := (objs w)(a \<mapsto> y, b \<mapsto> x)\<rparr>)"
      using x y by (simp add: swap_objs_def swap_cb_eq)
    have "world_step (Swap a b) w (w\<lparr>objs := (objs w)(a \<mapsto> y, b \<mapsto> x)\<rparr>)"
      unfolding world_step_def using wf_world_swap [OF wf x y] by auto
    then show ?thesis using res by (simp add: outcome_ok_def)
  qed
qed

lemma exec_ok:
  assumes wf: "wf_world w" and r: "exec c w = Some res"
  shows "outcome_ok c w res"
proof (cases c)
  case (Construct r)
  show ?thesis unfolding Construct
    by (rule construct_ok [OF wf]) (use r Construct in blast)
next
  case (Copy_construct r other)
  show ?thesis unfolding Copy_construct
    by (rule copy_construct_ok [OF wf]) (use r Copy_construct in blast)
next
  case (Assign this other)
  then show ?thesis using op_assign_ok [OF wf, of this other] r by simp
next
  case (Destroy r)
  show ?thesis unfolding Destroy
    by (rule destroy_ok [OF wf]) (use r Destroy in blast)
next
  case (Swap a b)
  then show ?thesis using swap_ok [OF wf, of a b] r by simp
next
  case (Deque_op this x)
  show ?thesis unfolding Deque_op
    by (rule member_call_ok [OF wf _ call_ok_apply_op, where f = "apply_op x"])
      (use r Deque_op in simp_all)
next
  case (Reserve this n)
  show ?thesis unfolding Reserve
    by (rule member_call_ok [OF wf, where f = "\<lambda>b m. Some (reserve b n m)"])
      (use r Reserve call_ok_reserve in auto)
next
  case (Insert this pos v)
  show ?thesis unfolding Insert
    by (rule member_call_ok [OF wf _ call_ok_insert, where f = "\<lambda>b m. insert_cb this b pos v m"])
      (use r Insert in simp_all)
next
  case (Erase this pos)
  show ?thesis unfolding Erase
    by (rule member_call_ok [OF wf _ call_ok_erase_pos, where f = "\<lambda>b m. erase_pos this b pos m"])
      (use r Erase in simp_all)
next
  case (Erase_range this first last_it)
  show ?thesis unfolding Erase_range
    by (rule member_call_ok [OF wf _ call_ok_erase,
          where f = "\<lambda>b m. erase this b first last_it m"])
      (use r Erase_range in simp_all)
next
  case (Clear this)
  show ?thesis unfolding Clear
    by (rule member_call_ok [OF wf, where f = "\<lambda>b m. Some (clear b m)"])
      (use r Clear call_ok_clear in auto)
next
  case (Assign_at this i v)
  show ?thesis unfolding Assign_at
    by (rule member_call_ok [OF wf, where f = "\<lambda>b m. Some (assign_at b i v m)"])
      (use r Assign_at call_ok_assign_at in auto)
qed

lemma wf_world0: "sz \<noteq> 0 \<Longrightarrow> wf_world (world0 sz fs)"
  by (simp add: wf_world_def world0_def)

lemma reachable_wf: "reachable w \<Longrightarrow> wf_world w"
proof (induction rule: reachable.induct)
  case (start sz fs)
  then show ?case by (rule wf_world0)
next
  case (returns w c u w')
  from exec_ok [OF returns.IH returns.hyps(2)] show ?case
    by (simp add: outcome_ok_def world_step_def)
next
  case (throws w c e w')
  from exec_ok [OF throws.IH throws.hyps(2)] show ?case
    by (simp add: outcome_ok_def world_step_def)
qed

section \<open>Invariants of reachable states\<close>

lemma exec_construct_world0:
  "exec (Construct 0) (world0 8 []) =
   Some (Done () \<lparr>objs = (\<lambda>r. None)(0 \<mapsto> circular_buffer),
                   store = \<lparr>heap = (\<lambda>a. None), brk = 0, faults = [], sizeof_T = 8\<rparr>\<rparr>)"
  by (simp add: world0_def)

lemma exec_push_back_new:
  "exec (Deque_op 0 (Push_back (Local 7)))
     \<lparr>objs = (\<lambda>r. None)(0 \<mapsto> circular_buffer),
      store = \<lparr>heap = (\<lambda>a. None), brk = 0, faults = [], sizeof_T = 8\<rparr>\<rparr> = Some (Done () world1)"
  by (simp add: member_call_def push_back.simps uninitialized_copy.simps clear.simps
      circular_buffer_def world1_def one_full_def one_full_store_def eval_simps
      alloc_limit_small alloc_limit_pos)

lemma reachable_world1: "reachable world1"
proof -
  have "reachable (world0 8 [] :: nat world)" by (rule reachable.start) simp
  from reachable.returns [OF this exec_construct_world0]
  show ?thesis by (rule reachable.returns [OF _ exec_push_back_new])
qed

lemma objs_world1: "objs world1 0 = Some one_full" "objs world1 (Suc 0) = None"
  by (simp_all add: world1_def)

text \<open>
  The byte size of a block is computed in \<open>size_t\<close>. For elements of eight bytes,
  \<open>reserve(2 ^ 61 + 1)\<close> asks for \<open>8 * (2 ^ 61 + 1) mod 2 ^ 64 = 8\<close> bytes: the call
  returns with \<open>capacity_ = 2 ^ 61 + 1\<close> and a block of one slot. The first push fills
  that slot; the second builds its element behind the block, which has no defined
  behaviour.
\<close>

lemma reserve_wraps_around:
  "map_option (\<lambda>w. map_option (\<lambda>b. (cb_capacity b, cb_size b, allocated b (store w))) (objs w 0))
     (run_calls [Construct 0, Reserve 0 (2 ^ 61 + 1)] no_buffers) =
     Some (Some (2 ^ 61 + 1, 0, 1)) \<and>
   map_option (\<lambda>w. map_option (\<lambda>b. (cb_capacity b, cb_size b, allocated b (store w))) (objs w 0))
     (run_calls [Construct 0, Reserve 0 (2 ^ 61 + 1), Deque_op 0 (Push_back (Local 1))]
        no_buffers) =
     Some (Some (2 ^ 61 + 1, 1, 1)) \<and>
   run_calls [Construct 0, Reserve 0 (2 ^ 61 + 1), Deque_op 0 (Push_back (Local 1)),
       Deque_op 0 (Push_back (Local 2))] no_buffers = None"
  by (simp add: no_buffers_def world0_def member_call_def reserve_def circular_buffer_def
      push_back.simps uninitialized_copy.simps clear.simps eval_simps allocated_def
      alloc_limit_small alloc_limit_pos word_less_nat_alt)




text \<open>
  C10. In every reachable state, a buffer with a non-zero capacity has
  \<open>head_ < capacity_\<close>; for each logical index \<open>i < size_\<close> the slot
  \<open>(head_ + i) % capacity_\<close> is computed without wrap-around and holds a live
  element.
\<close>

theorem head_lt_capacity:
  assumes "reachable w" "objs w r = Some b" "cb_capacity b \<noteq> 0"
  shows "cb_head b < cb_capacity b \<and>
         (\<forall>i. i < cb_size b \<longrightarrow>
            index_slot b i = Some ((unat (cb_head b) + unat i) mod unat (cb_capacity b)) \<and>
            at_index b i (store w) \<noteq> None)"
proof -
  have wf: "wf_buf b (store w)"
    by (rule wf_worldD(1) [OF reachable_wf [OF assms(1)] assms(2)])
  from wf assms(3) obtain a where d: "cb_data b = Some a" by (rule wf_buf_data)
  from wf d obtain blk where h: "heap (store w) a = Some blk" by (rule wf_buf_heap)
  note blk = wf_buf_blk [OF wf d h]
  have hd: "cb_head b < cb_capacity b" using blk(2) by (simp add: word_less_nat_alt)
  have "\<And>i. i < cb_size b \<Longrightarrow>
      index_slot b i = Some ((unat (cb_head b) + unat i) mod unat (cb_capacity b)) \<and>
      at_index b i (store w) \<noteq> None"
  proof -
    fix i assume "i < cb_size b"
    then have k: "unat i < unat (cb_size b)" by (simp add: word_less_nat_alt)
    then have "unat i \<le> unat (cb_capacity b)" using blk(3) by simp
    from unat_slot [OF blk(2) this blk(4)] assms(3)
    have s: "index_slot b i = Some ((unat (cb_head b) + unat i) mod unat (cb_capacity b))"
      by (simp add: index_slot_def)
    have "at_index b (of_nat (unat i)) (store w) =
        pad (unat (cb_capacity b)) blk !
          ((unat (cb_head b) + unat i) mod unat (cb_capacity b))"
      by (rule at_index_wf [OF wf d h k])
    moreover have "pad (unat (cb_capacity b)) blk !
        ((unat (cb_head b) + unat i) mod unat (cb_capacity b)) \<noteq> None"
      using wf_buf_slot(2,3) [OF wf d h k] by simp
    ultimately have "at_index b i (store w) \<noteq> None" by simp
    with s show "index_slot b i = Some ((unat (cb_head b) + unat i) mod unat (cb_capacity b)) \<and>
      at_index b i (store w) \<noteq> None" by simp
  qed
  with hd show ?thesis by blast
qed

theorem head_lt_capacity_witness:
  "reachable world1 \<and> objs world1 0 = Some one_full \<and> cb_capacity one_full \<noteq> 0 \<and>
   cb_head one_full < cb_capacity one_full \<and> at_index one_full 0 (store world1) \<noteq> None"
proof -
  have c: "cb_capacity one_full \<noteq> 0" and z: "0 < cb_size one_full"
    by (simp_all add: one_full_def)
  from head_lt_capacity [OF reachable_world1 objs_world1(1) c] z
  show ?thesis using reachable_world1 objs_world1(1) c by blast
qed

section \<open>Assignment and equality\<close>

lemma op_eq_refl: "op_eq b b"
  by (simp add: op_eq_def)

text \<open>
  C7. Assigning a buffer to itself returns at once with the program state as it was:
  the buffer keeps its content, size, capacity and head.
\<close>

theorem self_assignment_unchanged:
  assumes "objs w a = Some b"
  shows "exec (Assign a a) w = Some (Done () w)"
  using op_assign_skip [OF assms assms op_eq_refl] by simp

theorem self_assignment_unchanged_witness:
  "objs world1 0 = Some one_full \<and> exec (Assign 0 0) world1 = Some (Done () world1)"
  using self_assignment_unchanged [OF objs_world1(1)] objs_world1(1) by simp

text \<open>
  C9. Two distinct objects constructed by default have equal members (no storage, head
  \<open>0\<close>, size \<open>0\<close>), so \<open>operator==\<close> holds of them, and assigning one to the other
  returns with the program state as it was: nothing is allocated and nothing copied.
\<close>

theorem default_constructed_equal:
  assumes "a \<noteq> b" "objs w a = None" "objs w b = None"
  shows "run_calls [Construct a, Construct b] w =
           Some (w\<lparr>objs := (objs w)(a \<mapsto> circular_buffer, b \<mapsto> circular_buffer)\<rparr>) \<and>
         op_eq circular_buffer circular_buffer \<and>
         cb_data circular_buffer = None \<and> cb_head circular_buffer = 0 \<and>
         cb_size circular_buffer = 0 \<and> cb_capacity circular_buffer = 0 \<and>
         exec (Assign a b) (w\<lparr>objs := (objs w)(a \<mapsto> circular_buffer, b \<mapsto> circular_buffer)\<rparr>) =
           Some (Done () (w\<lparr>objs := (objs w)(a \<mapsto> circular_buffer, b \<mapsto> circular_buffer)\<rparr>))"
proof -
  let ?w2 = "w\<lparr>objs := (objs w)(a \<mapsto> circular_buffer, b \<mapsto> circular_buffer)\<rparr>"
  have r: "run_calls [Construct a, Construct b] w = Some ?w2"
    using assms by simp
  have oa: "objs ?w2 a = Some circular_buffer" and ob: "objs ?w2 b = Some circular_buffer"
    using assms(1) by simp_all
  have "exec (Assign a b) ?w2 = Some (Done () ?w2)"
    using op_assign_skip [OF oa ob op_eq_refl] by simp
  then show ?thesis using r op_eq_refl by (simp add: circular_buffer_def)
qed

theorem default_constructed_equal_witness:
  "(0::nat) \<noteq> 1 \<and> objs no_buffers 0 = None \<and> objs no_buffers 1 = None \<and>
   run_calls [Construct 0, Construct 1] no_buffers =
     Some (no_buffers\<lparr>objs := (objs no_buffers)(0 \<mapsto> circular_buffer, 1 \<mapsto> circular_buffer)\<rparr>) \<and>
   exec (Assign 0 1)
     (no_buffers\<lparr>objs := (objs no_buffers)(0 \<mapsto> circular_buffer, 1 \<mapsto> circular_buffer)\<rparr>) =
     Some (Done () (no_buffers\<lparr>objs := (objs no_buffers)(0 \<mapsto> circular_buffer, 1 \<mapsto> circular_buffer)\<rparr>))"
proof -
  have n: "(0::nat) \<noteq> 1" by simp
  have a: "objs no_buffers 0 = None" and b: "objs no_buffers 1 = None"
    by (simp_all add: no_buffers_def world0_def)
  from default_constructed_equal [OF n a b] show ?thesis using a b by simp
qed

section \<open>Copies are independent\<close>






section \<open>Swapping two logical positions\<close>

lemma it_slot_wf:
  assumes wf: "wf_buf b m" and d: "cb_data b = Some a" and h: "heap m a = Some blk"
    and bi: "it_buff i = this" and p: "unat (it_offset i) < unat (cb_size b)"
  shows "it_slot this b i =
      Some ((unat (cb_head b) + unat (it_offset i)) mod unat (cb_capacity b))"
    and "obj_at (cb_data b)
      ((unat (cb_head b) + unat (it_offset i)) mod unat (cb_capacity b)) m =
      contents b m ! unat (it_offset i)"
    and "contents b m ! unat (it_offset i) \<noteq> None"
  using deref_wf [OF wf d h p] bi by (simp_all add: it_slot_def)

lemma iter_swap_spec:
  assumes wf: "wf_buf b m" and bi: "it_buff i = this" and bj: "it_buff j = this"
    and p: "unat (it_offset i) < unat (cb_size b)" and q: "unat (it_offset j) < unat (cb_size b)"
  shows "(\<exists>m'. iter_swap this b i j m = Done () m' \<and> keeps b m m' \<and>
            contents b m' = (contents b m)
              [unat (it_offset i) := contents b m ! unat (it_offset j),
               unat (it_offset j) := contents b m ! unat (it_offset i)] \<and>
            (faults m = [] \<longrightarrow> faults m' = [])) \<or>
         (\<exists>m'. iter_swap this b i j m = Thrown element_error m' \<and> faults m \<noteq> [])"
proof -
  let ?p = "unat (it_offset i)" and ?q = "unat (it_offset j)"
  have n0: "cb_size b \<noteq> 0" using p by auto
  have c0: "cb_capacity b \<noteq> 0" using wf_buf_cap0(2) [OF wf] n0 by blast
  from wf c0 obtain a where d: "cb_data b = Some a" by (rule wf_buf_data)
  from wf d obtain blk where h: "heap m a = Some blk" by (rule wf_buf_heap)
  note blk = wf_buf_blk [OF wf d h]
  let ?c = "unat (cb_capacity b)"
  let ?B = "pad ?c blk"
  let ?s = "(unat (cb_head b) + ?p) mod ?c"
  let ?t = "(unat (cb_head b) + ?q) mod ?c"
  note si = it_slot_wf [OF wf d h bi p] and sj = it_slot_wf [OF wf d h bj q]
  have sl: "?s < length blk" by (rule wf_buf_slot(1) [OF wf d h p])
  have tl: "?t < length blk" by (rule wf_buf_slot(1) [OF wf d h q])
  from si(3) obtain x where x: "contents b m ! ?p = Some x" by auto
  from sj(3) obtain y where y: "contents b m ! ?q = Some y" by auto
  have ox: "obj_at (cb_data b) ?s m = Some x" and oy: "obj_at (cb_data b) ?t m = Some y"
    using si(2) sj(2) x y by simp_all
  from iter_swap_run [OF d h si(1) sj(1) ox oy]
  consider (ret) m' where "iter_swap this b i j m = Done () m'"
      "heap m' = (heap m)(a \<mapsto> blk[?s := Some y, ?t := Some x])"
    | (exc) m' where "iter_swap this b i j m = Thrown element_error m'" "faults m \<noteq> []"
    by blast
  then show ?thesis
  proof cases
    case exc
    then show ?thesis by auto
  next
    case ret
    note res = ret(1)
    note dn = iter_swap_Done [OF wf res]
    have k: "keeps b m m'" using dn by (simp add: keeps_def)
    have h': "heap m' a = Some (blk[?s := Some y, ?t := Some x])"
      using ret(2) by simp
    have pu: "pad ?c (blk[?s := Some y, ?t := Some x]) = ?B[?s := Some y, ?t := Some x]"
      using sl tl by (simp add: pad_update)
    have hl: "unat (cb_head b) < length ?B" and nl: "unat (cb_size b) \<le> length ?B"
      using blk(1,2,3) by simp_all
    have hl1: "unat (cb_head b) < length (?B[?s := Some y])" using hl by simp
    have nl1: "unat (cb_size b) \<le> length (?B[?s := Some y])" using nl by simp
    have pl: "?p < length ?B" and ql: "?q < length (?B[?s := Some y])"
      using p q nl by simp_all
    have "contents b m' = view (?B[?s := Some y, ?t := Some x]) (unat (cb_head b)) (unat (cb_size b))"
      using contents_wf [OF dn(1) d h'] pu by simp
    also have "\<dots> = (view (?B[?s := Some y]) (unat (cb_head b)) (unat (cb_size b)))[?q := Some x]"
      using view_update [OF hl1 ql nl1, of "Some x"] blk(1) by simp
    also have "view (?B[?s := Some y]) (unat (cb_head b)) (unat (cb_size b)) =
        (view ?B (unat (cb_head b)) (unat (cb_size b)))[?p := Some y]"
      using view_update [OF hl pl nl, of "Some y"] blk(1) by simp
    finally have "contents b m' = (contents b m)[?p := Some y, ?q := Some x]"
      unfolding contents_wf [OF wf d h] .
    then have "contents b m' = (contents b m)[?p := contents b m ! ?q, ?q := contents b m ! ?p]"
      using x y by simp
    then show ?thesis using res k dn(4) by auto
  qed
qed

section \<open>The shifting loops of insert\<close>

lemma insert_fwd_spec:
  assumes wf: "wf_buf b m" and bi: "it_buff i = this" and bs: "it_buff spot = this"
    and k: "unat (it_offset i) = k" and d: "unat (it_offset spot) = d"
    and kd: "k \<le> d" and dn: "d < unat (cb_size b)"
  shows "(\<exists>m'. insert_fwd this b i spot m = Some (Done () m') \<and> keeps b m m' \<and>
            (\<forall>j < unat (cb_size b). contents b m' ! j =
               (if k \<le> j \<and> j < d then contents b m ! Suc j
                else if j = d then contents b m ! k else contents b m ! j)) \<and>
            (faults m = [] \<longrightarrow> faults m' = [])) \<or>
         (\<exists>e m'. insert_fwd this b i spot m = Some (Thrown e m') \<and> faults m \<noteq> [])"
  using wf bi k kd
proof (induction "d - k" arbitrary: i k m)
  case 0
  then have "k = d" by simp
  then have "it_offset i = it_offset spot" using 0(4) d by (simp add: word_unat_eq_iff)
  then have "\<not> it_lt i spot" using 0(3) bs by (simp add: it_lt_def it_eq_def)
  then have "insert_fwd this b i spot m = Some (Done () m)"
    by (subst insert_fwd.simps) simp
  then show ?case using \<open>k = d\<close> keeps_refl [OF 0(2)] by auto
next
  case (Suc x)
  let ?n = "unat (cb_size b)" and ?c = "contents b m"
  have klt: "k < d" using Suc.hyps(2) by simp
  have lt: "it_lt i spot"
    using klt Suc.prems(2,3) bs d
    by (auto simp: it_lt_def it_eq_def it_gt_def word_less_nat_alt)
  have "unat (it_offset i) \<le> alloc_limit"
    using Suc.prems(3) klt dn wf_buf_limits [OF Suc.prems(1)] by simp
  then have k1: "unat (it_offset i + 1) = Suc k" using unat_succ Suc.prems(3) by simp
  have unf: "insert_fwd this b i spot m =
      (case iter_swap this b i (it_plus i 1) m of
         Done _ m' \<Rightarrow> insert_fwd this b (it_inc i) spot m'
       | Thrown e m' \<Rightarrow> Some (Thrown e m')
       | Undefined \<Rightarrow> Some Undefined)"
    using lt by (subst insert_fwd.simps) simp
  have bj: "it_buff (it_plus i 1) = this" using Suc.prems(2) by (simp add: it_plus_def)
  have p: "unat (it_offset i) < ?n" using Suc.prems(3) klt dn by simp
  have q: "unat (it_offset (it_plus i 1)) < ?n" using k1 klt dn by (simp add: it_plus_def)
  from iter_swap_spec [OF Suc.prems(1,2) bj p q]
  consider (ret) m1 where "iter_swap this b i (it_plus i 1) m = Done () m1" "keeps b m m1"
      "contents b m1 = ?c[k := ?c ! Suc k, Suc k := ?c ! k]" "faults m = [] \<longrightarrow> faults m1 = []"
    | (exc) m1 where "iter_swap this b i (it_plus i 1) m = Thrown element_error m1" "faults m \<noteq> []"
    using Suc.prems(3) k1 by (auto simp: it_plus_def)
  then show ?case
  proof cases
    case exc
    then show ?thesis using unf by auto
  next
    case ret
    have unf1: "insert_fwd this b i spot m = insert_fwd this b (it_inc i) spot m1"
      using unf ret(1) by simp
    have x: "x = d - Suc k" using Suc.hyps(2) by simp
    have bi1: "it_buff (it_inc i) = this" using Suc.prems(2) by (simp add: it_inc_def)
    have ki1: "unat (it_offset (it_inc i)) = Suc k" using k1 by (simp add: it_inc_def)
    have skd: "Suc k \<le> d" using klt by simp
    from Suc.hyps(1) [OF x keeps_wf [OF ret(2)] bi1 ki1 skd]
    consider (ret2) m' where "insert_fwd this b (it_inc i) spot m1 = Some (Done () m')"
        "keeps b m1 m'"
        "\<forall>j < ?n. contents b m' ! j =
           (if Suc k \<le> j \<and> j < d then contents b m1 ! Suc j
            else if j = d then contents b m1 ! Suc k else contents b m1 ! j)"
        "faults m1 = [] \<longrightarrow> faults m' = []"
      | (exc2) e m' where "insert_fwd this b (it_inc i) spot m1 = Some (Thrown e m')"
        "faults m1 \<noteq> []"
      by blast
    then show ?thesis
    proof cases
      case exc2
      then show ?thesis using unf1 ret(4) by auto
    next
      case ret2
      have len: "length ?c = ?n" by simp
      have "\<forall>j < ?n. contents b m' ! j =
          (if k \<le> j \<and> j < d then ?c ! Suc j else if j = d then ?c ! k else ?c ! j)"
      proof (intro allI impI)
        fix j assume j: "j < ?n"
        have c1: "\<And>t. t < ?n \<Longrightarrow> contents b m1 ! t =
            (if t = Suc k then ?c ! k else if t = k then ?c ! Suc k else ?c ! t)"
          using ret(3) len by (simp add: nth_list_update)
        have sj: "j < d \<Longrightarrow> Suc j < ?n" using dn by simp
        have sk: "Suc k < ?n" using klt dn by simp
        show "contents b m' ! j =
            (if k \<le> j \<and> j < d then ?c ! Suc j else if j = d then ?c ! k else ?c ! j)"
          using ret2(3) j c1 [OF j] c1 [OF sk] sj c1 [of "Suc j"] klt
          by (auto split: if_splits)
      qed
      then show ?thesis
        using unf1 ret2(1,4) keeps_trans [OF ret(2) ret2(2)] ret(4) by auto
    qed
  qed
qed

lemma insert_bwd_spec:
  assumes wf: "wf_buf b m" and bi: "it_buff i = this" and bs: "it_buff spot = this"
    and k: "unat (it_offset i) = k" and d: "unat (it_offset spot) = d"
    and kd: "d \<le> k" and kn: "k < unat (cb_size b)"
  shows "(\<exists>m'. insert_bwd this b i spot m = Some (Done () m') \<and> keeps b m m' \<and>
            (\<forall>j < unat (cb_size b). contents b m' ! j =
               (if d < j \<and> j \<le> k then contents b m ! (j - 1)
                else if j = d then contents b m ! k else contents b m ! j)) \<and>
            (faults m = [] \<longrightarrow> faults m' = [])) \<or>
         (\<exists>e m'. insert_bwd this b i spot m = Some (Thrown e m') \<and> faults m \<noteq> [])"
  using wf bi k kd kn
proof (induction "k - d" arbitrary: i k m)
  case 0
  then have "k = d" by simp
  then have "it_offset i = it_offset spot" using 0(4) d by (simp add: word_unat_eq_iff)
  then have "\<not> it_gt i spot" by (simp add: it_gt_def)
  then have "insert_bwd this b i spot m = Some (Done () m)"
    by (subst insert_bwd.simps) simp
  then show ?case using \<open>k = d\<close> keeps_refl [OF 0(2)] by auto
next
  case (Suc x)
  let ?n = "unat (cb_size b)" and ?c = "contents b m"
  have klt: "d < k" using Suc.hyps(2) by simp
  have gt: "it_gt i spot"
    using klt Suc.prems(2,3) bs d by (auto simp: it_gt_def word_less_nat_alt)
  have nz: "it_offset i \<noteq> 0" using Suc.prems(3) klt by auto
  have k1: "unat (it_offset i + (- 1)) = k - 1" "unat (it_offset i - 1) = k - 1"
    using unat_pred [OF nz] Suc.prems(3) by simp_all
  have unf: "insert_bwd this b i spot m =
      (case iter_swap this b i (it_minus i 1) m of
         Done _ m' \<Rightarrow> insert_bwd this b (it_dec i) spot m'
       | Thrown e m' \<Rightarrow> Some (Thrown e m')
       | Undefined \<Rightarrow> Some Undefined)"
    using gt by (subst insert_bwd.simps) simp
  have bj: "it_buff (it_minus i 1) = this"
    using Suc.prems(2) by (simp add: it_minus_def it_plus_def)
  have oj: "unat (it_offset (it_minus i 1)) = k - 1"
    using k1 by (simp add: it_minus_def it_plus_def)
  have p: "unat (it_offset i) < ?n" using Suc.prems(3,5) by simp
  have q: "unat (it_offset (it_minus i 1)) < ?n" using oj Suc.prems(5) by simp
  from iter_swap_spec [OF Suc.prems(1,2) bj p q]
  consider (ret) m1 where "iter_swap this b i (it_minus i 1) m = Done () m1" "keeps b m m1"
      "contents b m1 = ?c[k := ?c ! (k - 1), k - 1 := ?c ! k]" "faults m = [] \<longrightarrow> faults m1 = []"
    | (exc) m1 where "iter_swap this b i (it_minus i 1) m = Thrown element_error m1"
      "faults m \<noteq> []"
    using Suc.prems(3) oj by auto
  then show ?case
  proof cases
    case exc
    then show ?thesis using unf by auto
  next
    case ret
    have unf1: "insert_bwd this b i spot m = insert_bwd this b (it_dec i) spot m1"
      using unf ret(1) by simp
    have x: "x = (k - 1) - d" using Suc.hyps(2) by simp
    have bi1: "it_buff (it_dec i) = this" using Suc.prems(2) by (simp add: it_dec_def)
    have ki1: "unat (it_offset (it_dec i)) = k - 1" using k1 by (simp add: it_dec_def)
    have skd: "d \<le> k - 1" using klt by simp
    have kn1: "k - 1 < ?n" using Suc.prems(5) by simp
    from Suc.hyps(1) [OF x keeps_wf [OF ret(2)] bi1 ki1 skd kn1]
    consider (ret2) m' where "insert_bwd this b (it_dec i) spot m1 = Some (Done () m')"
        "keeps b m1 m'"
        "\<forall>j < ?n. contents b m' ! j =
           (if d < j \<and> j \<le> k - 1 then contents b m1 ! (j - 1)
            else if j = d then contents b m1 ! (k - 1) else contents b m1 ! j)"
        "faults m1 = [] \<longrightarrow> faults m' = []"
      | (exc2) e m' where "insert_bwd this b (it_dec i) spot m1 = Some (Thrown e m')"
        "faults m1 \<noteq> []"
      by blast
    then show ?thesis
    proof cases
      case exc2
      then show ?thesis using unf1 ret(4) by auto
    next
      case ret2
      have len: "length ?c = ?n" by simp
      have "\<forall>j < ?n. contents b m' ! j =
          (if d < j \<and> j \<le> k then ?c ! (j - 1) else if j = d then ?c ! k else ?c ! j)"
      proof (intro allI impI)
        fix j assume j: "j < ?n"
        have c1: "\<And>t. t < ?n \<Longrightarrow> contents b m1 ! t =
            (if t = k - 1 then ?c ! k else if t = k then ?c ! (k - 1) else ?c ! t)"
          using ret(3) len by (simp add: nth_list_update)
        have j1: "j - 1 < ?n" using j by simp
        show "contents b m' ! j =
            (if d < j \<and> j \<le> k then ?c ! (j - 1) else if j = d then ?c ! k else ?c ! j)"
          using ret2(3) j c1 [OF j] c1 [OF kn1] c1 [OF j1] klt
          by (auto split: if_splits)
      qed
      then show ?thesis
        using unf1 ret2(1,4) keeps_trans [OF ret(2) ret2(2)] ret(4) by auto
    qed
  qed
qed


section \<open>Insertion\<close>

lemma insert_cb_spec:
  assumes wf: "wf_buf b m" and pos: "unat (it_offset pos) \<le> unat (cb_size b)"
  shows "(\<exists>b' m'. insert_cb this b pos (Local v) m =
              Some (Done \<lparr>it_buff = this, it_offset = it_offset pos\<rparr> (b', m')) \<and>
            wf_buf b' m' \<and> unat (cb_size b') = Suc (unat (cb_size b)) \<and>
            contents b' m' =
              take (unat (it_offset pos)) (contents b m) @ Some v #
              drop (unat (it_offset pos)) (contents b m) \<and>
            (faults m = [] \<longrightarrow> faults m' = [])) \<or>
         (\<exists>e s. insert_cb this b pos (Local v) m = Some (Thrown e s) \<and>
            (faults m \<noteq> [] \<or> \<not> room_for_push b m)) \<or>
         (insert_cb this b pos (Local v) m = Some Undefined \<and> \<not> room_for_push b m)"
proof -
  let ?n = "unat (cb_size b)" and ?c = "contents b m" and ?d = "unat (it_offset pos)"
  let ?spot = "\<lparr>it_buff = this, it_offset = it_offset pos\<rparr>"
  have delta: "it_diff pos (begin_cb this) = it_offset pos"
    by (simp add: it_diff_def begin_cb_def)
  have spot: "it_plus (begin_cb this) (it_offset pos) = ?spot"
    by (simp add: it_plus_def begin_cb_def)
  have bs: "it_buff ?spot = this" and ds: "unat (it_offset ?spot) = ?d" by simp_all
  have nl: "?n \<le> alloc_limit" using wf_buf_limits [OF wf] by simp
  have len: "length ?c = ?n" by simp
  show ?thesis
  proof (cases "it_offset pos < cb_size b div 2")
    case True
    have unf: "insert_cb this b pos (Local v) m =
        (case push_front b (Local v) m of
           None \<Rightarrow> None
         | Some (Done _ (b1, m1)) \<Rightarrow>
             (case insert_fwd this b1 (begin_cb this) ?spot m1 of
                None \<Rightarrow> None
              | Some (Done _ m2) \<Rightarrow> Some (Done ?spot (b1, m2))
              | Some (Thrown e m2) \<Rightarrow> Some (Thrown e (b1, m2))
              | Some Undefined \<Rightarrow> Some Undefined)
         | Some (Thrown e s) \<Rightarrow> Some (Thrown e s)
         | Some Undefined \<Rightarrow> Some Undefined)"
      using True
      by (simp add: insert_cb_def delta Let_def spot split: option.splits outcome.splits prod.splits)
    from push_front_spec [OF wf, of v]
    consider (ret) b1 m1 where "push_front b (Local v) m = Some (Done () (b1, m1))" "step_ok b m b1 m1"
        "contents b1 m1 = Some v # ?c" "cb_size b1 = cb_size b + 1" "faults m = [] \<longrightarrow> faults m1 = []"
      | (exc) e b1 m1 where "push_front b (Local v) m = Some (Thrown e (b1, m1))"
        "faults m \<noteq> [] \<or> \<not> room_for_push b m"
      | (und) "push_front b (Local v) m = Some Undefined" "\<not> room_for_push b m"
      by blast
    then show ?thesis
    proof cases
      case exc
      then show ?thesis using unf by auto
    next
      case und
      then show ?thesis using unf by auto
    next
      case ret
      have wf1: "wf_buf b1 m1" using ret(2) by (rule step_ok_wf)
      have n1: "unat (cb_size b1) = Suc ?n" using ret(4) unat_succ [OF nl] by simp
      have dn: "?d < unat (cb_size b1)" using pos n1 by simp
      have bi: "it_buff (begin_cb this) = this" and k: "unat (it_offset (begin_cb this)) = 0"
        by (simp_all add: begin_cb_def)
      from insert_fwd_spec [OF wf1 bi bs k ds _ dn]
      consider (ret2) m2 where "insert_fwd this b1 (begin_cb this) ?spot m1 = Some (Done () m2)"
          "keeps b1 m1 m2"
          "\<forall>j < unat (cb_size b1). contents b1 m2 ! j =
             (if 0 \<le> j \<and> j < ?d then contents b1 m1 ! Suc j
              else if j = ?d then contents b1 m1 ! 0 else contents b1 m1 ! j)"
          "faults m1 = [] \<longrightarrow> faults m2 = []"
        | (exc2) e m2 where "insert_fwd this b1 (begin_cb this) ?spot m1 = Some (Thrown e m2)"
          "faults m1 \<noteq> []"
        by auto
      then show ?thesis
      proof cases
        case exc2
        then show ?thesis using unf ret(1,5) by auto
      next
        case ret2
        have "contents b1 m2 = take ?d ?c @ Some v # drop ?d ?c"
        proof (rule nth_equalityI)
          show "length (contents b1 m2) = length (take ?d ?c @ Some v # drop ?d ?c)"
            using n1 pos by simp
        next
          fix j assume "j < length (contents b1 m2)"
          then have j: "j < unat (cb_size b1)" by simp
          have "contents b1 m2 ! j =
              (if j < ?d then ?c ! j else if j = ?d then Some v else ?c ! (j - 1))"
            using ret2(3) j ret(3) by (auto simp: nth_Cons')
          also have "\<dots> = (take ?d ?c @ Some v # drop ?d ?c) ! j"
            using j n1 pos len by (auto simp: nth_append nth_Cons' min_def)
          finally show "contents b1 m2 ! j = (take ?d ?c @ Some v # drop ?d ?c) ! j" .
        qed
        then show ?thesis
          using unf ret(1,5) ret2(1,4) keeps_wf [OF ret2(2)] n1 by auto
      qed
    qed
  next
    case False
    have unf: "insert_cb this b pos (Local v) m =
        (case push_back b (Local v) m of
           None \<Rightarrow> None
         | Some (Done _ (b1, m1)) \<Rightarrow>
             (case insert_bwd this b1 (it_minus (end_cb this b1) 1) ?spot m1 of
                None \<Rightarrow> None
              | Some (Done _ m2) \<Rightarrow> Some (Done ?spot (b1, m2))
              | Some (Thrown e m2) \<Rightarrow> Some (Thrown e (b1, m2))
              | Some Undefined \<Rightarrow> Some Undefined)
         | Some (Thrown e s) \<Rightarrow> Some (Thrown e s)
         | Some Undefined \<Rightarrow> Some Undefined)"
      using False
      by (simp add: insert_cb_def delta Let_def spot split: option.splits outcome.splits prod.splits)
    from push_back_spec [OF wf, of v]
    consider (ret) b1 m1 where "push_back b (Local v) m = Some (Done () (b1, m1))" "step_ok b m b1 m1"
        "contents b1 m1 = ?c @ [Some v]" "cb_size b1 = cb_size b + 1" "faults m = [] \<longrightarrow> faults m1 = []"
      | (exc) e b1 m1 where "push_back b (Local v) m = Some (Thrown e (b1, m1))"
        "faults m \<noteq> [] \<or> \<not> room_for_push b m"
      | (und) "push_back b (Local v) m = Some Undefined" "\<not> room_for_push b m"
      by blast
    then show ?thesis
    proof cases
      case exc
      then show ?thesis using unf by auto
    next
      case und
      then show ?thesis using unf by auto
    next
      case ret
      let ?i = "it_minus (end_cb this b1) 1"
      have wf1: "wf_buf b1 m1" using ret(2) by (rule step_ok_wf)
      have n1: "unat (cb_size b1) = Suc ?n" using ret(4) unat_succ [OF nl] by simp
      have nz: "cb_size b1 \<noteq> 0" using n1 by auto
      have bi: "it_buff ?i = this" by (simp add: it_minus_def it_plus_def end_cb_def)
      have k: "unat (it_offset ?i) = ?n"
        using unat_pred(2) [OF nz] n1 by (simp add: it_minus_def it_plus_def end_cb_def)
      have kn: "?n < unat (cb_size b1)" using n1 by simp
      from insert_bwd_spec [OF wf1 bi bs k ds pos kn]
      consider (ret2) m2 where "insert_bwd this b1 ?i ?spot m1 = Some (Done () m2)"
          "keeps b1 m1 m2"
          "\<forall>j < unat (cb_size b1). contents b1 m2 ! j =
             (if ?d < j \<and> j \<le> ?n then contents b1 m1 ! (j - 1)
              else if j = ?d then contents b1 m1 ! ?n else contents b1 m1 ! j)"
          "faults m1 = [] \<longrightarrow> faults m2 = []"
        | (exc2) e m2 where "insert_bwd this b1 ?i ?spot m1 = Some (Thrown e m2)"
          "faults m1 \<noteq> []"
        by blast
      then show ?thesis
      proof cases
        case exc2
        then show ?thesis using unf ret(1,5) by auto
      next
        case ret2
        have "contents b1 m2 = take ?d ?c @ Some v # drop ?d ?c"
        proof (rule nth_equalityI)
          show "length (contents b1 m2) = length (take ?d ?c @ Some v # drop ?d ?c)"
            using n1 pos by simp
        next
          fix j assume "j < length (contents b1 m2)"
          then have j: "j < unat (cb_size b1)" by simp
          have "contents b1 m2 ! j =
              (if j < ?d then ?c ! j else if j = ?d then Some v else ?c ! (j - 1))"
            using ret2(3) j ret(3) n1 pos len by (auto simp: nth_append)
          also have "\<dots> = (take ?d ?c @ Some v # drop ?d ?c) ! j"
            using j n1 pos len by (auto simp: nth_append nth_Cons' min_def)
          finally show "contents b1 m2 ! j = (take ?d ?c @ Some v # drop ?d ?c) ! j" .
        qed
        then show ?thesis
          using unf ret(1,5) ret2(1,4) keeps_wf [OF ret2(2)] n1 by auto
      qed
    qed
  qed
qed

text \<open>
  Insertion of a value (an object that is not an element of a buffer): let \<open>pos\<close> be a
  position of a well-formed buffer, at the logical index \<open>d\<close> with
  \<open>0 \<le> d \<le> size()\<close> (so \<open>begin() \<le> pos \<le> end()\<close>). Whenever \<open>insert(pos, v)\<close> returns
  normally, the returned iterator is at index \<open>d\<close>, the size has grown by one, the element
  read at index \<open>d\<close> is \<open>v\<close>, every element that was before index \<open>d\<close> is at the index it
  had, and every element that was at an index \<open>j \<ge> d\<close> is at index \<open>j + 1\<close>: the content is
  the old one with \<open>v\<close> put in at index \<open>d\<close>. The call does return normally when no
  allocation and no operation on an element fails and the push it starts with has the
  room it needs.
\<close>

lemma insert_shifts_later_elements:
  assumes "wf_buf b m" and "unat (it_offset pos) \<le> unat (cb_size b)"
  shows "(\<forall>it b' m'. insert_cb this b pos (Local v) m = Some (Done it (b', m')) \<longrightarrow>
            wf_buf b' m' \<and> it = \<lparr>it_buff = this, it_offset = it_offset pos\<rparr> \<and>
            unat (cb_size b') = unat (cb_size b) + 1 \<and>
            contents b' m' ! unat (it_offset pos) = Some v \<and>
            (\<forall>j < unat (it_offset pos). contents b' m' ! j = contents b m ! j) \<and>
            (\<forall>j. unat (it_offset pos) \<le> j \<and> j < unat (cb_size b) \<longrightarrow>
               contents b' m' ! (j + 1) = contents b m ! j) \<and>
            contents b' m' =
              take (unat (it_offset pos)) (contents b m) @ [Some v] @
              drop (unat (it_offset pos)) (contents b m)) \<and>
         (faults m = [] \<and> room_for_push b m \<longrightarrow>
            (\<exists>it b' m'. insert_cb this b pos (Local v) m = Some (Done it (b', m'))))"
proof -
  let ?d = "unat (it_offset pos)" and ?c = "contents b m"
  have len: "length ?c = unat (cb_size b)" by simp
  from insert_cb_spec [OF assms, of this v]
  consider (ret) b1 m1 where
      "insert_cb this b pos (Local v) m = Some (Done \<lparr>it_buff = this, it_offset = it_offset pos\<rparr> (b1, m1))"
      "wf_buf b1 m1" "unat (cb_size b1) = Suc (unat (cb_size b))"
      "contents b1 m1 = take ?d ?c @ Some v # drop ?d ?c"
    | (exc) e s where "insert_cb this b pos (Local v) m = Some (Thrown e s)"
      "faults m \<noteq> [] \<or> \<not> room_for_push b m"
    | (und) "insert_cb this b pos (Local v) m = Some Undefined" "\<not> room_for_push b m"
    by blast
  then show ?thesis
  proof cases
    case exc
    then show ?thesis by auto
  next
    case und
    then show ?thesis by auto
  next
    case ret
    have a: "(take ?d ?c @ Some v # drop ?d ?c) ! ?d = Some v"
      using assms(2) len by (simp add: nth_append)
    have b: "\<forall>j < ?d. (take ?d ?c @ Some v # drop ?d ?c) ! j = ?c ! j"
      using assms(2) len by (simp add: nth_append)
    have c: "\<forall>j. ?d \<le> j \<and> j < unat (cb_size b) \<longrightarrow>
        (take ?d ?c @ Some v # drop ?d ?c) ! (j + 1) = ?c ! j"
      using assms(2) len by (auto simp: nth_append min_def Suc_diff_le)
    show ?thesis using ret a b c by simp
  qed
qed

lemma insert_shifts_later_elements_example:
  "wf_buf one_full (one_full_store []) \<and>
   unat (it_offset (begin_cb 0)) \<le> unat (cb_size one_full) \<and>
   (\<exists>b' m'. insert_cb 0 one_full (begin_cb 0) (Local 5) (one_full_store []) =
        Some (Done (begin_cb 0) (b', m')) \<and>
      contents b' m' = [Some 5, Some 7] \<and> unat (cb_size b') = 2)"
proof -
  note w = wf_one_full [of "[]"]
  have p: "unat (it_offset (begin_cb 0)) \<le> unat (cb_size one_full)"
    by (simp add: begin_cb_def)
  have f: "faults (one_full_store []) = [] \<and> room_for_push one_full (one_full_store [])"
    by (simp add: one_full_store_def one_full_def alloc_limit_def room_for_push_def fits_def)
  have s: "unat (cb_size one_full) = 1" by (simp add: one_full_def)
  note t = insert_shifts_later_elements [OF w p, of 0 5]
  from t f obtain it b' m' where
    r: "insert_cb 0 one_full (begin_cb 0) (Local 5) (one_full_store []) = Some (Done it (b', m'))"
    by blast
  from t r have "it = begin_cb 0" and "unat (cb_size b') = 2"
    and "contents b' m' = [Some 5, Some 7]"
    using s by (simp_all add: begin_cb_def contents_one_full)
  then show ?thesis using w p r by blast
qed

section \<open>The shifting loops of erase\<close>

lemma sint_small:
  fixes w :: ptrdiff_t
  assumes "unat w < 2 ^ 63"
  shows "sint w = int (unat w)"
proof -
  have "int (unat w) < 2 ^ 63" using assms by (metis of_nat_less_iff of_nat_numeral of_nat_power)
  then have u: "uint w < 2 ^ 63" by simp
  have "sint w = signed_take_bit (LENGTH(64) - Suc 0) (uint w)" by (rule sint_uint)
  also have "\<dots> = signed_take_bit 63 (uint w)" by simp
  also have "\<dots> = uint w"
  proof (rule signed_take_bit_int_eq_self)
    have "- (2 ^ 63) \<le> (0::int)" by simp
    also have "(0::int) \<le> uint w" by simp
    finally show "- (2 ^ 63) \<le> uint w" .
    show "uint w < 2 ^ 63" by (rule u)
  qed
  finally show ?thesis by simp
qed

lemma erase_left_spec:
  assumes wf: "wf_buf b m" and bi: "it_buff i = this"
    and k: "unat (it_offset i) = k" and dl: "unat delta = dl"
    and kn: "k + dl \<le> unat (cb_size b)"
  shows "(\<exists>m'. erase_left this b i delta m = Some (Done () m') \<and> keeps b m m' \<and>
            (\<forall>j < k. contents b m' ! j = contents b m ! j) \<and>
            (\<forall>j. k \<le> j \<and> j + dl < unat (cb_size b) \<longrightarrow>
               contents b m' ! j = contents b m ! (j + dl)) \<and>
            (faults m = [] \<longrightarrow> faults m' = [])) \<or>
         (\<exists>e m'. erase_left this b i delta m = Some (Thrown e m') \<and> keeps b m m' \<and>
            faults m \<noteq> [])"
  using wf bi k kn
proof (induction "unat (cb_size b) - dl - k" arbitrary: i k m)
  case 0
  let ?n = "unat (cb_size b)"
  have e: "k + dl = ?n" using 0 by simp
  have "k + dl < 2 ^ 64" using e wf_buf_limits [OF 0(2)] alloc_limit_lt by simp
  then have "unat (it_offset i + delta) = k + dl"
    using unat_add_small [of "it_offset i" delta] 0(4) dl by simp
  then have "it_offset i + delta = cb_size b" using e by (simp add: word_unat_eq_iff)
  then have "\<not> it_lt (it_plus i delta) (end_cb this b)"
    using 0(3) by (simp add: it_lt_def it_eq_def it_plus_def end_cb_def)
  then have "erase_left this b i delta m = Some (Done () m)"
    by (subst erase_left.simps) simp
  then show ?case using e keeps_refl [OF 0(2)] by auto
next
  case (Suc x)
  let ?n = "unat (cb_size b)" and ?c = "contents b m"
  have lt: "k + dl < ?n" using Suc.hyps(2) by simp
  have "k + dl < 2 ^ 64" using lt wf_buf_limits [OF Suc.prems(1)] alloc_limit_lt by simp
  then have o: "unat (it_offset i + delta) = k + dl"
    using unat_add_small [of "it_offset i" delta] Suc.prems(3) dl by simp
  have c: "it_lt (it_plus i delta) (end_cb this b)"
    using o lt Suc.prems(2)
    by (auto simp: it_lt_def it_eq_def it_gt_def it_plus_def end_cb_def word_less_nat_alt
        word_unat_eq_iff)
  have "unat (it_offset i) \<le> alloc_limit"
    using Suc.prems(3) lt wf_buf_limits [OF Suc.prems(1)] by simp
  then have k1: "unat (it_offset i + 1) = Suc k" using unat_succ Suc.prems(3) by simp
  have unf: "erase_left this b i delta m =
      (case iter_swap this b i (it_plus i delta) m of
         Done _ m' \<Rightarrow> erase_left this b (it_inc i) delta m'
       | Thrown e m' \<Rightarrow> Some (Thrown e m')
       | Undefined \<Rightarrow> Some Undefined)"
    using c by (subst erase_left.simps) simp
  have bj: "it_buff (it_plus i delta) = this" using Suc.prems(2) by (simp add: it_plus_def)
  have p: "unat (it_offset i) < ?n" using Suc.prems(3) lt by simp
  have q: "unat (it_offset (it_plus i delta)) < ?n" using o lt by (simp add: it_plus_def)
  from iter_swap_spec [OF Suc.prems(1,2) bj p q]
  consider (ret) m1 where "iter_swap this b i (it_plus i delta) m = Done () m1" "keeps b m m1"
      "contents b m1 = ?c[k := ?c ! (k + dl), k + dl := ?c ! k]" "faults m = [] \<longrightarrow> faults m1 = []"
    | (exc) m1 where "iter_swap this b i (it_plus i delta) m = Thrown element_error m1"
      "faults m \<noteq> []"
    using Suc.prems(3) o by (auto simp: it_plus_def)
  then show ?case
  proof cases
    case exc
    have "keeps b m m1" using keeps_iter_swap_Thrown [OF Suc.prems(1) exc(1)] .
    then show ?thesis using unf exc by auto
  next
    case ret
    have unf1: "erase_left this b i delta m = erase_left this b (it_inc i) delta m1"
      using unf ret(1) by simp
    have x: "x = ?n - dl - Suc k" using Suc.hyps(2) by simp
    have bi1: "it_buff (it_inc i) = this" using Suc.prems(2) by (simp add: it_inc_def)
    have ki1: "unat (it_offset (it_inc i)) = Suc k" using k1 by (simp add: it_inc_def)
    have skd: "Suc k + dl \<le> ?n" using lt by simp
    from Suc.hyps(1) [OF x keeps_wf [OF ret(2)] bi1 ki1 skd]
    consider (ret2) m' where "erase_left this b (it_inc i) delta m1 = Some (Done () m')"
        "keeps b m1 m'"
        "\<forall>j < Suc k. contents b m' ! j = contents b m1 ! j"
        "\<forall>j. Suc k \<le> j \<and> j + dl < ?n \<longrightarrow> contents b m' ! j = contents b m1 ! (j + dl)"
        "faults m1 = [] \<longrightarrow> faults m' = []"
      | (exc2) e m' where "erase_left this b (it_inc i) delta m1 = Some (Thrown e m')"
        "keeps b m1 m'" "faults m1 \<noteq> []"
      by blast
    then show ?thesis
    proof cases
      case exc2
      then show ?thesis using unf1 ret(4) keeps_trans [OF ret(2) exc2(2)] by auto
    next
      case ret2
      have len: "length ?c = ?n" by simp
      have c1: "\<And>t. t < ?n \<Longrightarrow> contents b m1 ! t =
          (if t = k + dl then ?c ! k else if t = k then ?c ! (k + dl) else ?c ! t)"
        using ret(3) len by (simp add: nth_list_update)
      have a: "\<forall>j < k. contents b m' ! j = ?c ! j"
      proof (intro allI impI)
        fix j assume j: "j < k"
        then have "j < ?n" using lt by simp
        from c1 [OF this] ret2(3) j show "contents b m' ! j = ?c ! j" by simp
      qed
      have b: "\<forall>j. k \<le> j \<and> j + dl < ?n \<longrightarrow> contents b m' ! j = ?c ! (j + dl)"
      proof (intro allI impI)
        fix j assume j: "k \<le> j \<and> j + dl < ?n"
        show "contents b m' ! j = ?c ! (j + dl)"
        proof (cases "j = k")
          case True
          have "k < ?n" using lt by simp
          from c1 [OF this] ret2(3) True show ?thesis by auto
        next
          case False
          then have "Suc k \<le> j" using j by simp
          then have "contents b m' ! j = contents b m1 ! (j + dl)" using ret2(4) j by simp
          also have "\<dots> = ?c ! (j + dl)" using c1 [of "j + dl"] j False by simp
          finally show ?thesis .
        qed
      qed
      show ?thesis
        using unf1 ret2(1,5) keeps_trans [OF ret(2) ret2(2)] ret(4) a b by auto
    qed
  qed
qed


lemma erase_right_spec:
  assumes wf: "wf_buf b m" and bi: "it_buff i = this"
    and k: "unat (it_offset i) = k" and dl: "unat delta = dl" and d0: "0 < dl"
    and kn: "k < unat (cb_size b)"
  shows "(\<exists>m'. erase_right this b i delta m = Some (Done () m') \<and> keeps b m m' \<and>
            (\<forall>j. k < j \<and> j < unat (cb_size b) \<longrightarrow> contents b m' ! j = contents b m ! j) \<and>
            (\<forall>j. dl \<le> j \<and> j \<le> k \<longrightarrow> contents b m' ! j = contents b m ! (j - dl)) \<and>
            (faults m = [] \<longrightarrow> faults m' = [])) \<or>
         (\<exists>e m'. erase_right this b i delta m = Some (Thrown e m') \<and> keeps b m m' \<and>
            faults m \<noteq> [])"
  using wf bi k kn
proof (induction "Suc k - dl" arbitrary: i k m)
  case 0
  have lt: "k < dl" using 0(1) by simp
  have o: "it_offset (it_plus (begin_cb this) delta) = delta"
    by (simp add: it_plus_def begin_cb_def)
  have "\<not> it_ge i (it_plus (begin_cb this) delta)"
    using lt 0(4) dl o
    by (auto simp: it_ge_def it_gt_def it_eq_def word_less_nat_alt)
  then have "erase_right this b i delta m = Some (Done () m)"
    by (subst erase_right.simps) simp
  then show ?case using lt keeps_refl [OF 0(2)] by auto
next
  case (Suc x)
  let ?n = "unat (cb_size b)" and ?c = "contents b m"
  have ge: "dl \<le> k" using Suc.hyps(2) by simp
  have o: "it_plus (begin_cb this) delta = \<lparr>it_buff = this, it_offset = delta\<rparr>"
    by (simp add: it_plus_def begin_cb_def)
  have le: "delta \<le> it_offset i" using ge Suc.prems(3) dl by (simp add: word_le_nat_alt)
  have c: "it_ge i (it_plus (begin_cb this) delta)"
    using le Suc.prems(2) unfolding o
    by (auto simp: it_ge_def it_gt_def it_eq_def)
  have od: "unat (it_offset i + (- delta)) = k - dl"
    using unat_sub [OF le] Suc.prems(3) dl by simp
  have nz: "it_offset i \<noteq> 0" using Suc.prems(3) ge d0 by auto
  have k1: "unat (it_offset i - 1) = k - 1"
    using unat_pred(1) [OF nz] Suc.prems(3) by simp
  have unf: "erase_right this b i delta m =
      (case iter_swap this b i (it_minus i delta) m of
         Done _ m' \<Rightarrow> erase_right this b (it_dec i) delta m'
       | Thrown e m' \<Rightarrow> Some (Thrown e m')
       | Undefined \<Rightarrow> Some Undefined)"
    using c by (subst erase_right.simps) simp
  have bj: "it_buff (it_minus i delta) = this"
    using Suc.prems(2) by (simp add: it_minus_def it_plus_def)
  have oj: "unat (it_offset (it_minus i delta)) = k - dl"
    using od by (simp add: it_minus_def it_plus_def)
  have p: "unat (it_offset i) < ?n" using Suc.prems(3,4) by simp
  have q: "unat (it_offset (it_minus i delta)) < ?n" using oj Suc.prems(4) by simp
  from iter_swap_spec [OF Suc.prems(1,2) bj p q]
  consider (ret) m1 where "iter_swap this b i (it_minus i delta) m = Done () m1" "keeps b m m1"
      "contents b m1 = ?c[k := ?c ! (k - dl), k - dl := ?c ! k]" "faults m = [] \<longrightarrow> faults m1 = []"
    | (exc) m1 where "iter_swap this b i (it_minus i delta) m = Thrown element_error m1"
      "faults m \<noteq> []"
    using Suc.prems(3) oj by auto
  then show ?case
  proof cases
    case exc
    have "keeps b m m1" using keeps_iter_swap_Thrown [OF Suc.prems(1) exc(1)] .
    then show ?thesis using unf exc by auto
  next
    case ret
    have unf1: "erase_right this b i delta m = erase_right this b (it_dec i) delta m1"
      using unf ret(1) by simp
    have x: "x = Suc (k - 1) - dl" using Suc.hyps(2) ge d0 by simp
    have bi1: "it_buff (it_dec i) = this" using Suc.prems(2) by (simp add: it_dec_def)
    have ki1: "unat (it_offset (it_dec i)) = k - 1" using k1 by (simp add: it_dec_def)
    have kn1: "k - 1 < ?n" using Suc.prems(4) by simp
    from Suc.hyps(1) [OF x keeps_wf [OF ret(2)] bi1 ki1 kn1]
    consider (ret2) m' where "erase_right this b (it_dec i) delta m1 = Some (Done () m')"
        "keeps b m1 m'"
        "\<forall>j. k - 1 < j \<and> j < ?n \<longrightarrow> contents b m' ! j = contents b m1 ! j"
        "\<forall>j. dl \<le> j \<and> j \<le> k - 1 \<longrightarrow> contents b m' ! j = contents b m1 ! (j - dl)"
        "faults m1 = [] \<longrightarrow> faults m' = []"
      | (exc2) e m' where "erase_right this b (it_dec i) delta m1 = Some (Thrown e m')"
        "keeps b m1 m'" "faults m1 \<noteq> []"
      by blast
    then show ?thesis
    proof cases
      case exc2
      then show ?thesis using unf1 ret(4) keeps_trans [OF ret(2) exc2(2)] by auto
    next
      case ret2
      have len: "length ?c = ?n" by simp
      have c1: "\<And>t. t < ?n \<Longrightarrow> contents b m1 ! t =
          (if t = k - dl then ?c ! k else if t = k then ?c ! (k - dl) else ?c ! t)"
        using ret(3) len by (simp add: nth_list_update)
      have a: "\<forall>j. k < j \<and> j < ?n \<longrightarrow> contents b m' ! j = ?c ! j"
      proof (intro allI impI)
        fix j assume j: "k < j \<and> j < ?n"
        then have "k - 1 < j \<and> j < ?n" by auto
        then have "contents b m' ! j = contents b m1 ! j" using ret2(3) by blast
        also have "\<dots> = ?c ! j"
        proof -
          have "j \<noteq> k - dl" and "j \<noteq> k" using j by auto
          then show ?thesis using c1 [of j] j by simp
        qed
        finally show "contents b m' ! j = ?c ! j" .
      qed
      have b: "\<forall>j. dl \<le> j \<and> j \<le> k \<longrightarrow> contents b m' ! j = ?c ! (j - dl)"
      proof (intro allI impI)
        fix j assume j: "dl \<le> j \<and> j \<le> k"
        show "contents b m' ! j = ?c ! (j - dl)"
        proof (cases "j = k")
          case True
          have "contents b m' ! k = contents b m1 ! k" using ret2(3) Suc.prems(4) ge d0 by simp
          also have "\<dots> = ?c ! (k - dl)" using c1 [of k] Suc.prems(4) ge d0 by simp
          finally show ?thesis using True by simp
        next
          case False
          then have "j \<le> k - 1" using j by auto
          then have "contents b m' ! j = contents b m1 ! (j - dl)" using ret2(4) j by blast
          also have "\<dots> = ?c ! (j - dl)"
          proof -
            have "j - dl \<noteq> k - dl" and "j - dl \<noteq> k" and "j - dl < ?n"
              using j False Suc.prems(4) d0 by auto
            then show ?thesis using c1 [of "j - dl"] by simp
          qed
          finally show ?thesis .
        qed
      qed
      show ?thesis
        using unf1 ret2(1,5) keeps_trans [OF ret(2) ret2(2)] ret(4) a b by auto
    qed
  qed
qed

section \<open>The popping loops of erase\<close>

lemma pop_back_n_spec:
  assumes wf: "wf_buf b m" and r: "nat (sint delta - i) = r"
    and rn: "r \<le> unat (cb_size b)" and small: "sint delta \<le> INT_MAX"
  shows "\<exists>b' m'. pop_back_n b i delta m = Done () (b', m') \<and> step_ok b m b' m' \<and>
           contents b' m' = take (unat (cb_size b) - r) (contents b m) \<and>
           unat (cb_size b') = unat (cb_size b) - r \<and> faults m' = faults m"
  using wf r rn
proof (induction r arbitrary: b i m)
  case 0
  then have "\<not> i < sint delta" by simp
  then have "pop_back_n b i delta m = Done () (b, m)" by (subst pop_back_n.simps) simp
  then show ?case using step_ok_refl [OF 0(1)] by simp
next
  case (Suc r)
  let ?n = "unat (cb_size b)"
  have lt: "i < sint delta" using Suc.prems(2) by linarith
  have ni: "i \<noteq> INT_MAX" using lt small by simp
  have n0: "cb_size b \<noteq> 0" using Suc.prems(3) by auto
  from pop_back_ok [OF Suc.prems(1) n0] obtain m1 where
    pb: "pop_back b m = Done () (b\<lparr>cb_size := cb_size b - 1\<rparr>, m1)" by blast
  let ?b1 = "b\<lparr>cb_size := cb_size b - 1\<rparr>"
  note pd = pop_back_Done [OF Suc.prems(1) pb]
  have unf: "pop_back_n b i delta m = pop_back_n ?b1 (i + 1) delta m1"
    using lt ni pb by (subst pop_back_n.simps) simp
  have n1: "unat (cb_size ?b1) = ?n - 1" using unat_pred(1) [OF n0] by simp
  have r1: "nat (sint delta - (i + 1)) = r" using Suc.prems(2) by linarith
  have rn1: "r \<le> unat (cb_size ?b1)" using n1 Suc.prems(3) by simp
  from Suc.IH [OF pd(1) r1 rn1] obtain b' m' where
    res: "pop_back_n ?b1 (i + 1) delta m1 = Done () (b', m')" "step_ok ?b1 m1 b' m'"
      "contents b' m' = take (unat (cb_size ?b1) - r) (contents ?b1 m1)"
      "unat (cb_size b') = unat (cb_size ?b1) - r" "faults m' = faults m1"
    by blast
  have s1: "step_ok b m ?b1 m1" using step_ok_pop_back [OF Suc.prems(1) pb] .
  have "contents b' m' = take (?n - 1 - r) (butlast (contents b m))"
    using res(3) pd(2) n1 by simp
  also have "\<dots> = take (?n - Suc r) (contents b m)"
    by (simp add: butlast_conv_take min_def)
  finally have c: "contents b' m' = take (?n - Suc r) (contents b m)" .
  show ?case
    using unf res(1,4,5) step_ok_trans [OF s1 res(2)] c n1 pd(6) by simp
qed

lemma pop_front_n_spec:
  assumes wf: "wf_buf b m" and r: "nat (sint delta - i) = r"
    and rn: "r \<le> unat (cb_size b)" and small: "sint delta \<le> INT_MAX"
  shows "\<exists>b' m'. pop_front_n b i delta m = Done () (b', m') \<and> step_ok b m b' m' \<and>
           contents b' m' = drop r (contents b m) \<and>
           unat (cb_size b') = unat (cb_size b) - r \<and> faults m' = faults m"
  using wf r rn
proof (induction r arbitrary: b i m)
  case 0
  then have "\<not> i < sint delta" by simp
  then have "pop_front_n b i delta m = Done () (b, m)" by (subst pop_front_n.simps) simp
  then show ?case using step_ok_refl [OF 0(1)] by simp
next
  case (Suc r)
  let ?n = "unat (cb_size b)"
  have lt: "i < sint delta" using Suc.prems(2) by linarith
  have ni: "i \<noteq> INT_MAX" using lt small by simp
  have n0: "cb_size b \<noteq> 0" using Suc.prems(3) by auto
  let ?b1 = "b\<lparr>cb_size := cb_size b - 1, cb_head := (cb_head b + 1) mod cb_capacity b\<rparr>"
  from pop_front_ok [OF Suc.prems(1) n0] obtain m1 where
    pb: "pop_front b m = Done () (?b1, m1)" by blast
  note pd = pop_front_Done [OF Suc.prems(1) pb]
  have unf: "pop_front_n b i delta m = pop_front_n ?b1 (i + 1) delta m1"
    using lt ni pb by (subst pop_front_n.simps) simp
  have n1: "unat (cb_size ?b1) = ?n - 1" using unat_pred(1) [OF n0] by simp
  have r1: "nat (sint delta - (i + 1)) = r" using Suc.prems(2) by linarith
  have rn1: "r \<le> unat (cb_size ?b1)" using n1 Suc.prems(3) by simp
  from Suc.IH [OF pd(1) r1 rn1] obtain b' m' where
    res: "pop_front_n ?b1 (i + 1) delta m1 = Done () (b', m')" "step_ok ?b1 m1 b' m'"
      "contents b' m' = drop r (contents ?b1 m1)"
      "unat (cb_size b') = unat (cb_size ?b1) - r" "faults m' = faults m1"
    by blast
  have s1: "step_ok b m ?b1 m1" using step_ok_pop_front [OF Suc.prems(1) pb] .
  have "contents b' m' = drop r (tl (contents b m))" using res(3) pd(2) by simp
  also have "\<dots> = drop (Suc r) (contents b m)" by (simp add: drop_Suc)
  finally have c: "contents b' m' = drop (Suc r) (contents b m)" .
  show ?case
    using unf res(1,4,5) step_ok_trans [OF s1 res(2)] c n1 pd(6) by simp
qed

text \<open>
  The counter of the popping loops cannot pass \<open>INT_MAX\<close>: when more than \<open>INT_MAX\<close>
  elements are to be removed, the loop ends in the overflow of its counter (or before,
  in a pop from an empty buffer).
\<close>

lemma pop_back_n_overflow:
  assumes "i \<le> INT_MAX" "INT_MAX < sint delta"
  shows "pop_back_n b i delta m = Undefined"
  using assms(1)
proof (induction "nat (INT_MAX - i)" arbitrary: b i m)
  case 0
  then have i: "i = INT_MAX" by simp
  then have lt: "i < sint delta" using assms(2) by simp
  show ?case using lt i
    by (subst pop_back_n.simps) (simp split: outcome.splits)
next
  case (Suc x)
  have lt: "i < sint delta" using Suc.prems assms(2) by simp
  have x: "x = nat (INT_MAX - (i + 1))" using Suc.hyps(2) by linarith
  have le: "i + 1 \<le> INT_MAX" using Suc.hyps(2) by linarith
  note ih = Suc.hyps(1) [OF x le]
  show ?case using lt ih
    by (subst pop_back_n.simps) (simp split: outcome.splits)
qed

lemma pop_front_n_overflow:
  assumes "i \<le> INT_MAX" "INT_MAX < sint delta"
  shows "pop_front_n b i delta m = Undefined"
  using assms(1)
proof (induction "nat (INT_MAX - i)" arbitrary: b i m)
  case 0
  then have i: "i = INT_MAX" by simp
  then have lt: "i < sint delta" using assms(2) by simp
  show ?case using lt i
    by (subst pop_front_n.simps) (simp split: outcome.splits)
next
  case (Suc x)
  have lt: "i < sint delta" using Suc.prems assms(2) by simp
  have x: "x = nat (INT_MAX - (i + 1))" using Suc.hyps(2) by linarith
  have le: "i + 1 \<le> INT_MAX" using Suc.hyps(2) by linarith
  note ih = Suc.hyps(1) [OF x le]
  show ?case using lt ih
    by (subst pop_front_n.simps) (simp split: outcome.splits)
qed


section \<open>Erasing a range\<close>

lemma iter_eta: "it_buff i = this \<Longrightarrow> i = \<lparr>it_buff = this, it_offset = it_offset i\<rparr>"
  by (cases i) simp

lemma erase_range:
  assumes wf: "wf_buf b m" and bf: "it_buff first = this" and bl: "it_buff last_it = this"
    and fl: "unat (it_offset first) \<le> unat (it_offset last_it)"
    and ln: "unat (it_offset last_it) \<le> unat (cb_size b)"
  shows "unat (it_diff last_it first) = unat (it_offset last_it) - unat (it_offset first)"
    and "sint (it_diff last_it first) =
      int (unat (it_offset last_it) - unat (it_offset first))"
proof -
  have le: "it_offset first \<le> it_offset last_it" using fl by (simp add: word_le_nat_alt)
  show u: "unat (it_diff last_it first) = unat (it_offset last_it) - unat (it_offset first)"
    unfolding it_diff_def by (rule unat_sub [OF le])
  have "unat (it_diff last_it first) \<le> alloc_limit"
    using u ln wf_buf_limits [OF wf] by simp
  then have "unat (it_diff last_it first) < 2 ^ 63" by (simp add: alloc_limit_def)
  then have "sint (it_diff last_it first) = int (unat (it_diff last_it first))"
    by (rule sint_small)
  then show "sint (it_diff last_it first) =
      int (unat (it_offset last_it) - unat (it_offset first))"
    by (simp only: u)
qed

lemma erase_spec:
  assumes wf: "wf_buf b m" and bf: "it_buff first = this" and bl: "it_buff last_it = this"
    and fl: "unat (it_offset first) \<le> unat (it_offset last_it)"
    and ln: "unat (it_offset last_it) \<le> unat (cb_size b)"
    and small: "int (unat (it_offset last_it) - unat (it_offset first)) \<le> INT_MAX"
  shows "(\<exists>b' m'. erase this b first last_it m = Some (Done first (b', m')) \<and>
            step_ok b m b' m' \<and>
            unat (cb_size b') =
              unat (cb_size b) - (unat (it_offset last_it) - unat (it_offset first)) \<and>
            contents b' m' =
              take (unat (it_offset first)) (contents b m) @
              drop (unat (it_offset last_it)) (contents b m) \<and>
            (faults m = [] \<longrightarrow> faults m' = [])) \<or>
         (\<exists>e s. erase this b first last_it m = Some (Thrown e s) \<and> faults m \<noteq> [])"
proof -
  let ?n = "unat (cb_size b)" and ?c = "contents b m"
  let ?f = "unat (it_offset first)" and ?l = "unat (it_offset last_it)"
  let ?delta = "it_diff last_it first"
  note dl = erase_range [OF wf bf bl fl ln]
  have sm: "sint ?delta \<le> INT_MAX" using dl(2) small by simp
  have r: "nat (sint ?delta - 0) = ?l - ?f" using dl(2) by simp
  have len: "length ?c = ?n" by simp
  show ?thesis
  proof (cases "it_diff (end_cb this b) last_it < cb_size b div 2")
    case True
    have unf: "erase this b first last_it m =
        (case erase_left this b first ?delta m of
           None \<Rightarrow> None
         | Some (Done _ m1) \<Rightarrow>
             (case pop_back_n b 0 ?delta m1 of
                Done _ s \<Rightarrow> Some (Done first s)
              | Thrown e s \<Rightarrow> Some (Thrown e s)
              | Undefined \<Rightarrow> Some Undefined)
         | Some (Thrown e m1) \<Rightarrow> Some (Thrown e (b, m1))
         | Some Undefined \<Rightarrow> Some Undefined)"
      using True by (simp add: erase_def Let_def)
    have kn: "?f + (?l - ?f) \<le> ?n" using fl ln by simp
    from erase_left_spec [OF wf bf refl dl(1) kn]
    consider (ret) m1 where "erase_left this b first ?delta m = Some (Done () m1)"
        "keeps b m m1"
        "\<forall>j < ?f. contents b m1 ! j = ?c ! j"
        "\<forall>j. ?f \<le> j \<and> j + (?l - ?f) < ?n \<longrightarrow> contents b m1 ! j = ?c ! (j + (?l - ?f))"
        "faults m = [] \<longrightarrow> faults m1 = []"
      | (exc) e m1 where "erase_left this b first ?delta m = Some (Thrown e m1)"
        "faults m \<noteq> []"
      by blast
    then show ?thesis
    proof cases
      case exc
      then show ?thesis using unf by auto
    next
      case ret
      have rn: "?l - ?f \<le> ?n" using ln by simp
      from pop_back_n_spec [OF keeps_wf [OF ret(2)] r rn sm] obtain b' m' where
        pp: "pop_back_n b 0 ?delta m1 = Done () (b', m')" "step_ok b m1 b' m'"
          "contents b' m' = take (?n - (?l - ?f)) (contents b m1)"
          "unat (cb_size b') = ?n - (?l - ?f)" "faults m' = faults m1"
        by blast
      have st: "step_ok b m b' m'" using step_ok_trans [OF keeps_step [OF ret(2)] pp(2)] .
      have "take (?n - (?l - ?f)) (contents b m1) = take ?f ?c @ drop ?l ?c"
      proof (rule nth_equalityI)
        show "length (take (?n - (?l - ?f)) (contents b m1)) = length (take ?f ?c @ drop ?l ?c)"
          using fl ln by simp
      next
        fix j assume "j < length (take (?n - (?l - ?f)) (contents b m1))"
        then have j: "j < ?n - (?l - ?f)" by simp
        then have jn: "j + (?l - ?f) < ?n" by simp
        have "take (?n - (?l - ?f)) (contents b m1) ! j = contents b m1 ! j" using j by simp
        also have "\<dots> = (if j < ?f then ?c ! j else ?c ! (j + (?l - ?f)))"
          using ret(3,4) jn by auto
        also have "\<dots> = (take ?f ?c @ drop ?l ?c) ! j"
          using j fl ln len by (auto simp: nth_append min_def add.commute)
        finally show "take (?n - (?l - ?f)) (contents b m1) ! j = (take ?f ?c @ drop ?l ?c) ! j" .
      qed
      then have c: "contents b' m' = take ?f ?c @ drop ?l ?c" using pp(3) by simp
      show ?thesis using unf ret(1,5) pp(1,4,5) st c by auto
    qed
  next
    case False
    show ?thesis
    proof (cases "?delta = 0")
      case True
      have "erase this b first last_it m = Some (Done first (b, m))"
        using False True by (simp add: erase_def Let_def)
      moreover have "?l = ?f" using dl(1) True fl by simp
      ultimately show ?thesis using step_ok_refl [OF wf] len by auto
    next
      case nz: False
      let ?i = "it_minus last_it 1"
      have ret_it: "it_plus (begin_cb this) (it_diff first (begin_cb this)) = first"
        using bf by (cases first) (simp add: it_plus_def begin_cb_def it_diff_def)
      have unf: "erase this b first last_it m =
          (case erase_right this b ?i ?delta m of
             None \<Rightarrow> None
           | Some (Done _ m1) \<Rightarrow>
               (case pop_front_n b 0 ?delta m1 of
                  Done _ s \<Rightarrow> Some (Done first s)
                | Thrown e s \<Rightarrow> Some (Thrown e s)
                | Undefined \<Rightarrow> Some Undefined)
           | Some (Thrown e m1) \<Rightarrow> Some (Thrown e (b, m1))
           | Some Undefined \<Rightarrow> Some Undefined)"
        using False nz
        by (simp add: erase_def Let_def ret_it split: option.splits outcome.splits prod.splits)
      have d0: "0 < ?l - ?f" using nz dl(1) by (metis unat_eq_0 neq0_conv)
      have l0: "it_offset last_it \<noteq> 0" using d0 by auto
      have bi: "it_buff ?i = this" using bl by (simp add: it_minus_def it_plus_def)
      have k: "unat (it_offset ?i) = ?l - 1"
        using unat_pred(2) [OF l0] by (simp add: it_minus_def it_plus_def)
      have kn: "?l - 1 < ?n" using d0 ln by simp
      from erase_right_spec [OF wf bi k dl(1) d0 kn]
      consider (ret) m1 where "erase_right this b ?i ?delta m = Some (Done () m1)"
          "keeps b m m1"
          "\<forall>j. ?l - 1 < j \<and> j < ?n \<longrightarrow> contents b m1 ! j = ?c ! j"
          "\<forall>j. ?l - ?f \<le> j \<and> j \<le> ?l - 1 \<longrightarrow> contents b m1 ! j = ?c ! (j - (?l - ?f))"
          "faults m = [] \<longrightarrow> faults m1 = []"
        | (exc) e m1 where "erase_right this b ?i ?delta m = Some (Thrown e m1)"
          "faults m \<noteq> []"
        by blast
      then show ?thesis
      proof cases
        case exc
        then show ?thesis using unf by auto
      next
        case ret
        have rn: "?l - ?f \<le> ?n" using ln by simp
        from pop_front_n_spec [OF keeps_wf [OF ret(2)] r rn sm] obtain b' m' where
          pp: "pop_front_n b 0 ?delta m1 = Done () (b', m')" "step_ok b m1 b' m'"
            "contents b' m' = drop (?l - ?f) (contents b m1)"
            "unat (cb_size b') = ?n - (?l - ?f)" "faults m' = faults m1"
          by blast
        have st: "step_ok b m b' m'" using step_ok_trans [OF keeps_step [OF ret(2)] pp(2)] .
        have "drop (?l - ?f) (contents b m1) = take ?f ?c @ drop ?l ?c"
        proof (rule nth_equalityI)
          show "length (drop (?l - ?f) (contents b m1)) = length (take ?f ?c @ drop ?l ?c)"
            using fl ln by simp
        next
          fix j assume "j < length (drop (?l - ?f) (contents b m1))"
          then have j: "j < ?n - (?l - ?f)" by simp
          then have jn: "?l - ?f + j < ?n" by simp
          have "drop (?l - ?f) (contents b m1) ! j = contents b m1 ! (?l - ?f + j)"
            using jn by simp
          also have "\<dots> = (if j < ?f then ?c ! j else ?c ! (?l - ?f + j))"
          proof (cases "j < ?f")
            case True
            then have "?l - ?f \<le> ?l - ?f + j \<and> ?l - ?f + j \<le> ?l - 1" using fl d0 by auto
            then have "contents b m1 ! (?l - ?f + j) = ?c ! (?l - ?f + j - (?l - ?f))"
              using ret(4) by blast
            then show ?thesis using True by simp
          next
            case False
            then have "?l - 1 < ?l - ?f + j \<and> ?l - ?f + j < ?n" using fl d0 jn by auto
            then have "contents b m1 ! (?l - ?f + j) = ?c ! (?l - ?f + j)"
              using ret(3) by blast
            then show ?thesis using False by simp
          qed
          also have "\<dots> = (take ?f ?c @ drop ?l ?c) ! j"
            using j fl ln len by (auto simp: nth_append min_def add.commute)
          finally show "drop (?l - ?f) (contents b m1) ! j = (take ?f ?c @ drop ?l ?c) ! j" .
        qed
        then have c: "contents b' m' = take ?f ?c @ drop ?l ?c" using pp(3) by simp
        show ?thesis using unf ret(1,5) pp(1,4,5) st c by auto
      qed
    qed
  qed
qed

text \<open>
  A range of more than \<open>INT_MAX\<close> elements: the shifting loop is as before, and the
  popping loop after it ends in the overflow of its counter. The call never returns.
\<close>

lemma erase_overflow:
  assumes wf: "wf_buf b m" and bf: "it_buff first = this" and bl: "it_buff last_it = this"
    and fl: "unat (it_offset first) \<le> unat (it_offset last_it)"
    and ln: "unat (it_offset last_it) \<le> unat (cb_size b)"
    and big: "INT_MAX < int (unat (it_offset last_it) - unat (it_offset first))"
    and nf: "faults m = []"
  shows "erase this b first last_it m = Some Undefined"
proof -
  let ?n = "unat (cb_size b)"
  let ?f = "unat (it_offset first)" and ?l = "unat (it_offset last_it)"
  let ?delta = "it_diff last_it first"
  note dl = erase_range [OF wf bf bl fl ln]
  have sm: "INT_MAX < sint ?delta" using dl(2) big by simp
  have i0: "0 \<le> INT_MAX" by (simp add: INT_MAX_def)
  have d0: "0 < ?l - ?f" using big i0 by simp
  have nz: "?delta \<noteq> 0" using d0 dl(1) by auto
  show ?thesis
  proof (cases "it_diff (end_cb this b) last_it < cb_size b div 2")
    case True
    have kn: "?f + (?l - ?f) \<le> ?n" using fl ln by simp
    from erase_left_spec [OF wf bf refl dl(1) kn] nf obtain m1 where
      "erase_left this b first ?delta m = Some (Done () m1)" by blast
    then show ?thesis
      using True pop_back_n_overflow [OF i0 sm, of b m1] by (simp add: erase_def Let_def)
  next
    case False
    let ?i = "it_minus last_it 1"
    have l0: "it_offset last_it \<noteq> 0" using d0 by auto
    have bi: "it_buff ?i = this" using bl by (simp add: it_minus_def it_plus_def)
    have k: "unat (it_offset ?i) = ?l - 1"
      using unat_pred(2) [OF l0] by (simp add: it_minus_def it_plus_def)
    have kn: "?l - 1 < ?n" using d0 ln by simp
    from erase_right_spec [OF wf bi k dl(1) d0 kn] nf obtain m1 where
      "erase_right this b ?i ?delta m = Some (Done () m1)" by blast
    then show ?thesis
      using False nz pop_front_n_overflow [OF i0 sm, of b m1] by (simp add: erase_def Let_def)
  qed
qed

lemma wf_full_block:
  assumes "0 < N" "N * unat sz \<le> alloc_limit" "unat c = N" "sz \<noteq> 0"
  shows "wf_buf \<lparr>cb_data = Some a, cb_capacity = c, cb_head = 0, cb_size = c\<rparr>
    \<lparr>heap = (\<lambda>x. None)(a \<mapsto> replicate N (Some v)), brk = Suc a, faults = fs,
     sizeof_T = sz\<rparr>"
proof -
  have "c \<noteq> 0" using assms(1,3) by auto
  moreover have "live_ok (pad N (replicate N (Some v))) 0 N"
    using assms(1) by (simp add: live_ok_def pad_def)
  moreover have "N \<le> alloc_limit"
  proof -
    have "0 < unat sz" using assms(4) by (simp add: unat_gt_0)
    then have "N \<le> N * unat sz" by simp
    then show ?thesis using assms(2) by (rule le_trans)
  qed
  then have "N + N < 2 ^ 64" using alloc_limit_lt by simp
  ultimately show ?thesis using assms by (simp add: wf_buf_def)
qed

lemma unat_big: "unat (2 ^ 31 :: size_t) = 2 ^ 31"
  by simp

lemma wf_big_buffer: "wf_buf big_buffer big_store"
proof -
  have "wf_buf \<lparr>cb_data = Some 0, cb_capacity = 2 ^ 31, cb_head = 0, cb_size = 2 ^ 31\<rparr>
    \<lparr>heap = (\<lambda>x. None)(0 \<mapsto> replicate (2 ^ 31) (Some (0::nat))), brk = Suc 0, faults = [],
     sizeof_T = 1\<rparr>"
  proof (rule wf_full_block)
    show "0 < (2::nat) ^ 31" by simp
    show "(2::nat) ^ 31 * unat (1 :: size_t) \<le> alloc_limit" by (simp add: alloc_limit_def)
    show "(1 :: size_t) \<noteq> 0" by simp
    show "unat (2 ^ 31 :: size_t) = 2 ^ 31" by (rule unat_big)
  qed
  then show ?thesis by (simp only: big_buffer_def big_store_def One_nat_def)
qed

text \<open>
  C5, at a range of \<open>2 ^ 31\<close> elements. The buffer \<open>big_buffer\<close> is well formed
  and holds \<open>2 ^ 31\<close> elements; \<open>[begin(), end())\<close> is a valid range of it. The call
  \<open>erase(begin(), end())\<close> does not remove the \<open>2 ^ 31\<close> elements and return: after
  \<open>INT_MAX + 1\<close> pops the \<open>int\<close> counter of the popping loop overflows, which is
  undefined behaviour.
\<close>

theorem erase_whole_big_buffer_undefined:
  "wf_buf big_buffer big_store \<and> unat (cb_size big_buffer) = 2 ^ 31 \<and>
   it_offset (end_cb 0 big_buffer) - it_offset (begin_cb 0) = 2 ^ 31 \<and>
   erase 0 big_buffer (begin_cb 0) (end_cb 0 big_buffer) big_store = Some Undefined"
proof -
  note w = wf_big_buffer
  have s: "unat (cb_size big_buffer) = 2 ^ 31" unfolding big_buffer_def using unat_big by simp
  have o: "it_offset (end_cb 0 big_buffer) = 2 ^ 31" "it_offset (begin_cb 0) = 0"
    by (simp_all add: end_cb_def begin_cb_def big_buffer_def)
  have "erase 0 big_buffer (begin_cb 0) (end_cb 0 big_buffer) big_store = Some Undefined"
  proof (rule erase_overflow [OF w])
    show "it_buff (begin_cb 0) = 0" by (simp add: begin_cb_def)
    show "it_buff (end_cb 0 big_buffer) = 0" by (simp add: end_cb_def)
    show "unat (it_offset (begin_cb 0)) \<le> unat (it_offset (end_cb 0 big_buffer))"
      unfolding o by simp
    show "unat (it_offset (end_cb 0 big_buffer)) \<le> unat (cb_size big_buffer)"
      unfolding o s using unat_big by simp
    show "INT_MAX < int (unat (it_offset (end_cb 0 big_buffer)) - unat (it_offset (begin_cb 0)))"
      unfolding o using unat_big by (simp add: INT_MAX_def)
    show "faults big_store = []" by (simp add: big_store_def)
  qed
  then show ?thesis using w s o by simp
qed

text \<open>
  C4, on \<open>b.insert(b.begin(), b.front())\<close> for the full buffer \<open>one_full\<close>, whose one
  element \<open>7\<close> is in slot \<open>0\<close> of the block at \<open>0\<close>: \<open>b.front()\<close> refers to that slot.
  \<open>begin()\<close> is a valid position. The insertion pushes at the back; the push finds the
  buffer full and grows it, which releases the block at \<open>0\<close>, and then copies from its
  argument: the read goes through a dangling reference. The call has no defined
  behaviour, so it does not return with \<open>7\<close> at index \<open>0\<close> and the size \<open>2\<close>.
\<close>

theorem insert_own_element_undefined:
  "wf_buf one_full (one_full_store []) \<and> contents one_full (one_full_store []) = [Some 7] \<and>
   read_ref (Slot 0 0) (one_full_store []) = Some 7 \<and>
   insert_cb 0 one_full (begin_cb 0) (Slot 0 0) (one_full_store []) = Some Undefined"
proof -
  have "read_ref (Slot 0 0) (one_full_store []) = Some 7 \<and>
      insert_cb 0 one_full (begin_cb 0) (Slot 0 0) (one_full_store []) = Some Undefined"
    by (simp add: insert_cb_def it_diff_def begin_cb_def push_back.simps
        uninitialized_copy.simps clear.simps one_full_def one_full_store_def eval_simps
        alloc_limit_small alloc_limit_pos replicate_two)
  then show ?thesis using wf_one_full [of "[]"] contents_one_full [of "[]"] by simp
qed

end
